(* ===== verification/Pink_Prelude.thy ===== *)
theory Pink_Prelude
  imports Main "HOL-Library.Word"
begin

text \<open>
  Shared ground of the development: bytes and strings, the C conversions between the integer
  widths the program uses, decimal rendering (\<^verbatim>\<open>std::to_string\<close>), bounded search in a buffer
  (\<^verbatim>\<open>memchr\<close>), the operating system's \<^verbatim>\<open>read\<close> and \<^verbatim>\<open>write\<close> as scripts of results, and the
  enumerations of \<^verbatim>\<open>pink_define.h\<close>.
  The collections \<open>c_int\<close> (conversions), \<open>buf_simps\<close> (search in buffers) and \<open>io_simps\<close>
  (results of system calls) carry the component proofs.
\<close>

named_theorems c_int \<open>C integer conversions that do not change the value\<close>
named_theorems buf_simps \<open>search and slicing in byte buffers\<close>
named_theorems io_simps \<open>results of the scripted system calls\<close>

section \<open>Bytes\<close>

type_synonym bytes = string
type_synonym fd = int

abbreviation NUL :: char where "NUL \<equiv> CHR 0x00"
abbreviation CR :: char where "CR \<equiv> CHR 0x0D"
abbreviation LF :: char where "LF \<equiv> CHR 0x0A"
abbreviation CRLF :: bytes where "CRLF \<equiv> [CR, LF]"

text \<open>\<^verbatim>\<open>isspace\<close> and \<^verbatim>\<open>isdigit\<close> of the C locale, on bytes.\<close>

definition c_isspace :: "char \<Rightarrow> bool" where
  "c_isspace c \<longleftrightarrow> c \<in> {CHR '' '', CHR 0x09, CHR 0x0A, CHR 0x0B, CHR 0x0C, CHR 0x0D}"

definition c_isdigit :: "char \<Rightarrow> bool" where
  "c_isdigit c \<longleftrightarrow> 48 \<le> (of_char c :: nat) \<and> (of_char c :: nat) \<le> 57"

definition c_tolower :: "char \<Rightarrow> char" where
  "c_tolower c = (let n = (of_char c :: nat) in
     if 65 \<le> n \<and> n \<le> 90 then char_of (n + 32) else c)"

text \<open>A C string is the part of a buffer before its first NUL.\<close>

definition cstr :: "bytes \<Rightarrow> bytes" where
  "cstr s = takeWhile (\<lambda>c. c \<noteq> NUL) s"

section \<open>Integer conversions\<close>

text \<open>
  \<open>to_int32\<close> is the conversion to a 32-bit \<^verbatim>\<open>int\<close> (gcc: modulo \<open>2^32\<close>), \<open>to_size\<close> the
  conversion of a signed value to \<^verbatim>\<open>size_t\<close>.
\<close>

definition to_int32 :: "int \<Rightarrow> int" where
  "to_int32 x = (x + 2 ^ 31) mod 2 ^ 32 - 2 ^ 31"

definition to_size :: "int \<Rightarrow> nat" where
  "to_size x = nat (x mod 2 ^ 64)"

lemma to_int32_id [c_int]: "- (2 ^ 31) \<le> x \<Longrightarrow> x < 2 ^ 31 \<Longrightarrow> to_int32 x = x"
  by (simp add: to_int32_def)

lemma to_int32_bounds: "- (2 ^ 31) \<le> to_int32 x" "to_int32 x < 2 ^ 31"
proof -
  have "0 \<le> (x + 2 ^ 31) mod 2 ^ 32" "(x + 2 ^ 31) mod 2 ^ 32 < (2 ^ 32 :: int)"
    by simp_all
  then show "- (2 ^ 31) \<le> to_int32 x" "to_int32 x < 2 ^ 31"
    by (simp_all add: to_int32_def)
qed

lemma to_size_id [c_int]: "0 \<le> x \<Longrightarrow> x < 2 ^ 64 \<Longrightarrow> to_size x = nat x"
  by (simp add: to_size_def)

lemma to_size_negative [c_int]: "x < 0 \<Longrightarrow> - (2 ^ 64) \<le> x \<Longrightarrow> to_size x = nat (2 ^ 64 + x)"
proof -
  assume "x < 0" "- (2 ^ 64) \<le> x"
  then have "(x + 2 ^ 64) mod 2 ^ 64 = x + 2 ^ 64"
    by (intro mod_pos_pos_trivial) simp_all
  moreover have "(x + 2 ^ 64) mod 2 ^ 64 = x mod 2 ^ 64" by (rule mod_add_self2)
  ultimately show ?thesis by (simp only: to_size_def add.commute)
qed

section \<open>Search in a buffer\<close>

text \<open>\<^verbatim>\<open>memchr\<close>: the position of the first byte with a property, if there is one.\<close>

fun find_pos :: "(char \<Rightarrow> bool) \<Rightarrow> bytes \<Rightarrow> nat option" where
  "find_pos P [] = None"
| "find_pos P (c # s) = (if P c then Some 0 else map_option Suc (find_pos P s))"

lemma find_pos_None [buf_simps]: "find_pos P s = None \<longleftrightarrow> (\<forall>c \<in> set s. \<not> P c)"
  by (induction s) auto

lemma find_pos_SomeD:
  "find_pos P s = Some i \<Longrightarrow> i < length s \<and> P (s ! i) \<and> (\<forall>j < i. \<not> P (s ! j))"
proof (induction s arbitrary: i)
  case Nil
  then show ?case by simp
next
  case (Cons c s)
  show ?case
  proof (cases "P c")
    case True
    with Cons.prems show ?thesis by simp
  next
    case False
    with Cons.prems obtain k where k: "find_pos P s = Some k" "i = Suc k" by auto
    have "\<not> P ((c # s) ! j)" if "j < i" for j
      using that k Cons.IH [OF k(1)] False by (cases j) auto
    with k Cons.IH [OF k(1)] show ?thesis by simp
  qed
qed

lemma find_pos_append [buf_simps]:
  "find_pos P (s @ t) =
    (case find_pos P s of Some i \<Rightarrow> Some i | None \<Rightarrow> map_option (\<lambda>i. length s + i) (find_pos P t))"
  by (induction s; cases "find_pos P t") (auto split: option.splits)

lemma find_pos_append_Some: "find_pos P s = Some i \<Longrightarrow> find_pos P (s @ t) = Some i"
  by (simp add: find_pos_append)

lemma find_pos_skip:
  "\<forall>c \<in> set s. \<not> P c \<Longrightarrow> P c \<Longrightarrow> find_pos P (s @ c # t) = Some (length s)"
  using find_pos_None [of P s] by (simp add: find_pos_append)

section \<open>Decimal rendering\<close>

text \<open>\<^verbatim>\<open>std::to_string\<close> (and \<^verbatim>\<open>operator<<\<close>) of an unsigned integer.\<close>

definition digit_char :: "nat \<Rightarrow> char" where
  "digit_char d = char_of (48 + d)"

fun to_string :: "nat \<Rightarrow> bytes" where
  "to_string n = (if n < 10 then [digit_char n] else to_string (n div 10) @ [digit_char (n mod 10)])"

declare to_string.simps [simp del]

lemma of_char_digit_char: "d < 10 \<Longrightarrow> (of_char (digit_char d) :: nat) = 48 + d"
  by (simp add: digit_char_def)

lemma to_string_digits: "\<forall>c \<in> set (to_string n). c_isdigit c"
proof (induction n rule: to_string.induct)
  case (1 n)
  have digit: "c_isdigit (digit_char d)" if "d < 10" for d
    using that by (simp add: c_isdigit_def of_char_digit_char)
  show ?case
  proof (cases "n < 10")
    case True
    then show ?thesis by (subst to_string.simps) (simp add: digit)
  next
    case False
    with 1 show ?thesis by (subst to_string.simps) (auto simp: digit)
  qed
qed

lemma to_string_nonempty [simp]: "to_string n \<noteq> []"
  by (subst to_string.simps) simp

lemma digit_not_special: "c_isdigit c \<Longrightarrow> c \<noteq> LF \<and> c \<noteq> CR \<and> c \<noteq> CHR ''-'' \<and> c \<noteq> CHR ''+''"
  by (auto simp: c_isdigit_def)

lemma to_string_no_LF: "\<forall>c \<in> set (to_string n). c \<noteq> LF"
  using to_string_digits digit_not_special by blast

lemma to_string_no_CR: "\<forall>c \<in> set (to_string n). c \<noteq> CR"
  using to_string_digits digit_not_special by blast

lemma length_to_string_less: "n < 10 ^ k \<Longrightarrow> 0 < k \<Longrightarrow> length (to_string n) \<le> k"
proof (induction n arbitrary: k rule: to_string.induct)
  case (1 n)
  show ?case
  proof (cases "n < 10")
    case True
    with 1 show ?thesis by (subst to_string.simps) simp
  next
    case False
    with 1 obtain j where j: "k = Suc j" "0 < j" by (cases k; cases "k - 1") auto
    with 1 have "n div 10 < 10 ^ j" by (simp add: less_mult_imp_div_less mult.commute)
    with 1 False j have "length (to_string (n div 10)) \<le> j" by simp
    with False j show ?thesis by (subst to_string.simps) simp
  qed
qed

text \<open>The value of a string of decimal digits.\<close>

definition dec_val :: "bytes \<Rightarrow> int" where
  "dec_val s = foldl (\<lambda>v c. 10 * v + (of_char c - 48)) 0 s"

lemma of_char_digit_char_int: "d < 10 \<Longrightarrow> (of_char (digit_char d) :: int) = 48 + int d"
  using of_char_digit_char [of d] by (metis of_nat_add of_nat_numeral of_nat_of_char)

lemma dec_val_to_string: "dec_val (to_string n) = int n"
proof (induction n rule: to_string.induct)
  case (1 n)
  then show ?case
    by (cases "n < 10") (simp_all add: to_string.simps [of n] dec_val_def of_char_digit_char_int zdiv_int zmod_int)
qed

text \<open>\<^verbatim>\<open>std::to_string\<close> of an \<^verbatim>\<open>int\<close>.\<close>

definition print_int :: "int \<Rightarrow> bytes" where
  "print_int i = (if i < 0 then CHR ''-'' # to_string (nat (- i)) else to_string (nat i))"

section \<open>System calls\<close>

text \<open>
  What the operating system answers is not determined by the program: a run is given the list
  of answers.  \<open>sys_read n\<close> is \<^verbatim>\<open>read(fd, buf, n)\<close> on a non-blocking descriptor: \<open>n = 0\<close> returns 0,
  a chunk longer than \<open>n\<close> is delivered in part, and with no answer left there is nothing to read
  (\<^verbatim>\<open>EAGAIN\<close>).  \<open>sys_write s\<close> is \<^verbatim>\<open>write(fd, s, |s|)\<close>: it accepts at most \<open>|s|\<close> bytes.
\<close>

datatype errno = EAGAIN | EINTR | EDEADLK | EOTHER

datatype read_answer = Bytes bytes | Eof | ReadErr errno
datatype read_result = Nread bytes | Rerror errno

fun sys_read :: "nat \<Rightarrow> read_answer list \<Rightarrow> read_result \<times> read_answer list" where
  "sys_read n [] = (if n = 0 then (Nread [], []) else (Rerror EAGAIN, []))"
| "sys_read n (a # as) =
     (if n = 0 then (Nread [], a # as)
      else case a of
        Eof \<Rightarrow> (Nread [], as)
      | ReadErr e \<Rightarrow> (Rerror e, as)
      | Bytes s \<Rightarrow> (if length s \<le> n then (Nread s, as) else (Nread (take n s), Bytes (drop n s) # as)))"

datatype write_answer = Accept nat | WriteErr errno
datatype write_result = Nwritten nat | Werror errno

fun sys_write :: "bytes \<Rightarrow> write_answer list \<Rightarrow> write_result \<times> write_answer list" where
  "sys_write s [] = (Werror EAGAIN, [])"
| "sys_write s (Accept k # as) = (Nwritten (min k (length s)), as)"
| "sys_write s (WriteErr e # as) = (Werror e, as)"

lemma sys_read_length: "sys_read n as = (Nread s, as') \<Longrightarrow> length s \<le> n"
  by (cases as) (auto split: if_splits read_answer.splits)

lemma sys_read_fits [io_simps]:
  "0 < n \<Longrightarrow> length s \<le> n \<Longrightarrow> sys_read n (Bytes s # as) = (Nread s, as)"
  by simp

lemma sys_write_length: "sys_write s as = (Nwritten k, as') \<Longrightarrow> k \<le> length s"
  by (cases "(s, as)" rule: sys_write.cases) auto

lemma sys_write_shorter: "as \<noteq> [] \<Longrightarrow> length (snd (sys_write s as)) < length as"
  by (cases "(s, as)" rule: sys_write.cases) auto

lemma sys_write_consumes: "sys_write s as = (w, as') \<Longrightarrow> w \<noteq> Werror EAGAIN \<Longrightarrow> length as' < length as"
  by (cases "(s, as)" rule: sys_write.cases) auto

text \<open>How much a script of reads still holds, counting one for each answer.\<close>

fun script_size :: "read_answer list \<Rightarrow> nat" where
  "script_size [] = 0"
| "script_size (Bytes s # as) = Suc (length s + script_size as)"
| "script_size (_ # as) = Suc (script_size as)"

lemma sys_read_consumes:
  "sys_read n as = (r, as') \<Longrightarrow> r \<noteq> Rerror EAGAIN \<Longrightarrow> r \<noteq> Nread [] \<Longrightarrow> script_size as' < script_size as"
  by (cases as rule: script_size.cases) (auto split: if_splits)

lemma sys_read_size: "sys_read n as = (r, as') \<Longrightarrow> script_size as' \<le> script_size as"
  by (cases as rule: script_size.cases) (auto split: if_splits)

section \<open>Enumerations of pink\_define.h\<close>

datatype NotifyType = kNotiConnect | kNotiClose | kNotiEpollout | kNotiEpollin
  | kNotiEpolloutAndEpollin | kNotiWrite | kNotiWait

datatype ConnStatus = kHeader | kPacket | kComplete | kBuildObuf | kWriteObuf

datatype ReadStatus = kReadHalf | kReadAll | kReadError | kReadClose | kFullError
  | kParseError | kDealError | kOk

datatype WriteStatus = kWriteHalf | kWriteAll | kWriteError

datatype RetCode = kSuccess | kBindError | kCreateThreadError | kListenError
  | kSetSockOptError | kCreateThreadPoolError

definition REDIS_MAX_MESSAGE :: int where "REDIS_MAX_MESSAGE = 2 ^ 28"
definition REDIS_MBULK_BIG_ARG :: int where "REDIS_MBULK_BIG_ARG = 1024 * 32"
definition REDIS_INLINE_MAXLEN :: int where "REDIS_INLINE_MAXLEN = 1024 * 64"
definition REDIS_IOBUF_LEN :: int where "REDIS_IOBUF_LEN = 16384"
definition REDIS_REQ_INLINE :: nat where "REDIS_REQ_INLINE = 1"
definition REDIS_REQ_MULTIBULK :: nat where "REDIS_REQ_MULTIBULK = 2"

end
