(* ===== verification/RedisFormat.thy ===== *)
theory RedisFormat
  imports Pink_Prelude
begin

text \<open>
  Serialising redis commands, the last part of \<^verbatim>\<open>src/redis_cli.cc\<close>: the length helpers, the
  \<^verbatim>\<open>printf\<close>-like \<^verbatim>\<open>redisvFormatCommand\<close>, and \<^verbatim>\<open>redisFormatCommandArgv\<close>.

  A format string is the list of its characters before the terminating NUL, a pointer into it
  is a suffix.  The variable arguments are a list of tagged values; \<^verbatim>\<open>vsnprintf\<close>'s rendering of one
  conversion is a parameter \<open>render\<close>.  Reading an argument that is not there or of the wrong kind,
  and moving a pointer past the terminator, is undefined behaviour: the result \<open>Inl\<close>; so is the
  failing \<^verbatim>\<open>assert\<close> on the length of the result.

  The lemmas show that the computed lengths are the lengths of what is written.
\<close>

section \<open>Lengths\<close>

text \<open>\<^verbatim>\<open>REDIS_STATUS\<close>.\<close>

definition REDIS_ETIMEOUT :: int where "REDIS_ETIMEOUT = -5"
definition REDIS_EREAD_NULL :: int where "REDIS_EREAD_NULL = -4"
definition REDIS_EREAD :: int where "REDIS_EREAD = -3"
definition REDIS_EPARSE_TYPE :: int where "REDIS_EPARSE_TYPE = -2"
definition REDIS_ERR :: int where "REDIS_ERR = -1"
definition REDIS_OK :: int where "REDIS_OK = 0"
definition REDIS_HALF :: int where "REDIS_HALF = 1"

lemmas redis_status_defs = REDIS_ETIMEOUT_def REDIS_EREAD_NULL_def REDIS_EREAD_def
  REDIS_EPARSE_TYPE_def REDIS_ERR_def REDIS_OK_def REDIS_HALF_def

text \<open>The \<^verbatim>\<open>do\<close> loop of \<^verbatim>\<open>intlen\<close> for a non-negative value (\<^verbatim>\<open>i /= 10\<close> until it is 0).\<close>

fun intlen_loop :: "nat \<Rightarrow> nat" where
  "intlen_loop i = (if i < 10 then 1 else Suc (intlen_loop (i div 10)))"

declare intlen_loop.simps [simp del]

definition intlen :: "int \<Rightarrow> nat" where
  "intlen i = (if i < 0 then 1 + intlen_loop (nat (- i)) else intlen_loop (nat i))"

definition bulklen :: "nat \<Rightarrow> nat" where
  "bulklen len = 1 + intlen (to_int32 (int len)) + 2 + len + 2"

lemma intlen_loop_to_string: "intlen_loop n = length (to_string n)"
proof (induction n rule: intlen_loop.induct)
  case (1 n)
  then show ?case by (cases "n < 10") (simp_all add: intlen_loop.simps [of n] to_string.simps [of n])
qed

lemma intlen_to_string: "n < 2 ^ 31 \<Longrightarrow> intlen (to_int32 (int n)) = length (to_string n)"
  by (simp add: intlen_def c_int intlen_loop_to_string)

section \<open>Formatting an argument vector\<close>

definition format_bulk :: "bytes \<Rightarrow> bytes" where
  "format_bulk arg = CHR ''$'' # to_string (length arg) @ CRLF @ arg @ CRLF"

text \<open>The bytes both formatters append to \<^verbatim>\<open>cmd\<close>, and \<^verbatim>\<open>redisFormatCommandArgv\<close> with its result.\<close>

definition format_command :: "bytes list \<Rightarrow> bytes" where
  "format_command args = CHR ''*'' # to_string (length args) @ CRLF @ concat (map format_bulk args)"

definition redisFormatCommandArgv :: "bytes list \<Rightarrow> int \<times> bytes" where
  "redisFormatCommandArgv argv = (REDIS_OK, format_command argv)"

definition totlen :: "bytes list \<Rightarrow> nat" where
  "totlen args = sum_list (map (\<lambda>a. bulklen (length a)) args) + (1 + intlen (to_int32 (int (length args))) + 2)"

lemma length_format_bulk: "length arg < 2 ^ 31 \<Longrightarrow> length (format_bulk arg) = bulklen (length arg)"
  by (simp add: format_bulk_def bulklen_def intlen_to_string)

lemma totlen_format_command:
  assumes "length args < 2 ^ 31" "\<forall>a \<in> set args. length a < 2 ^ 31"
  shows "totlen args = length (format_command args)"
proof -
  have "length (concat (map format_bulk args)) = sum_list (map (\<lambda>a. bulklen (length a)) args)"
    using assms(2) by (induction args) (auto simp: length_format_bulk)
  with assms(1) show ?thesis
    by (simp add: totlen_def format_command_def intlen_to_string)
qed

section \<open>Formatting with a format string\<close>

datatype va_item = VaStr bytes | VaSize nat | VaInt int | VaLong int | VaDouble bytes
datatype fmt_abort = VaMisuse | OutOfBounds | TotlenAssert

text \<open>The fixed alphabet of the conversions; \<^verbatim>\<open>strchr\<close> also finds the terminating NUL.\<close>

definition intfmts :: bytes where "intfmts = ''diouxX''"
definition dblfmts :: bytes where "dblfmts = ''eEfFgGaA''"

definition strchr_hit :: "bytes \<Rightarrow> bytes \<Rightarrow> bool" where
  "strchr_hit fmts p = (case p of [] \<Rightarrow> True | c # _ \<Rightarrow> c \<in> set fmts)"

text \<open>Skipping flags, field width and precision from \<^verbatim>\<open>_p = c + 1\<close>.\<close>

definition skip_one :: "char \<Rightarrow> bytes \<Rightarrow> bytes" where
  "skip_one ch p = (case p of [] \<Rightarrow> [] | c # r \<Rightarrow> if c = ch then r else p)"

definition skip_spec :: "bytes \<Rightarrow> bytes" where
  "skip_spec p =
     (let p1 = skip_one CHR ''+'' (skip_one CHR '' '' (skip_one CHR ''-''
                 (skip_one CHR ''0'' (skip_one CHR ''#'' p))));
          p2 = dropWhile c_isdigit p1
      in case p2 of
           [] \<Rightarrow> []
         | c # r \<Rightarrow> if c = CHR ''.'' then dropWhile c_isdigit r else p2)"

text \<open>
  The conversion at \<open>_p\<close>: where its letter is, and the argument it takes.  \<open>None\<close> is
  \<^verbatim>\<open>fmt_valid == false\<close>.
\<close>

datatype conv = ConvInt | ConvLong | ConvDouble

definition valid_after :: "conv \<Rightarrow> bytes \<Rightarrow> (bytes \<times> conv) option" where
  "valid_after k p = (if p \<noteq> [] \<and> hd p \<in> set intfmts then Some (p, k) else None)"

definition conversion :: "bytes \<Rightarrow> (bytes \<times> conv) option" where
  "conversion p =
     (if strchr_hit intfmts p then Some (p, ConvInt)
      else if strchr_hit dblfmts p then Some (p, ConvDouble)
      else if take 2 p = ''hh'' then valid_after ConvInt (drop 2 p)
      else if take 1 p = ''h'' then valid_after ConvInt (drop 1 p)
      else if take 2 p = ''ll'' then valid_after ConvLong (drop 2 p)
      else if take 1 p = ''l'' then valid_after ConvLong (drop 1 p)
      else None)"

fun va_conv :: "conv \<Rightarrow> va_item list \<Rightarrow> (va_item \<times> va_item list) option" where
  "va_conv ConvInt (VaInt i # ap) = Some (VaInt i, ap)"
| "va_conv ConvLong (VaLong i # ap) = Some (VaLong i, ap)"
| "va_conv ConvDouble (VaDouble d # ap) = Some (VaDouble d, ap)"
| "va_conv _ _ = None"

definition FMT_BUF :: nat where "FMT_BUF = 1048576"

text \<open>
  The \<^verbatim>\<open>default\<close> case of the switch, at a pointer \<open>c\<close> to the percent sign: the text to append,
  the remaining arguments, and the pointer after the switch advanced by the two \<^verbatim>\<open>c++\<close> that follow.
  A letter pointer at the terminator is moved past it.
\<close>

definition format_conv ::
  "(bytes \<Rightarrow> va_item \<Rightarrow> bytes) \<Rightarrow> bytes \<Rightarrow> va_item list \<Rightarrow> fmt_abort + (bytes \<times> va_item list \<times> bytes) option" where
  "format_conv render c ap =
     (case conversion (skip_spec (drop 1 c)) of
        None \<Rightarrow> Inr None
      | Some (p, k) \<Rightarrow>
          (case va_conv k ap of
             None \<Rightarrow> Inl VaMisuse
           | Some (item, ap') \<Rightarrow>
               let l = length c - length p + 1 in
               if l < 14 then
                 let out = render (take l c) item in
                 if FMT_BUF \<le> length out \<or> p = [] then Inl OutOfBounds
                 else Inr (Some (out, ap', drop 1 p))
               else Inr (Some ([], ap', drop 2 c))))"

text \<open>
  The loop of \<^verbatim>\<open>redisvFormatCommand\<close> over the format string; \<open>Inr None\<close> is \<^verbatim>\<open>return REDIS_ERR\<close>,
  \<open>Inr (Some args)\<close> the collected arguments.  The escape \<^verbatim>\<open>%%\<close> appends \<^verbatim>\<open>(nullptr, 0)\<close>.
\<close>

definition finish_arg :: "bytes list \<Rightarrow> bytes \<Rightarrow> bool \<Rightarrow> bytes list" where
  "finish_arg args curarg touched = (if touched then args @ [curarg] else args)"

lemma length_skip_one: "length (skip_one ch p) \<le> length p"
  by (simp add: skip_one_def split: list.split)

lemma length_skip_spec: "length (skip_spec p) \<le> length p"
proof -
  define p1 where "p1 = skip_one CHR ''+'' (skip_one CHR '' '' (skip_one CHR ''-''
    (skip_one CHR ''0'' (skip_one CHR ''#'' p))))"
  have "length p1 \<le> length p"
    unfolding p1_def by (meson length_skip_one le_trans)
  moreover have "length (dropWhile c_isdigit p1) \<le> length p1"
    by (rule length_dropWhile_le)
  moreover have "length (dropWhile c_isdigit r) \<le> length r" for r
    by (rule length_dropWhile_le)
  ultimately show ?thesis
    unfolding skip_spec_def Let_def p1_def [symmetric]
    by (cases "dropWhile c_isdigit p1") (auto simp del: dropWhile_eq_Nil_conv intro: le_trans le_SucI)
qed

lemma length_conversion: "conversion p = Some (q, k) \<Longrightarrow> length q \<le> length p"
  by (auto simp: conversion_def valid_after_def split: if_splits)

lemma format_conv_shorter:
  assumes "format_conv render c ap = Inr (Some (out, ap', c'))" "c \<noteq> []"
  shows "length c' < length c"
proof -
  from assms obtain p k where p: "conversion (skip_spec (drop 1 c)) = Some (p, k)"
    and c': "c' = drop 1 p \<or> c' = drop 2 c"
    by (auto simp: format_conv_def Let_def split: option.splits if_splits)
  have "length p \<le> length (drop 1 c)"
    using length_conversion [OF p] length_skip_spec [of "drop 1 c"] by linarith
  with c' assms(2) show ?thesis by (cases c) auto
qed

function format_loop ::
  "(bytes \<Rightarrow> va_item \<Rightarrow> bytes) \<Rightarrow> bytes \<Rightarrow> va_item list \<Rightarrow> bytes list \<Rightarrow> bytes \<Rightarrow> bool
    \<Rightarrow> fmt_abort + bytes list option" where
  "format_loop render c ap args curarg touched =
     (if c = [] then Inr (Some (finish_arg args curarg touched))
      else if hd c \<noteq> CHR ''%'' \<or> tl c = [] then
        if hd c = CHR '' '' then
          if touched then format_loop render (tl c) ap (args @ [curarg]) [] False
          else format_loop render (tl c) ap args curarg touched
        else format_loop render (tl c) ap args (curarg @ [hd c]) True
      else if c ! 1 = CHR ''s'' then
        (case ap of
           VaStr s # ap' \<Rightarrow>
             let curarg' = curarg @ cstr s in
             if curarg' = [] then Inr None else format_loop render (drop 2 c) ap' args curarg' True
         | _ \<Rightarrow> Inl VaMisuse)
      else if c ! 1 = CHR ''b'' then
        (case ap of
           VaStr s # VaSize n # ap' \<Rightarrow>
             let curarg' = curarg @ take n s in
             if length s < n then Inl OutOfBounds
             else if curarg' = [] then Inr None else format_loop render (drop 2 c) ap' args curarg' True
         | _ \<Rightarrow> Inl VaMisuse)
      else if c ! 1 = CHR ''%'' then
        (if curarg = [] then Inr None else format_loop render (drop 2 c) ap args curarg True)
      else
        (case format_conv render c ap of
           Inl e \<Rightarrow> Inl e
         | Inr None \<Rightarrow> Inr None
         | Inr (Some (out, ap', c')) \<Rightarrow>
             let curarg' = curarg @ out in
             if curarg' = [] then Inr None else format_loop render c' ap' args curarg' True))"
  by pat_completeness auto
termination
  by (relation "measure (\<lambda>(render, c, ap, args, curarg, touched). length c)")
     (auto dest!: format_conv_shorter)

declare format_loop.simps [simp del]

text \<open>\<^verbatim>\<open>redisvFormatCommand\<close>: the return value and \<^verbatim>\<open>cmd\<close> (unchanged on an error).\<close>

definition redisvFormatCommand ::
  "(bytes \<Rightarrow> va_item \<Rightarrow> bytes) \<Rightarrow> bytes \<Rightarrow> bytes \<Rightarrow> va_item list \<Rightarrow> fmt_abort + int \<times> bytes" where
  "redisvFormatCommand render cmd format ap =
     (case format_loop render format ap [] [] False of
        Inl e \<Rightarrow> Inl e
      | Inr None \<Rightarrow> Inr (REDIS_ERR, cmd)
      | Inr (Some args) \<Rightarrow>
          if length (format_command args) = totlen args
          then Inr (to_int32 (int (totlen args)), format_command args)
          else Inl TotlenAssert)"

definition redisvAppendCommand ::
  "(bytes \<Rightarrow> va_item \<Rightarrow> bytes) \<Rightarrow> bytes \<Rightarrow> bytes \<Rightarrow> va_item list \<Rightarrow> fmt_abort + int \<times> bytes" where
  "redisvAppendCommand render cmd format ap =
     (case redisvFormatCommand render cmd format ap of
        Inl e \<Rightarrow> Inl e
      | Inr (len, cmd') \<Rightarrow> Inr (if len = -1 then REDIS_ERR else REDIS_OK, cmd'))"

definition SerializeRedisCommand ::
  "(bytes \<Rightarrow> va_item \<Rightarrow> bytes) \<Rightarrow> bytes \<Rightarrow> bytes \<Rightarrow> va_item list \<Rightarrow> fmt_abort + int \<times> bytes" where
  "SerializeRedisCommand render cmd format ap = redisvAppendCommand render cmd format ap"

text \<open>The overload on an argument vector.\<close>

definition SerializeRedisCommandArgv :: "bytes list \<Rightarrow> int \<times> bytes" where
  "SerializeRedisCommandArgv argv = redisFormatCommandArgv argv"

section \<open>What a format string means\<close>

text \<open>
  The documented format language, for formats made of literal words, \<^verbatim>\<open>%s\<close> and \<^verbatim>\<open>%b\<close> separated by
  single spaces: each item is one argument of the command, and an argument supplied by the
  caller is never cut at a space or read as a format.
\<close>

datatype fmt_item = LitItem bytes | StrItem bytes | BinItem bytes nat

fun item_text :: "fmt_item \<Rightarrow> bytes" where
  "item_text (LitItem w) = w" | "item_text (StrItem s) = ''%s''" | "item_text (BinItem s n) = ''%b''"

fun item_va :: "fmt_item \<Rightarrow> va_item list" where
  "item_va (LitItem w) = []" | "item_va (StrItem s) = [VaStr s]" | "item_va (BinItem s n) = [VaStr s, VaSize n]"

fun item_arg :: "fmt_item \<Rightarrow> bytes" where
  "item_arg (LitItem w) = w" | "item_arg (StrItem s) = cstr s" | "item_arg (BinItem s n) = take n s"

fun item_ok :: "fmt_item \<Rightarrow> bool" where
  "item_ok (LitItem w) \<longleftrightarrow> w \<noteq> [] \<and> CHR ''%'' \<notin> set w \<and> CHR '' '' \<notin> set w"
| "item_ok (StrItem s) \<longleftrightarrow> cstr s \<noteq> []"
| "item_ok (BinItem s n) \<longleftrightarrow> 0 < n \<and> n \<le> length s"

fun items_text :: "fmt_item list \<Rightarrow> bytes" where
  "items_text [] = []" | "items_text [i] = item_text i"
| "items_text (i # is) = item_text i @ CHR '' '' # items_text is"

lemma format_loop_word:
  "CHR ''%'' \<notin> set w \<Longrightarrow> CHR '' '' \<notin> set w \<Longrightarrow>
   format_loop render (w @ c) ap args curarg touched = format_loop render c ap args (curarg @ w) (touched \<or> w \<noteq> [])"
proof (induction w arbitrary: curarg touched)
  case (Cons x w)
  then show ?case by (subst format_loop.simps) (auto simp: Cons)
qed simp

lemma format_loop_item:
  "item_ok i \<Longrightarrow> format_loop render (item_text i @ c) (item_va i @ ap) args [] False
     = format_loop render c ap args (item_arg i) True"
proof (cases i)
  case (LitItem w)
  moreover assume "item_ok i"
  ultimately show ?thesis by (simp add: format_loop_word)
next
  case (StrItem s)
  moreover assume "item_ok i"
  ultimately show ?thesis by (subst format_loop.simps) simp
next
  case (BinItem s n)
  moreover assume "item_ok i"
  ultimately show ?thesis by (subst format_loop.simps) auto
qed

lemma format_loop_items:
  "\<forall>i \<in> set is. item_ok i \<Longrightarrow>
   format_loop render (items_text is) (concat (map item_va is)) args [] False = Inr (Some (args @ map item_arg is))"
proof (induction "is" arbitrary: args rule: items_text.induct)
  case 1
  then show ?case by (simp add: format_loop.simps finish_arg_def)
next
  case (2 i)
  then show ?case using format_loop_item [of i render "[]" "[]" args]
    by (simp add: format_loop.simps [of _ "[]"] finish_arg_def)
next
  case (3 i j "is")
  let ?rest = "items_text (j # is)"
  let ?va = "concat (map item_va (j # is))"
  have "format_loop render (items_text (i # j # is)) (concat (map item_va (i # j # is))) args [] False
      = format_loop render (CHR '' '' # ?rest) ?va args (item_arg i) True"
    using 3 format_loop_item [of i render "CHR '' '' # ?rest" ?va args] by simp
  also have "\<dots> = format_loop render ?rest ?va (args @ [item_arg i]) [] False"
    by (subst format_loop.simps) simp
  also have "\<dots> = Inr (Some (args @ map item_arg (i # j # is)))"
    using 3 by simp
  finally show ?case .
qed

lemma totlen_small:
  assumes "length (format_command args) < 2 ^ 31"
  shows "totlen args = length (format_command args)"
proof -
  have "length args \<le> length (concat (map format_bulk args))"
    by (induction args) (auto simp: format_bulk_def)
  moreover have "\<forall>a \<in> set args. length a \<le> length (concat (map format_bulk args))"
    by (induction args) (auto simp: format_bulk_def)
  ultimately show ?thesis
    using assms by (intro totlen_format_command) (auto simp: format_command_def)
qed



text \<open>The assertion on the length of the built command never fails below 2 GB: the buffer length computed
  while the format is scanned is the number of bytes written, so a scan that collects arguments always
  ends in a command and its length.\<close>

lemma format_length_assert_holds:
  assumes "format_loop render format ap [] [] False = Inr (Some args)" "length (format_command args) < 2 ^ 31"
  shows "redisvFormatCommand render cmd format ap = Inr (int (length (format_command args)), format_command args)"
  using assms totlen_small [OF assms(2)] by (simp add: redisvFormatCommand_def c_int)

end
