(* ===== verification/Ordered_Map.thy ===== *)
theory Ordered_Map
  imports Pink_Prelude "HOL-Library.List_Lexorder" "HOL-Library.Char_ord"
begin

text \<open>
  \<^verbatim>\<open>std::map\<close> as the library uses it: an association list in ascending key order, so that iteration is
  a walk along the list.  \<open>std::map<std::string, ...>\<close> compares byte strings, which is the
  lexicographic order on lists of characters.

  The locale \<open>map_spec\<close> is what clients rely on; the ordered association list provides it.
\<close>

type_synonym ('k, 'v) omap = "('k \<times> 'v) list"

fun om_ins :: "'k::linorder \<Rightarrow> 'v \<Rightarrow> ('k, 'v) omap \<Rightarrow> ('k, 'v) omap" where
  "om_ins k v [] = [(k, v)]"
| "om_ins k v ((k', v') # m) =
     (if k < k' then (k, v) # (k', v') # m else if k = k' then (k, v) # m else (k', v') # om_ins k v m)"

definition om_del :: "'k \<Rightarrow> ('k, 'v) omap \<Rightarrow> ('k, 'v) omap" where
  "om_del k m = filter (\<lambda>p. fst p \<noteq> k) m"

definition om_get :: "('k, 'v) omap \<Rightarrow> 'k \<Rightarrow> 'v option" where
  "om_get m k = map_of m k"

definition om_ok :: "('k::linorder, 'v) omap \<Rightarrow> bool" where
  "om_ok m \<longleftrightarrow> sorted_wrt (<) (map fst m)"

section \<open>The interface\<close>

locale map_spec =
  fixes get :: "'m \<Rightarrow> 'k \<Rightarrow> 'v option"
    and ins :: "'k \<Rightarrow> 'v \<Rightarrow> 'm \<Rightarrow> 'm"
    and del :: "'k \<Rightarrow> 'm \<Rightarrow> 'm"
    and ok :: "'m \<Rightarrow> bool"
  assumes get_ins: "ok m \<Longrightarrow> get (ins k v m) = (get m)(k \<mapsto> v)"
    and get_del: "ok m \<Longrightarrow> get (del k m) = (get m)(k := None)"
    and ok_ins: "ok m \<Longrightarrow> ok (ins k v m)"
    and ok_del: "ok m \<Longrightarrow> ok (del k m)"
begin

lemma get_ins_same: "ok m \<Longrightarrow> get (ins k v m) k = Some v"
  by (simp add: get_ins)

lemma get_ins_other: "ok m \<Longrightarrow> k' \<noteq> k \<Longrightarrow> get (ins k v m) k' = get m k'"
  by (simp add: get_ins)

lemma dom_ins: "ok m \<Longrightarrow> dom (get (ins k v m)) = insert k (dom (get m))"
  by (simp add: get_ins)

lemma dom_del: "ok m \<Longrightarrow> dom (get (del k m)) = dom (get m) - {k}"
  by (simp add: get_del)

lemma ran_ins_subset: "ok m \<Longrightarrow> ran (get (ins k v m)) \<subseteq> insert v (ran (get m))"
  by (auto simp: get_ins ran_def)

lemma ran_del_subset: "ok m \<Longrightarrow> ran (get (del k m)) \<subseteq> ran (get m)"
  by (auto simp: get_del ran_def)

text \<open>Replacing a value by one with a property keeps the property of all values.\<close>

lemma all_ins: "ok m \<Longrightarrow> P k v \<Longrightarrow> (\<And>k' v'. get m k' = Some v' \<Longrightarrow> P k' v') \<Longrightarrow>
    get (ins k v m) k' = Some v' \<Longrightarrow> P k' v'"
  by (auto simp: get_ins split: if_splits)

lemma all_del: "ok m \<Longrightarrow> (\<And>k' v'. get m k' = Some v' \<Longrightarrow> P k' v') \<Longrightarrow> get (del k m) k' = Some v' \<Longrightarrow> P k' v'"
  by (auto simp: get_del split: if_splits)

end

section \<open>The ordered association list\<close>

lemma om_ins_keys: "set (map fst (om_ins k v m)) = insert k (set (map fst m))"
  by (induction k v m rule: om_ins.induct) auto

lemma om_ok_ins: "om_ok m \<Longrightarrow> om_ok (om_ins k v m)"
proof (induction k v m rule: om_ins.induct)
  case (2 k v k' v' m)
  then show ?case using om_ins_keys [of k v m] by (auto simp: om_ok_def)
qed (simp add: om_ok_def)

lemma om_ok_del: "om_ok m \<Longrightarrow> om_ok (om_del k m)"
  unfolding om_ok_def om_del_def
  by (induction m) auto

lemma om_get_ins: "om_ok m \<Longrightarrow> om_get (om_ins k v m) = (om_get m)(k \<mapsto> v)"
proof (induction k v m rule: om_ins.induct)
  case (2 k v k' v' m)
  then have "om_ok m" by (simp add: om_ok_def)
  with 2 show ?case by (auto simp: om_get_def fun_eq_iff)
qed (simp add: om_get_def fun_eq_iff)

lemma om_get_del: "om_get (om_del k m) = (om_get m)(k := None)"
  by (induction m) (auto simp: om_get_def om_del_def fun_eq_iff)

interpretation om: map_spec om_get om_ins om_del om_ok
  by unfold_locales (simp_all add: om_get_ins om_get_del om_ok_ins om_ok_del)

lemma om_ok_Nil [simp]: "om_ok []"
  by (simp add: om_ok_def)

lemma om_get_Nil [simp]: "om_get [] = (\<lambda>_. None)"
  by (simp add: om_get_def fun_eq_iff)

lemma om_ok_Cons: "om_ok ((k, v) # m) \<longleftrightarrow> om_ok m \<and> (\<forall>k' \<in> fst ` set m. k < k')"
  by (auto simp: om_ok_def)

lemma om_ok_distinct: "om_ok m \<Longrightarrow> distinct (map fst m)"
  unfolding om_ok_def by (induction m) (auto simp: image_iff)

lemma om_get_iff: "om_ok m \<Longrightarrow> om_get m k = Some v \<longleftrightarrow> (k, v) \<in> set m"
  by (simp add: om_get_def om_ok_distinct)

lemma om_ok_filter: "om_ok m \<Longrightarrow> om_ok (filter P m)"
  unfolding om_ok_def by (induction m) auto

lemma om_ok_map: "(\<And>p. fst (f p) = fst p) \<Longrightarrow> om_ok m \<Longrightarrow> om_ok (map f m)"
  by (simp add: om_ok_def comp_def)

lemma set_om_del: "set (om_del k m) = {p \<in> set m. fst p \<noteq> k}"
  by (auto simp: om_del_def)

lemma set_om_ins: "om_ok m \<Longrightarrow> set (om_ins k v m) = insert (k, v) {p \<in> set m. fst p \<noteq> k}"
  by (induction k v m rule: om_ins.induct) (auto simp: om_ok_Cons)

section \<open>Keys\<close>

definition keys :: "('k, 'v) omap \<Rightarrow> 'k set" where
  "keys m = fst ` set m"

lemma keys_Nil [simp]: "keys [] = {}"
  by (simp add: keys_def)

lemma keys_Cons [simp]: "keys ((k, v) # m) = insert k (keys m)"
  by (simp add: keys_def)

lemma keys_ins [simp]: "keys (om_ins k v m) = insert k (keys m)"
  using om_ins_keys [of k v m] by (simp add: keys_def)

lemma keys_del [simp]: "keys (om_del k m) = keys m - {k}"
  by (force simp: keys_def om_del_def)

lemma om_get_keys: "om_get m k = None \<longleftrightarrow> k \<notin> keys m"
  by (simp add: om_get_def keys_def map_of_eq_None_iff)

lemma om_get_in_keys: "om_get m k = Some v \<Longrightarrow> k \<in> keys m"
  using om_get_keys [of m k] by auto

lemma keys_get: "k \<in> keys m \<Longrightarrow> \<exists>v. om_get m k = Some v"
  using om_get_keys [of m k] by auto

lemma keys_eq: "map fst m = map fst m' \<Longrightarrow> keys m = keys m'"
  by (metis keys_def list.set_map)

end
