(* ===== verification/PinkConn.thy ===== *)
theory PinkConn
  imports Ordered_Map "HOL-Library.Word"
begin

unbundle bit_operations_syntax

text \<open>
  The base of every connection (\<^verbatim>\<open>include/pink_conn.h\<close>, \<^verbatim>\<open>src/pink_conn.cc\<close>, with \<^verbatim>\<open>src/pink_util.cc\<close>) and the event
  multiplexer with its notification pipe (\<^verbatim>\<open>src/pink_item.h\<close>, \<^verbatim>\<open>src/pink_epoll.cc\<close>).

  A connection class is its table of virtual functions, \<open>conn_ops\<close>; an extension of the record
  \<open>pink_conn\<close> holds the data of a class derived from \<^verbatim>\<open>PinkConn\<close>.  What a handler reads from and
  writes to a socket in one call is given by the answers of the operating system, \<open>io\<close>.  TLS (the
  code under \<^verbatim>\<open>__ENABLE_SSL\<close>) is in the theory \<open>Tls\<close>; the timing metrics are left out.

  The lemmas state the frame of the base operations and, for the pipe, that items come out in the
  order they went in.
\<close>

section \<open>Connections\<close>

type_synonym timeval = "int \<times> int"

record pink_conn =
  pc_fd :: fd
  pc_flags :: int
  pc_ip_port :: bytes
  pc_is_partial_request :: bool
  pc_is_reply :: bool
  pc_is_writable :: bool
  pc_is_waiting_del :: bool
  pc_is_quit :: bool
  pc_last_interaction :: timeval

definition PinkConn_new :: "fd \<Rightarrow> bytes \<Rightarrow> timeval \<Rightarrow> pink_conn" where
  "PinkConn_new fd ip_port now = \<lparr>pc_fd = fd, pc_flags = 0, pc_ip_port = ip_port, pc_is_partial_request = False,
     pc_is_reply = False, pc_is_writable = False, pc_is_waiting_del = False, pc_is_quit = False,
     pc_last_interaction = now\<rparr>"

text \<open>
  \<^verbatim>\<open>Setnonblocking\<close> of \<^verbatim>\<open>src/pink_util.cc\<close> over the answers of its two calls of \<^verbatim>\<open>fcntl\<close> (\<^verbatim>\<open>F_GETFL\<close>, then \<^verbatim>\<open>F_SETFL\<close>):
  the new flags, or -1, and whether it has closed the descriptor, which the callers cannot see.
\<close>

type_synonym fcntl_answers = "int \<times> int"

definition O_NONBLOCK :: int where "O_NONBLOCK = 2048"

definition Setnonblocking :: "fcntl_answers \<Rightarrow> int \<times> bool" where
  "Setnonblocking = (\<lambda>(flags, set_result).
     if flags < 0 then (-1, True)
     else if set_result < 0 then (-1, True)
     else (flags OR O_NONBLOCK, False))"

definition SetNonblock :: "fcntl_answers \<Rightarrow> 'a pink_conn_scheme \<Rightarrow> bool \<times> 'a pink_conn_scheme" where
  "SetNonblock nb c = (fst (Setnonblocking nb) \<noteq> -1, c\<lparr>pc_flags := fst (Setnonblocking nb)\<rparr>)"

text \<open>The descriptor is closed exactly when the call reports a failure.\<close>

lemma Setnonblocking_closes: "fst (Setnonblocking nb) = -1 \<longleftrightarrow> snd (Setnonblocking nb)"
proof -
  have "x OR O_NONBLOCK \<noteq> -1" if "0 \<le> x" for x
  proof -
    have "0 \<le> x OR O_NONBLOCK" using that by (simp add: O_NONBLOCK_def)
    then show ?thesis by linarith
  qed
  then show ?thesis by (auto simp: Setnonblocking_def split: prod.splits)
qed

definition is_ready_to_reply :: "'a pink_conn_scheme \<Rightarrow> bool" where
  "is_ready_to_reply c = (pc_is_writable c \<and> pc_is_reply c)"

definition delayed_del :: "'a pink_conn_scheme \<Rightarrow> 'a pink_conn_scheme" where
  "delayed_del c = c\<lparr>pc_is_waiting_del := True\<rparr>"

definition set_last_interaction :: "timeval \<Rightarrow> 'a pink_conn_scheme \<Rightarrow> 'a pink_conn_scheme" where
  "set_last_interaction now c = c\<lparr>pc_last_interaction := now\<rparr>"

definition set_is_partial_request :: "bool \<Rightarrow> 'a pink_conn_scheme \<Rightarrow> 'a pink_conn_scheme" where
  "set_is_partial_request b c = c\<lparr>pc_is_partial_request := b\<rparr>"

definition set_is_quit :: "'a pink_conn_scheme \<Rightarrow> 'a pink_conn_scheme" where
  "set_is_quit c = c\<lparr>pc_is_quit := True\<rparr>"

definition base_set_is_reply :: "bool \<Rightarrow> 'a pink_conn_scheme \<Rightarrow> 'a pink_conn_scheme" where
  "base_set_is_reply b c = c\<lparr>pc_is_reply := b\<rparr>"

lemmas pink_conn_defs = delayed_del_def set_last_interaction_def set_is_partial_request_def
  set_is_quit_def base_set_is_reply_def SetNonblock_def

text \<open>What the operating system answers to the calls of one handler.\<close>

record io =
  io_reads :: "read_answer list"
  io_writes :: "write_answer list"
  io_realloc :: bool
  io_now :: int

text \<open>
  The virtual functions of a connection class.  \<open>None\<close> is a call that does not return: the program
  is aborted (a failed assertion or an uncaught exception) or loops.
\<close>

record 'a conn_ops =
  co_GetRequest :: "io \<Rightarrow> 'a pink_conn_scheme \<Rightarrow> (ReadStatus \<times> 'a pink_conn_scheme) option"
  co_SendReply :: "io \<Rightarrow> 'a pink_conn_scheme \<Rightarrow> (WriteStatus \<times> 'a pink_conn_scheme) option"
  co_WriteResp :: "bytes \<Rightarrow> 'a pink_conn_scheme \<Rightarrow> 'a pink_conn_scheme"
  co_TryResizeBuffer :: "io \<Rightarrow> 'a pink_conn_scheme \<Rightarrow> 'a pink_conn_scheme"
  co_set_is_reply :: "bool \<Rightarrow> 'a pink_conn_scheme \<Rightarrow> 'a pink_conn_scheme"
  co_is_reply :: "'a pink_conn_scheme \<Rightarrow> bool"

text \<open>
  What the event loops rely on in a connection class: the handlers keep the connection's
  descriptor, peer name and deletion mark.
\<close>

definition same_conn :: "'a pink_conn_scheme \<Rightarrow> 'a pink_conn_scheme \<Rightarrow> bool" where
  "same_conn c c' \<longleftrightarrow> pc_fd c' = pc_fd c \<and> pc_ip_port c' = pc_ip_port c \<and> pc_is_waiting_del c' = pc_is_waiting_del c"

lemma same_conn_refl [simp]: "same_conn c c"
  by (simp add: same_conn_def)

lemma same_conn_trans: "same_conn a b \<Longrightarrow> same_conn b c \<Longrightarrow> same_conn a c"
  by (simp add: same_conn_def)

lemma same_conn_base [simp]:
  "same_conn c (set_last_interaction now c)" "same_conn c (set_is_partial_request b c)"
  "same_conn c (base_set_is_reply b c)" "same_conn c (set_is_quit c)"
  by (simp_all add: same_conn_def pink_conn_defs)

locale conn_class =
  fixes ops :: "'a conn_ops"
  assumes GetRequest_same: "co_GetRequest ops i c = Some (st, c') \<Longrightarrow> same_conn c c'"
    and SendReply_same: "co_SendReply ops i c = Some (ws, c') \<Longrightarrow> same_conn c c'"
    and WriteResp_same: "same_conn c (co_WriteResp ops resp c)"
    and TryResizeBuffer_same: "same_conn c (co_TryResizeBuffer ops i c)"
    and set_is_reply_same: "same_conn c (co_set_is_reply ops b c)"
begin

lemma GetRequest_fd: "co_GetRequest ops i c = Some (st, c') \<Longrightarrow> pc_fd c' = pc_fd c"
  using GetRequest_same by (simp add: same_conn_def)

lemma SendReply_fd: "co_SendReply ops i c = Some (ws, c') \<Longrightarrow> pc_fd c' = pc_fd c"
  using SendReply_same by (simp add: same_conn_def)

lemma WriteResp_fd [simp]: "pc_fd (co_WriteResp ops resp c) = pc_fd c"
  using WriteResp_same by (simp add: same_conn_def)

lemma TryResizeBuffer_fd [simp]: "pc_fd (co_TryResizeBuffer ops i c) = pc_fd c"
  using TryResizeBuffer_same by (simp add: same_conn_def)

lemma set_is_reply_fd [simp]: "pc_fd (co_set_is_reply ops b c) = pc_fd c"
  using set_is_reply_same by (simp add: same_conn_def)

end

section \<open>The event multiplexer\<close>

type_synonym mask = "32 word"

definition EPOLLIN :: mask where "EPOLLIN = 1"
definition EPOLLOUT :: mask where "EPOLLOUT = 4"
definition EPOLLERR :: mask where "EPOLLERR = 8"
definition EPOLLHUP :: mask where "EPOLLHUP = 16"

definition has_flag :: "mask \<Rightarrow> mask \<Rightarrow> bool" where
  "has_flag m f = (m AND f \<noteq> 0)"

text \<open>
  A notification.  The connection it carries is named by its descriptor: \<open>None\<close> is a null
  \<^verbatim>\<open>shared_ptr\<close>.  The constructor checks that the peer name fits its fixed buffer of 43 bytes,
  terminating NUL included.
\<close>

record pink_item =
  it_fd :: fd
  it_ip_port :: bytes
  it_notify_type :: NotifyType
  it_conn :: "fd option"

definition PinkItem_new :: "fd \<Rightarrow> bytes \<Rightarrow> NotifyType \<Rightarrow> pink_item option" where
  "PinkItem_new fd ip_port type =
     (if length ip_port < 43 then Some \<lparr>it_fd = fd, it_ip_port = ip_port, it_notify_type = type, it_conn = None\<rparr>
      else None)"

text \<open>
  The registered events and the pipe of notifications.  \<^verbatim>\<open>epoll_ctl\<close> fails (-1) when a descriptor to
  add is there already, or one to change or delete is not.
\<close>

record pink_epoll =
  ep_events :: "(fd, mask) omap"
  ep_pipe :: "pink_item list"

definition PinkAddEvent :: "fd \<Rightarrow> mask \<Rightarrow> pink_epoll \<Rightarrow> int \<times> pink_epoll" where
  "PinkAddEvent fd m e =
     (case om_get (ep_events e) fd of
        Some _ \<Rightarrow> (-1, e)
      | None \<Rightarrow> (0, e\<lparr>ep_events := om_ins fd m (ep_events e)\<rparr>))"

text \<open>\<^verbatim>\<open>PinkAddEvent\<close> for a descriptor that \<^verbatim>\<open>Setnonblocking\<close> may have closed: \<^verbatim>\<open>epoll_ctl\<close> refuses a closed descriptor.\<close>

definition add_event_nb :: "fcntl_answers \<Rightarrow> fd \<Rightarrow> mask \<Rightarrow> pink_epoll \<Rightarrow> int \<times> pink_epoll" where
  "add_event_nb nb fd m e = (if snd (Setnonblocking nb) then (-1, e) else PinkAddEvent fd m e)"

definition PinkModEvent :: "fd \<Rightarrow> mask \<Rightarrow> mask \<Rightarrow> pink_epoll \<Rightarrow> int \<times> pink_epoll" where
  "PinkModEvent fd old_mask m e =
     (case om_get (ep_events e) fd of
        None \<Rightarrow> (-1, e)
      | Some _ \<Rightarrow> (0, e\<lparr>ep_events := om_ins fd (old_mask OR m) (ep_events e)\<rparr>))"

definition PinkDelEvent :: "fd \<Rightarrow> pink_epoll \<Rightarrow> int \<times> pink_epoll" where
  "PinkDelEvent fd e =
     (case om_get (ep_events e) fd of
        None \<Rightarrow> (-1, e)
      | Some _ \<Rightarrow> (0, e\<lparr>ep_events := om_del fd (ep_events e)\<rparr>))"

text \<open>
  \<^verbatim>\<open>Register\<close> writes the item to the pipe (blocking, and one item is written atomically), whatever
  \<^verbatim>\<open>force\<close> and the queue limit say.
\<close>

definition Register :: "pink_item \<Rightarrow> bool \<Rightarrow> pink_epoll \<Rightarrow> bool \<times> pink_epoll" where
  "Register it force e = (True, e\<lparr>ep_pipe := ep_pipe e @ [it]\<rparr>)"

text \<open>Closing a descriptor takes it out of the multiplexer (the last reference to it goes away).\<close>

definition sys_close :: "fd \<Rightarrow> pink_epoll \<Rightarrow> pink_epoll" where
  "sys_close fd e = e\<lparr>ep_events := om_del fd (ep_events e)\<rparr>"

text \<open>Reading up to \<open>n\<close> items from the pipe.\<close>

definition read_items :: "nat \<Rightarrow> pink_epoll \<Rightarrow> pink_item list \<times> pink_epoll" where
  "read_items n e = (take n (ep_pipe e), e\<lparr>ep_pipe := drop n (ep_pipe e)\<rparr>)"

definition ep_ok :: "pink_epoll \<Rightarrow> bool" where
  "ep_ok e \<longleftrightarrow> om_ok (ep_events e)"

lemma ep_ok_ops [simp]:
  "ep_ok e \<Longrightarrow> ep_ok (snd (PinkAddEvent fd m e))" "ep_ok e \<Longrightarrow> ep_ok (snd (add_event_nb nb fd m e))"
  "ep_ok e \<Longrightarrow> ep_ok (snd (PinkModEvent fd o' m e))"
  "ep_ok e \<Longrightarrow> ep_ok (snd (PinkDelEvent fd e))"
  "ep_ok e \<Longrightarrow> ep_ok (snd (Register it force e))"
  "ep_ok e \<Longrightarrow> ep_ok (sys_close fd e)"
  by (auto simp: ep_ok_def add_event_nb_def PinkAddEvent_def PinkModEvent_def PinkDelEvent_def Register_def sys_close_def om.ok_ins om.ok_del
      split: option.splits)

lemma ep_pipe_ops [simp]:
  "ep_pipe (snd (PinkAddEvent fd m e)) = ep_pipe e" "ep_pipe (snd (add_event_nb nb fd m e)) = ep_pipe e"
  "ep_pipe (snd (PinkModEvent fd o' m e)) = ep_pipe e"
  "ep_pipe (snd (PinkDelEvent fd e)) = ep_pipe e"
  "ep_pipe (sys_close fd e) = ep_pipe e"
  by (auto simp: add_event_nb_def PinkAddEvent_def PinkModEvent_def PinkDelEvent_def sys_close_def split: option.splits)

text \<open>The descriptors the multiplexer watches.\<close>

definition watched :: "pink_epoll \<Rightarrow> fd set" where
  "watched e = keys (ep_events e)"

lemma watched_ops [simp]:
  "watched (snd (PinkAddEvent fd m e)) = insert fd (watched e)"
  "watched (snd (add_event_nb nb fd m e)) = (if snd (Setnonblocking nb) then watched e else insert fd (watched e))"
  "watched (snd (PinkModEvent fd o' m e)) = watched e"
  "watched (snd (PinkDelEvent fd e)) = watched e - {fd}"
  "watched (snd (Register it force e)) = watched e"
  "watched (sys_close fd e) = watched e - {fd}"
  by (auto simp: watched_def add_event_nb_def PinkAddEvent_def PinkModEvent_def PinkDelEvent_def Register_def sys_close_def om_get_keys
      dest: om_get_in_keys split: option.splits)

lemma pipe_frame [simp]: "watched (e\<lparr>ep_pipe := p\<rparr>) = watched e" "ep_ok (e\<lparr>ep_pipe := p\<rparr>) = ep_ok e"
  by (simp_all add: watched_def ep_ok_def)

lemma get_mod_event:
  "ep_ok e \<Longrightarrow> fd \<in> watched e \<Longrightarrow>
   om_get (ep_events (snd (PinkModEvent fd o' m e))) = (om_get (ep_events e))(fd \<mapsto> o' OR m)"
  by (auto simp: PinkModEvent_def ep_ok_def watched_def om.get_ins dest: keys_get)

end
