(* ===== verification/PbConn.thy ===== *)
theory PbConn
  imports PinkConn
begin

text \<open>
  The protobuf server connection, \<^verbatim>\<open>include/pb_conn.h\<close> and \<^verbatim>\<open>src/pb_conn.cc\<close>: frames of a length in
  network byte order and a body.

  Of the buffer \<^verbatim>\<open>rbuf_\<close> the bytes before \<^verbatim>\<open>cur_pos_\<close> are kept, with its allocated size beside them.
  The \<^verbatim>\<open>uint32_t\<close> members are 32-bit words.  The application's \<^verbatim>\<open>DealMessage\<close> reads the body from the
  buffer; its answer includes the replies it passes to \<^verbatim>\<open>WriteResp\<close>.  Protobuf itself is not part of
  the sources.

  The lemmas show that the frames of a stream are handed over one by one and intact however the
  bytes arrive, that no read leaves the buffer, and that replies leave in order.
\<close>

section \<open>Frames\<close>

definition COMMAND_HEADER_LENGTH :: nat where "COMMAND_HEADER_LENGTH = 4"
definition kProtoMaxMessage :: "32 word" where "kProtoMaxMessage = 512 * 1024 * 1024"
definition PB_IOBUF_LEN :: "32 word" where "PB_IOBUF_LEN = 67108864"

text \<open>\<^verbatim>\<open>ntohl\<close> of the first four bytes of a buffer, and the bytes of \<^verbatim>\<open>htonl\<close>.\<close>

definition ntohl_bytes :: "bytes \<Rightarrow> 32 word" where
  "ntohl_bytes s = of_nat (foldl (\<lambda>v c. 256 * v + of_char c) 0 (take 4 s))"

definition htonl_bytes :: "32 word \<Rightarrow> bytes" where
  "htonl_bytes w = (let n = unat w in
     [char_of (n div 2 ^ 24 mod 256), char_of (n div 2 ^ 16 mod 256), char_of (n div 2 ^ 8 mod 256), char_of (n mod 256)])"

definition BuildInternalTag :: "bytes \<Rightarrow> bytes" where
  "BuildInternalTag resp = htonl_bytes (of_nat (length resp))"

lemma length_htonl_bytes [simp]: "length (htonl_bytes w) = 4"
  by (simp add: htonl_bytes_def Let_def)

lemma base256: "n < 2 ^ 32 \<Longrightarrow>
    256 * (256 * (256 * (n div 2 ^ 24) + n div 2 ^ 16 mod 256) + n div 2 ^ 8 mod 256) + n mod 256 = (n :: nat)"
proof -
  assume n: "n < 2 ^ 32"
  have a: "256 * (n div 2 ^ 24) + n div 2 ^ 16 mod 256 = n div 2 ^ 16"
    using div_mult_mod_eq [of "n div 2 ^ 16" 256] by (simp add: div_mult2_eq [symmetric])
  have b: "256 * (n div 2 ^ 16) + n div 2 ^ 8 mod 256 = n div 2 ^ 8"
    using div_mult_mod_eq [of "n div 2 ^ 8" 256] by (simp add: div_mult2_eq [symmetric])
  have c: "256 * (n div 2 ^ 8) + n mod 256 = n"
    using div_mult_mod_eq [of n 256] by simp
  from a b c show ?thesis by simp
qed

lemma ntohl_htonl [simp]: "ntohl_bytes (htonl_bytes w @ s) = w"
proof -
  have lt: "unat w < 2 ^ 32" by (rule order_less_le_trans [OF unsigned_less]) simp
  then have top: "unat w div 16777216 mod 256 = unat w div 16777216" by simp
  from lt have eq: "256 * (256 * (256 * (unat w div 2 ^ 24) + unat w div 2 ^ 16 mod 256) + unat w div 2 ^ 8 mod 256)
      + unat w mod 256 = unat w"
    using base256 by simp
  have "foldl (\<lambda>v c. 256 * v + of_char c) 0 (htonl_bytes w) = (unat w :: nat)"
    using eq by (simp add: htonl_bytes_def Let_def top)
  then show ?thesis by (simp add: ntohl_bytes_def)
qed

section \<open>The connection\<close>

record 'u pb_conn = pink_conn +
  pb_user :: 'u
  pb_header_len :: "32 word"
  pb_rbuf :: bytes
  pb_rbuf_null :: bool
  pb_cur_pos :: "32 word"
  pb_rbuf_len :: "32 word"
  pb_remain_packet_len :: int
  pb_connStatus :: ConnStatus
  pb_queue :: "bytes list"
  pb_item_pos :: nat
  pb_reply_count :: int

type_synonym 'u pb_app = "bytes \<Rightarrow> 'u \<Rightarrow> int \<times> 'u \<times> bytes list"

definition PbConn_new :: "fd \<Rightarrow> bytes \<Rightarrow> timeval \<Rightarrow> 'u \<Rightarrow> 'u pb_conn" where
  "PbConn_new fd ip_port now u =
     pink_conn.extend (PinkConn_new fd ip_port now)
       (pb_conn.fields u (- 1) [] False 0 PB_IOBUF_LEN 0 kHeader [] 0 0)"

definition PbConn_set_is_reply :: "bool \<Rightarrow> 'u pb_conn \<Rightarrow> 'u pb_conn" where
  "PbConn_set_is_reply b c =
     (let n = (if b then pb_reply_count c + 1 else pb_reply_count c - 1)
      in c\<lparr>pb_reply_count := if n < 0 then 0 else n\<rparr>)"

definition PbConn_is_reply :: "'u pb_conn \<Rightarrow> bool" where
  "PbConn_is_reply c = (0 < pb_reply_count c)"

definition PbConn_WriteResp :: "bytes \<Rightarrow> 'u pb_conn \<Rightarrow> 'u pb_conn" where
  "PbConn_WriteResp resp c =
     PbConn_set_is_reply True (c\<lparr>pb_queue := pb_queue c @ [BuildInternalTag resp, resp]\<rparr>)"

section \<open>Reading frames\<close>

text \<open>
  The three states of the loop of \<^verbatim>\<open>GetRequest\<close>, each going on to the next as \<^verbatim>\<open>continue\<close> does.  The
  remaining answers of the socket are returned.  In the two states that only silence a warning the
  loop would spin forever: \<open>None\<close>.
\<close>

definition pb_message :: "'u pb_conn \<Rightarrow> bytes" where
  "pb_message c = take (unat (pb_header_len c)) (drop COMMAND_HEADER_LENGTH (pb_rbuf c))"

definition pb_complete :: "'u pb_app \<Rightarrow> read_answer list \<Rightarrow> 'u pb_conn \<Rightarrow> ReadStatus \<times> 'u pb_conn \<times> read_answer list" where
  "pb_complete deal as c =
     (let (ret, u, resps) = deal (pb_message c) (pb_user c);
          c1 = fold PbConn_WriteResp resps (c\<lparr>pb_user := u\<rparr>)
      in if ret \<noteq> 0 then (kDealError, c1, as)
         else (kReadAll, c1\<lparr>pb_connStatus := kHeader, pb_cur_pos := 0, pb_rbuf := []\<rparr>, as))"

definition pb_expand :: "bool \<Rightarrow> 'u pb_conn \<Rightarrow> bool \<times> 'u pb_conn" where
  "pb_expand realloc_ok c =
     (if pb_rbuf_len c - of_nat COMMAND_HEADER_LENGTH < pb_header_len c then
        let new_size = pb_header_len c + of_nat COMMAND_HEADER_LENGTH in
        if new_size < kProtoMaxMessage then
          if realloc_ok then (True, c\<lparr>pb_rbuf_len := new_size\<rparr>) else (False, c\<lparr>pb_rbuf_null := True\<rparr>)
        else (False, c)
      else (True, c))"

text \<open>\<^verbatim>\<open>read\<close> with a negative \<^verbatim>\<open>int32_t\<close> count, above \<^verbatim>\<open>SSIZE_MAX\<close> as a \<^verbatim>\<open>size_t\<close>, fails.\<close>

definition pb_read :: "int \<Rightarrow> read_answer list \<Rightarrow> read_result \<times> read_answer list" where
  "pb_read n as = (if n < 0 then (Rerror EOTHER, as) else sys_read (nat n) as)"

definition pb_packet :: "'u pb_app \<Rightarrow> bool \<Rightarrow> read_answer list \<Rightarrow> 'u pb_conn \<Rightarrow> ReadStatus \<times> 'u pb_conn \<times> read_answer list" where
  "pb_packet deal realloc_ok as c =
     (let (ok, c1) = pb_expand realloc_ok c in
      if \<not> ok then (kFullError, c1, as)
      else (case pb_read (pb_remain_packet_len c1) as of
          (Rerror e, as') \<Rightarrow> (if e = EAGAIN then kReadHalf else kReadError, c1, as')
        | (Nread s, as') \<Rightarrow>
            if s = [] then (kReadClose, c1, as')
            else
              let c2 = c1\<lparr>pb_rbuf := pb_rbuf c1 @ s, pb_cur_pos := pb_cur_pos c1 + of_nat (length s),
                          pb_remain_packet_len := pb_remain_packet_len c1 - int (length s)\<rparr>
              in if pb_remain_packet_len c2 = 0 then pb_complete deal as' (c2\<lparr>pb_connStatus := kComplete\<rparr>)
                 else (kReadHalf, c2, as')))"

definition pb_header :: "'u pb_app \<Rightarrow> bool \<Rightarrow> read_answer list \<Rightarrow> 'u pb_conn \<Rightarrow> ReadStatus \<times> 'u pb_conn \<times> read_answer list" where
  "pb_header deal realloc_ok as c =
     (case sys_read (unat (of_nat COMMAND_HEADER_LENGTH - pb_cur_pos c)) as of
        (Rerror e, as') \<Rightarrow> (if e = EAGAIN then kReadHalf else kReadError, c, as')
      | (Nread s, as') \<Rightarrow>
          if s = [] then (kReadClose, c, as')
          else
            let c1 = c\<lparr>pb_rbuf := pb_rbuf c @ s, pb_cur_pos := pb_cur_pos c + of_nat (length s)\<rparr> in
            if pb_cur_pos c1 = of_nat COMMAND_HEADER_LENGTH then
              let len = ntohl_bytes (pb_rbuf c1)
              in pb_packet deal realloc_ok as' (c1\<lparr>pb_header_len := len,
                   pb_remain_packet_len := to_int32 (uint len), pb_connStatus := kPacket\<rparr>)
            else (kReadHalf, c1, as'))"

definition PbConn_GetRequest ::
  "'u pb_app \<Rightarrow> bool \<Rightarrow> read_answer list \<Rightarrow> 'u pb_conn \<Rightarrow> (ReadStatus \<times> 'u pb_conn \<times> read_answer list) option" where
  "PbConn_GetRequest deal realloc_ok as c =
     (case pb_connStatus c of
        kHeader \<Rightarrow> Some (pb_header deal realloc_ok as c)
      | kPacket \<Rightarrow> Some (pb_packet deal realloc_ok as c)
      | kComplete \<Rightarrow> Some (pb_complete deal as c)
      | kBuildObuf \<Rightarrow> None
      | kWriteObuf \<Rightarrow> None)"

definition PbConn_TryResizeBuffer :: "io \<Rightarrow> 'u pb_conn \<Rightarrow> 'u pb_conn" where
  "PbConn_TryResizeBuffer i c =
     (let idletime = io_now i - fst (pc_last_interaction c) in
      if PB_IOBUF_LEN < pb_rbuf_len c \<and> (2 < pb_rbuf_len c div (pb_cur_pos c + 1) \<or> 2 < idletime) then
        let new_size = ((pb_cur_pos c + PB_IOBUF_LEN) div PB_IOBUF_LEN) * PB_IOBUF_LEN
        in if new_size < pb_rbuf_len c then c\<lparr>pb_rbuf_len := new_size\<rparr> else c
      else c)"

section \<open>Sending replies\<close>

text \<open>
  The inner loop of \<^verbatim>\<open>SendReply\<close> on one item: what is written, and how the loop is left.  \<open>Popped\<close>: the
  item is sent and removed; \<open>Skipped\<close>: there was nothing to send, so the loop did not run.
\<close>

datatype item_end = Popped | Skipped | Stopped | Failed errno

function send_item :: "bytes \<Rightarrow> nat \<Rightarrow> write_answer list \<Rightarrow> item_end \<times> nat \<times> bytes \<times> write_answer list" where
  "send_item item pos as =
     (if pos < length item then
        (case sys_write (drop pos item) as of
           (Werror e, as') \<Rightarrow> (Failed e, pos, [], as')
         | (Nwritten k, as') \<Rightarrow>
             if k = 0 then (Stopped, pos, [], as')
             else if pos + k = length item then (Popped, 0, drop pos item, as')
             else (case send_item item (pos + k) as' of
                 (r, pos', out, as'') \<Rightarrow> (r, pos', take k (drop pos item) @ out, as'')))
      else (Skipped, pos, [], as))"
  by pat_completeness auto
termination
  by (relation "measure (\<lambda>(item, pos, as). length item - pos)") (auto dest: sys_write_length)

declare send_item.simps [simp del]

partial_function (option) send_queue ::
  "bytes list \<Rightarrow> nat \<Rightarrow> bytes \<Rightarrow> write_answer list \<Rightarrow> (WriteStatus \<times> bytes list \<times> nat \<times> bytes) option" where
  "send_queue q pos wire as =
     (case q of
        [] \<Rightarrow> Some (kWriteAll, q, pos, wire)
      | item # q' \<Rightarrow>
          (case send_item item pos as of
             (r, pos', out, as') \<Rightarrow>
               (case r of
                  Popped \<Rightarrow> send_queue q' 0 (wire @ out) as'
                | Skipped \<Rightarrow> send_queue q pos wire as
                | Stopped \<Rightarrow> Some (kWriteHalf, q, pos', wire @ out)
                | Failed e \<Rightarrow> Some (if e = EAGAIN then kWriteHalf else kWriteError, q, pos', wire @ out))))"

text \<open>\<^verbatim>\<open>SendReply\<close>, with the bytes it has put on the wire.\<close>

definition PbConn_SendReply :: "write_answer list \<Rightarrow> 'u pb_conn \<Rightarrow> (WriteStatus \<times> 'u pb_conn \<times> bytes) option" where
  "PbConn_SendReply as c =
     (case send_queue (pb_queue c) (pb_item_pos c) [] as of
        None \<Rightarrow> None
      | Some (st, q, pos, wire) \<Rightarrow> Some (st, c\<lparr>pb_queue := q, pb_item_pos := pos\<rparr>, wire))"

definition NotifyWrite :: "'u pb_conn \<Rightarrow> pink_epoll \<Rightarrow> pink_epoll option" where
  "NotifyWrite c e = map_option (\<lambda>ti. snd (Register ti True e)) (PinkItem_new (pc_fd c) (pc_ip_port c) kNotiWrite)"

definition NotifyClose :: "'u pb_conn \<Rightarrow> pink_epoll \<Rightarrow> pink_epoll option" where
  "NotifyClose c e = map_option (\<lambda>ti. snd (Register ti True e)) (PinkItem_new (pc_fd c) (pc_ip_port c) kNotiClose)"

definition pb_ops :: "'u pb_app \<Rightarrow> ('u, unit) pb_conn_ext conn_ops" where
  "pb_ops deal =
     \<lparr>co_GetRequest = (\<lambda>i c. map_option (\<lambda>(st, c', _). (st, c')) (PbConn_GetRequest deal (io_realloc i) (io_reads i) c)),
      co_SendReply = (\<lambda>i c. map_option (\<lambda>(st, c', _). (st, c')) (PbConn_SendReply (io_writes i) c)),
      co_WriteResp = PbConn_WriteResp,
      co_TryResizeBuffer = PbConn_TryResizeBuffer,
      co_set_is_reply = PbConn_set_is_reply,
      co_is_reply = PbConn_is_reply\<rparr>"

section \<open>A connection class\<close>

lemma pb_set_is_reply_same [simp]: "same_conn c (PbConn_set_is_reply b c)"
  by (simp add: PbConn_set_is_reply_def same_conn_def Let_def)

lemma pb_WriteResp_same: "same_conn c (PbConn_WriteResp r c)"
  by (simp add: PbConn_WriteResp_def PbConn_set_is_reply_def same_conn_def Let_def)

lemma pb_fold_same: "same_conn c0 c \<Longrightarrow> same_conn c0 (fold PbConn_WriteResp rs c)"
  by (induction rs arbitrary: c) (auto intro!: same_conn_trans [OF _ pb_WriteResp_same])

lemma pb_complete_same: "pb_complete deal as c = (st, c', as') \<Longrightarrow> same_conn c c'"
  using pb_fold_same [of c "c\<lparr>pb_user := u\<rparr>" for u]
  by (auto simp: pb_complete_def Let_def same_conn_def split: prod.splits if_splits)

lemma pb_expand_kept: "pb_expand ok c = (b, c1) \<Longrightarrow> \<exists>nl len. c1 = c\<lparr>pb_rbuf_null := nl, pb_rbuf_len := len\<rparr>"
  by (cases c) (auto simp: pb_expand_def Let_def split: if_splits)

lemma pb_packet_same: "pb_packet deal ok as c = (st, c', as') \<Longrightarrow> same_conn c c'"
  by (auto simp: pb_packet_def Let_def same_conn_def split: prod.splits if_splits read_result.splits
      dest!: pb_complete_same pb_expand_kept)

lemma pb_header_same: "pb_header deal ok as c = (st, c', as') \<Longrightarrow> same_conn c c'"
  by (auto simp: pb_header_def Let_def same_conn_def split: prod.splits if_splits read_result.splits
      dest!: pb_packet_same)

lemma PbConn_GetRequest_same: "PbConn_GetRequest deal ok as c = Some (st, c', as') \<Longrightarrow> same_conn c c'"
  by (auto simp: PbConn_GetRequest_def split: ConnStatus.splits
      dest: pb_header_same pb_packet_same pb_complete_same)

lemma PbConn_SendReply_same: "PbConn_SendReply as c = Some (st, c', w) \<Longrightarrow> same_conn c c'"
  by (auto simp: PbConn_SendReply_def same_conn_def split: option.splits)

interpretation pb: conn_class "pb_ops deal" for deal
  by unfold_locales
     (auto simp: pb_ops_def PbConn_TryResizeBuffer_def PbConn_WriteResp_def Let_def same_conn_def PbConn_set_is_reply_def
       dest!: PbConn_GetRequest_same PbConn_SendReply_same)

section \<open>Frames arrive intact\<close>

definition frame :: "bytes \<Rightarrow> bytes" where
  "frame b = BuildInternalTag b @ b"

definition frame_ok :: "bytes \<Rightarrow> bool" where
  "frame_ok b \<longleftrightarrow> b \<noteq> [] \<and> length b + COMMAND_HEADER_LENGTH < unat kProtoMaxMessage"

text \<open>The bytes a script of reads delivers; scripts of data only, in non-empty pieces.\<close>

fun script_bytes :: "read_answer list \<Rightarrow> bytes" where
  "script_bytes [] = []"
| "script_bytes (Bytes s # as) = s @ script_bytes as"
| "script_bytes (_ # as) = script_bytes as"

fun data_script :: "read_answer list \<Rightarrow> bool" where
  "data_script [] = True"
| "data_script (Bytes s # as) = (s \<noteq> [] \<and> data_script as)"
| "data_script (_ # as) = False"

lemma sys_read_data:
  assumes "data_script as" "0 < n"
  shows "as = [] \<and> sys_read n as = (Rerror EAGAIN, []) \<or>
    (\<exists>s as'. sys_read n as = (Nread s, as') \<and> s \<noteq> [] \<and> length s \<le> n \<and> data_script as'
       \<and> script_bytes as = s @ script_bytes as')"
  using assms by (cases as rule: data_script.cases) auto

definition pb_inv :: "'u pb_conn \<Rightarrow> bool" where
  "pb_inv c \<longleftrightarrow> pb_cur_pos c = of_nat (length (pb_rbuf c)) \<and> 4 \<le> pb_rbuf_len c \<and>
     (pb_connStatus c = kHeader \<and> length (pb_rbuf c) < 4 \<or>
      pb_connStatus c = kPacket \<and> 4 \<le> length (pb_rbuf c) \<and> pb_header_len c = ntohl_bytes (pb_rbuf c) \<and>
        pb_remain_packet_len c = int (unat (pb_header_len c)) - int (length (pb_rbuf c) - 4) \<and> 0 < pb_remain_packet_len c)"

definition plain_deal :: "(bytes \<Rightarrow> 'u \<Rightarrow> 'u \<times> bytes list) \<Rightarrow> 'u pb_app" where
  "plain_deal h b u = (0, h b u)"

lemma unat_small: "n < 2 ^ 32 \<Longrightarrow> unat (of_nat n :: 32 word) = n"
  by (simp add: unat_of_nat)

lemma frame_small: "frame_ok b \<Longrightarrow> length b + 4 < 536870912"
  by (simp add: frame_ok_def kProtoMaxMessage_def COMMAND_HEADER_LENGTH_def)

lemma header_of_frame:
  assumes "frame_ok b"
  shows "ntohl_bytes (frame b @ s) = of_nat (length b)" "unat (of_nat (length b) :: 32 word) = length b"
    "uint (of_nat (length b) :: 32 word) = int (length b)"
proof -
  show "ntohl_bytes (frame b @ s) = of_nat (length b)" by (simp add: frame_def BuildInternalTag_def)
  show "unat (of_nat (length b) :: 32 word) = length b" using frame_small [OF assms] by (simp add: unat_small)
  then show "uint (of_nat (length b) :: 32 word) = int (length b)" by (metis uint_nat)
qed

lemma length_frame: "length (frame b) = 4 + length b"
  by (simp add: frame_def BuildInternalTag_def)

lemma expand_frame:
  assumes "frame_ok b" "pb_header_len c = of_nat (length b)" "4 \<le> pb_rbuf_len c"
  shows "\<exists>len. pb_expand True c = (True, c\<lparr>pb_rbuf_len := len\<rparr>) \<and> 4 \<le> len \<and> length b + 4 \<le> unat len"
proof -
  have b: "length b + 4 < 536870912" using assms(1) by (rule frame_small)
  have new: "unat (of_nat (length b) + 4 :: 32 word) = length b + 4"
    using unat_small [of "length b + 4"] b by simp
  have len: "unat (pb_rbuf_len c - 4) = unat (pb_rbuf_len c) - 4"
    using assms(3) by (simp add: unat_sub)
  show ?thesis
  proof (cases "pb_rbuf_len c - 4 < of_nat (length b)")
    case True
    with new b assms(2) show ?thesis
      by (auto simp: pb_expand_def COMMAND_HEADER_LENGTH_def kProtoMaxMessage_def word_less_nat_alt word_le_nat_alt)
  next
    case False
    then have "length b \<le> unat (pb_rbuf_len c) - 4"
      using len b by (simp add: word_less_nat_alt unat_small)
    moreover have "4 \<le> unat (pb_rbuf_len c)" using assms(3) by (simp add: word_le_nat_alt)
    ultimately show ?thesis
      using False assms(2,3) by (auto simp: pb_expand_def COMMAND_HEADER_LENGTH_def intro!: exI [of _ "pb_rbuf_len c"])
  qed
qed

text \<open>The application's work on one message: its new state, and its replies as they are queued.\<close>

definition pb_run :: "(bytes \<Rightarrow> 'u \<Rightarrow> 'u \<times> bytes list) \<Rightarrow> 'u \<times> bytes list \<Rightarrow> bytes \<Rightarrow> 'u \<times> bytes list" where
  "pb_run h s b = (fst (h b (fst s)), snd s @ concat (map (\<lambda>r. [BuildInternalTag r, r]) (snd (h b (fst s)))))"

definition pb_out :: "'u pb_conn \<Rightarrow> 'u \<times> bytes list \<times> nat" where
  "pb_out c = (pb_user c, pb_queue c, pb_item_pos c)"

text \<open>What one call of \<^verbatim>\<open>GetRequest\<close> achieves on a stream that begins with the frame of \<open>b\<close>.\<close>

definition frame_step ::
  "(bytes \<Rightarrow> 'u \<Rightarrow> 'u \<times> bytes list) \<Rightarrow> bytes \<Rightarrow> bytes \<Rightarrow> 'u pb_conn \<Rightarrow> ReadStatus \<times> 'u pb_conn \<times> read_answer list \<Rightarrow> bool" where
  "frame_step h b rest c res \<longleftrightarrow> (case res of (st, c', as') \<Rightarrow>
     data_script as' \<and> pb_inv c' \<and>
     (st = kReadHalf \<and> pb_rbuf c' @ script_bytes as' = frame b @ rest \<and> pb_out c' = pb_out c \<or>
      st = kReadAll \<and> pb_rbuf c' = [] \<and> script_bytes as' = rest \<and> (pb_user c', pb_queue c') = pb_run h (pb_user c, pb_queue c) b \<and>
        pb_item_pos c' = pb_item_pos c))"

lemma pb_fold_kept:
  "pb_user (fold PbConn_WriteResp rs c) = pb_user c" "pb_rbuf_len (fold PbConn_WriteResp rs c) = pb_rbuf_len c"
  "pb_queue (fold PbConn_WriteResp rs c) = pb_queue c @ concat (map (\<lambda>r. [BuildInternalTag r, r]) rs)"
  "pb_item_pos (fold PbConn_WriteResp rs c) = pb_item_pos c"
  by (induction rs arbitrary: c) (auto simp: PbConn_WriteResp_def PbConn_set_is_reply_def Let_def)

lemma pb_complete_frame:
  assumes "frame_ok b" "pb_rbuf c = frame b" "pb_header_len c = of_nat (length b)" "4 \<le> pb_rbuf_len c"
    and "data_script as" "script_bytes as = rest" "pb_out c = pb_out c0"
  shows "frame_step h b rest c0 (pb_complete (plain_deal h) as c)"
proof -
  have "pb_message c = b"
    using assms(1-3) header_of_frame(2) by (simp add: pb_message_def frame_def BuildInternalTag_def COMMAND_HEADER_LENGTH_def)
  with assms(4-) show ?thesis
    by (auto simp: pb_complete_def plain_deal_def frame_step_def pb_inv_def pb_fold_kept pb_run_def pb_out_def Let_def split: prod.splits)
qed

lemma ntohl_append: "4 \<le> length s \<Longrightarrow> ntohl_bytes (s @ t) = ntohl_bytes s"
  by (simp add: ntohl_bytes_def)

text \<open>Bytes that arrive between the header and the end of a frame.\<close>

lemma frame_prefix:
  assumes "frame_ok b" "4 \<le> length r" "r @ s = frame b @ rest"
  shows "ntohl_bytes r = of_nat (length b)" "length r - 4 \<le> length b \<Longrightarrow> length r = 4 + length b \<Longrightarrow> r = frame b \<and> s = rest"
proof -
  have "ntohl_bytes r = ntohl_bytes (frame b @ rest)" using assms(2,3) ntohl_append by metis
  then show "ntohl_bytes r = of_nat (length b)" using header_of_frame(1) [OF assms(1)] by simp
  assume "length r = 4 + length b"
  then have "length r = length (frame b)" by (simp add: length_frame)
  with assms(3) show "r = frame b \<and> s = rest" by simp
qed

lemma pb_packet_frame:
  assumes b: "frame_ok b" and c: "pb_inv c" "pb_connStatus c = kPacket" and as: "data_script as"
    and stream: "pb_rbuf c @ script_bytes as = frame b @ rest"
  shows "frame_step h b rest c (pb_packet (plain_deal h) True as c) \<and>
    (let as' = snd (snd (pb_packet (plain_deal h) True as c))
     in length (script_bytes as') \<le> length (script_bytes as) \<and>
        (as \<noteq> [] \<longrightarrow> length (script_bytes as') < length (script_bytes as)))"
proof -
  have buf: "4 \<le> length (pb_rbuf c)" "pb_cur_pos c = of_nat (length (pb_rbuf c))" "4 \<le> pb_rbuf_len c"
    "pb_header_len c = of_nat (length b)"
    using c frame_prefix(1) [OF b _ stream] by (auto simp: pb_inv_def)
  let ?remain = "pb_remain_packet_len c"
  have remain: "?remain = int (length b) - int (length (pb_rbuf c) - 4)" "0 < ?remain"
    using c buf(4) header_of_frame(2) [OF b] by (auto simp: pb_inv_def)
  obtain len where len: "pb_expand True c = (True, c\<lparr>pb_rbuf_len := len\<rparr>)" "4 \<le> len"
    using expand_frame [OF b buf(4,3)] by blast
  consider (none) "as = []" "sys_read (nat ?remain) as = (Rerror EAGAIN, [])"
    | (some) s as' where "sys_read (nat ?remain) as = (Nread s, as')" "s \<noteq> []" "length s \<le> nat ?remain" "data_script as'"
      "script_bytes as = s @ script_bytes as'"
    using sys_read_data [OF as, of "nat ?remain"] remain(2) by auto
  then show ?thesis
  proof cases
    case none
    with len c remain(2) stream show ?thesis
      by (simp add: pb_packet_def pb_read_def frame_step_def pb_inv_def pb_out_def)
  next
    case some
    define c2 where "c2 = c\<lparr>pb_rbuf_len := len, pb_rbuf := pb_rbuf c @ s, pb_cur_pos := pb_cur_pos c + of_nat (length s),
        pb_remain_packet_len := ?remain - int (length s)\<rparr>"
    have packet: "pb_packet (plain_deal h) True as c =
        (if pb_remain_packet_len c2 = 0 then pb_complete (plain_deal h) as' (c2\<lparr>pb_connStatus := kComplete\<rparr>)
         else (kReadHalf, c2, as'))"
      using some(1,2) len(1) remain(2) by (simp add: pb_packet_def pb_read_def c2_def)
    have stream2: "pb_rbuf c2 @ script_bytes as' = frame b @ rest" using stream some(5) by (simp add: c2_def)
    have smaller: "length (script_bytes as') < length (script_bytes as)" using some(2,5) by simp
    have keeps: "snd (snd (pb_complete (plain_deal h) as' c')) = as'" for c' :: "'a pb_conn"
      by (simp add: pb_complete_def plain_deal_def Let_def split: prod.split)
    show ?thesis
    proof (cases "pb_remain_packet_len c2 = 0")
      case True
      then have "length (pb_rbuf c2) = 4 + length b" using remain buf(1) by (simp add: c2_def)
      then have "pb_rbuf c2 = frame b" "script_bytes as' = rest"
        using frame_prefix(2) [OF b _ stream2] by auto
      with True packet pb_complete_frame [OF b, of "c2\<lparr>pb_connStatus := kComplete\<rparr>" as' rest c h]
        some(4) buf(4) len(2) smaller keeps show ?thesis by (simp add: c2_def pb_out_def)
    next
      case False
      have "pb_inv c2"
        using False c some(3) remain buf len(2) header_of_frame(2) [OF b] frame_prefix(1) [OF b _ stream2]
        by (auto simp: pb_inv_def c2_def)
      with False packet stream2 some(4) smaller show ?thesis by (simp add: frame_step_def c2_def pb_out_def)
    qed
  qed
qed

lemma frame_step_cong:
  "frame_step h b rest c res \<Longrightarrow> pb_out c = pb_out c0 \<Longrightarrow> frame_step h b rest c0 res"
  by (simp add: frame_step_def pb_out_def split: prod.splits)

lemma pb_header_frame:
  assumes b: "frame_ok b" and c: "pb_inv c" "pb_connStatus c = kHeader" and as: "data_script as" "as \<noteq> []"
    and stream: "pb_rbuf c @ script_bytes as = frame b @ rest"
  shows "frame_step h b rest c (pb_header (plain_deal h) True as c) \<and>
    length (script_bytes (snd (snd (pb_header (plain_deal h) True as c)))) < length (script_bytes as)"
proof -
  have buf: "length (pb_rbuf c) < 4" "pb_cur_pos c = of_nat (length (pb_rbuf c))" "4 \<le> pb_rbuf_len c"
    using c by (auto simp: pb_inv_def)
  have want: "unat (4 - pb_cur_pos c) = 4 - length (pb_rbuf c)"
    using buf(1,2) by (simp add: unat_sub word_le_nat_alt unat_small)
  obtain s as' where rd: "sys_read (4 - length (pb_rbuf c)) as = (Nread s, as')" "s \<noteq> []"
    "length s \<le> 4 - length (pb_rbuf c)" "data_script as'" "script_bytes as = s @ script_bytes as'"
    using sys_read_data [OF as(1), of "4 - length (pb_rbuf c)"] as(2) buf(1) by auto
  define c1 where "c1 = c\<lparr>pb_rbuf := pb_rbuf c @ s, pb_cur_pos := of_nat (length (pb_rbuf c @ s))\<rparr>"
  define len where "len = ntohl_bytes (pb_rbuf c1)"
  define c2 where "c2 = c1\<lparr>pb_header_len := len, pb_remain_packet_len := to_int32 (uint len), pb_connStatus := kPacket\<rparr>"
  have stream1: "pb_rbuf c1 @ script_bytes as' = frame b @ rest" using stream rd(5) by (simp add: c1_def)
  have smaller: "length (script_bytes as') < length (script_bytes as)" using rd(2,5) by simp
  have full: "pb_cur_pos c1 = of_nat COMMAND_HEADER_LENGTH \<longleftrightarrow> length (pb_rbuf c1) = 4"
  proof -
    have n: "length (pb_rbuf c @ s) < 2 ^ 32" using rd(3) buf(1) by simp
    have "(of_nat (length (pb_rbuf c @ s)) :: 32 word) = of_nat 4 \<longleftrightarrow> length (pb_rbuf c @ s) = 4"
    proof
      assume "(of_nat (length (pb_rbuf c @ s)) :: 32 word) = of_nat 4"
      then have "unat (of_nat (length (pb_rbuf c @ s)) :: 32 word) = unat (of_nat 4 :: 32 word)" by (rule arg_cong)
      then show "length (pb_rbuf c @ s) = 4" unfolding unat_small [OF n] by (simp add: unat_small)
    qed simp
    then show ?thesis by (simp add: c1_def COMMAND_HEADER_LENGTH_def)
  qed
  have call: "pb_header (plain_deal h) True as c =
      (if length (pb_rbuf c1) = 4 then pb_packet (plain_deal h) True as' c2 else (kReadHalf, c1, as'))"
    using rd(1,2) want full buf(2) by (auto simp: pb_header_def COMMAND_HEADER_LENGTH_def c1_def c2_def len_def Let_def)
  show ?thesis
  proof (cases "length (pb_rbuf c1) = 4")
    case False
    then have "pb_inv c1" using c rd(3) buf by (auto simp: pb_inv_def c1_def)
    with False call stream1 rd(4) smaller show ?thesis by (simp add: frame_step_def c1_def pb_out_def)
  next
    case True
    have len: "len = of_nat (length b)" using frame_prefix(1) [OF b _ stream1] True by (simp add: len_def)
    have "unat len = length b" using header_of_frame(2) [OF b] len by simp
    then have "to_int32 (uint len) = int (length b)"
      using frame_small [OF b] by (simp add: to_int32_id uint_nat)
    moreover have "0 < length b" using b by (simp add: frame_ok_def)
    moreover have "ntohl_bytes (pb_rbuf c @ s) = len" by (simp add: len_def c1_def)
    ultimately have "pb_inv c2"
      using True \<open>unat len = _\<close> buf(3) by (simp add: pb_inv_def c2_def c1_def)
    moreover have c2: "pb_connStatus c2 = kPacket" "pb_rbuf c2 @ script_bytes as' = frame b @ rest" "pb_out c2 = pb_out c"
      using stream1 by (simp_all add: c2_def c1_def pb_out_def)
    ultimately show ?thesis
      using call True smaller pb_packet_frame [OF b _ c2(1) rd(4) c2(2), of h] frame_step_cong [OF _ c2(3)]
      by (auto simp: Let_def)
  qed
qed

text \<open>Serving a script of reads; \<open>None\<close> if the connection is closed.\<close>

partial_function (option) pb_serve :: "'u pb_app \<Rightarrow> read_answer list \<Rightarrow> 'u pb_conn \<Rightarrow> 'u pb_conn option" where
  "pb_serve deal as c =
     (if as = [] then Some c
      else case PbConn_GetRequest deal True as c of
        None \<Rightarrow> None
      | Some (st, c', as') \<Rightarrow> if st = kReadHalf \<or> st = kReadAll then pb_serve deal as' c' else None)"

lemma pb_GetRequest_frame:
  assumes "frame_ok b" "pb_inv c" "data_script as" "as \<noteq> []" "pb_rbuf c @ script_bytes as = frame b @ rest"
  shows "\<exists>st c' as'. PbConn_GetRequest (plain_deal h) True as c = Some (st, c', as')
     \<and> frame_step h b rest c (st, c', as') \<and> length (script_bytes as') < length (script_bytes as)"
proof (cases "pb_connStatus c = kHeader")
  case True
  with pb_header_frame [OF assms(1,2) _ assms(3-5), of h] show ?thesis
    by (cases "pb_header (plain_deal h) True as c") (auto simp: PbConn_GetRequest_def)
next
  case False
  with assms(2) have "pb_connStatus c = kPacket" by (auto simp: pb_inv_def)
  with pb_packet_frame [OF assms(1,2) _ assms(3,5), of h] assms(4) show ?thesis
    by (cases "pb_packet (plain_deal h) True as c") (auto simp: PbConn_GetRequest_def Let_def)
qed

lemma data_script_bytes: "data_script as \<Longrightarrow> script_bytes as = [] \<longleftrightarrow> as = []"
  by (cases as rule: data_script.cases) auto

lemma frame_incomplete:
  assumes "frame_ok b" "pb_inv c" "pb_rbuf c @ s = frame b @ rest"
  shows "s \<noteq> []"
proof
  assume "s = []"
  then have eq: "pb_rbuf c = frame b @ rest" using assms(3) by simp
  then have "ntohl_bytes (pb_rbuf c) = of_nat (length b)" "4 + length b \<le> length (pb_rbuf c)"
    using header_of_frame(1) [OF assms(1)] by (simp_all add: length_frame)
  with assms(2) header_of_frame(3) [OF assms(1)] show False by (auto simp: pb_inv_def)
qed

lemma pb_serve_frames:
  assumes "\<forall>b \<in> set bs. frame_ok b" "pb_inv c" "data_script as" "pb_rbuf c @ script_bytes as = concat (map frame bs)"
  shows "\<exists>c'. pb_serve (plain_deal h) as c = Some c' \<and> (pb_user c', pb_queue c') = foldl (pb_run h) (pb_user c, pb_queue c) bs \<and>
    pb_item_pos c' = pb_item_pos c \<and> pb_rbuf c' = []"
  using assms
proof (induction "length (script_bytes as)" arbitrary: as c bs rule: less_induct)
  case less
  show ?case
  proof (cases bs)
    case Nil
    with less.prems data_script_bytes [of as] have "as = []" "pb_rbuf c = []" by auto
    with Nil show ?thesis by (simp add: pb_serve.simps)
  next
    case bs: (Cons b bs')
    let ?rest = "concat (map frame bs')"
    have stream: "frame_ok b" "pb_rbuf c @ script_bytes as = frame b @ ?rest" using less.prems(1,4) bs by auto
    have ne: "as \<noteq> []" using frame_incomplete [OF stream(1) less.prems(2) stream(2)] by auto
    from pb_GetRequest_frame [OF stream(1) less.prems(2,3) ne stream(2), of h] obtain st c1 as1 where
      step: "PbConn_GetRequest (plain_deal h) True as c = Some (st, c1, as1)"
        "frame_step h b ?rest c (st, c1, as1)" "length (script_bytes as1) < length (script_bytes as)" by blast
    have run: "pb_serve (plain_deal h) as c = pb_serve (plain_deal h) as1 c1"
      using step(1,2) ne by (subst pb_serve.simps) (auto simp: frame_step_def)
    have inv: "data_script as1" "pb_inv c1" using step(2) by (auto simp: frame_step_def)
    consider (half) "pb_rbuf c1 @ script_bytes as1 = concat (map frame bs)" "pb_out c1 = pb_out c"
      | (whole) "pb_rbuf c1 = []" "script_bytes as1 = ?rest" "(pb_user c1, pb_queue c1) = pb_run h (pb_user c, pb_queue c) b"
        "pb_item_pos c1 = pb_item_pos c"
      using step(2) bs by (auto simp: frame_step_def)
    then show ?thesis
    proof cases
      case half
      from less.hyps [OF step(3) less.prems(1) inv(2,1) half(1)] half(2) run show ?thesis by (simp add: pb_out_def)
    next
      case whole
      have "\<forall>b \<in> set bs'. frame_ok b" using less.prems(1) bs by simp
      from less.hyps [OF step(3) this inv(2,1)] whole bs run show ?thesis by auto
    qed
  qed
qed

lemma pb_serve_new:
  assumes "\<forall>b \<in> set msgs. frame_ok b" "data_script as" "script_bytes as = concat (map frame msgs)"
  shows "\<exists>c'. pb_serve (plain_deal h) as (PbConn_new fd ip_port now u) = Some c' \<and>
    (pb_user c', pb_queue c') = foldl (pb_run h) (u, []) msgs \<and> pb_item_pos c' = 0 \<and> pb_rbuf c' = []"
proof -
  let ?c = "PbConn_new fd ip_port now u"
  note new = PbConn_new_def pink_conn.defs pb_conn.defs PinkConn_new_def
  have "pb_inv ?c" by (simp add: pb_inv_def new PB_IOBUF_LEN_def word_le_nat_alt)
  moreover have "pb_rbuf ?c = []" "pb_user ?c = u" "pb_queue ?c = []" "pb_item_pos ?c = 0" by (simp_all add: new)
  ultimately show ?thesis using pb_serve_frames [OF assms(1), of ?c as h] assms(2,3) by simp
qed

text \<open>C10: Protobuf frames arrive intact and in order under every division of the stream into reads: a fresh connection
  fed the frames of non-empty messages below the size limit, in pieces of any sizes, stays open, hands
  each message to the application exactly once and in order, queues the application's replies in that order, each
  after its length, and ends between two frames.\<close>

theorem PbConn_frames_any_chunking:
  assumes "\<forall>b \<in> set msgs. frame_ok b" "data_script as" "script_bytes as = concat (map frame msgs)"
  shows "\<exists>c'. pb_serve (plain_deal h) as (PbConn_new fd ip_port now u) = Some c'
     \<and> (pb_user c', pb_queue c') = foldl (pb_run h) (u, []) msgs \<and> pb_rbuf c' = []"
  using pb_serve_new [OF assms, of h fd ip_port now u] by blast

definition collect :: "bytes \<Rightarrow> bytes list \<Rightarrow> bytes list \<times> bytes list" where
  "collect b u = (u @ [b], [])"

theorem PbConn_frames_any_chunking_witness:
  "\<exists>c'. pb_serve (plain_deal collect) [Bytes [NUL], Bytes [NUL, NUL, CHR 0x02, CHR ''h''], Bytes ''i'']
       (PbConn_new 7 ''peer'' (0, 0) []) = Some c'
     \<and> (pb_user c', pb_queue c') = foldl (pb_run collect) ([], []) [''hi''] \<and> pb_rbuf c' = []"
proof (rule PbConn_frames_any_chunking)
  show "\<forall>b \<in> set [''hi'']. frame_ok b"
    by (simp add: frame_ok_def COMMAND_HEADER_LENGTH_def kProtoMaxMessage_def)
  have "htonl_bytes 2 = [NUL, NUL, NUL, CHR 0x02]" by (simp add: htonl_bytes_def Let_def char_of_def bit_0)
  then show "script_bytes [Bytes [NUL], Bytes [NUL, NUL, CHR 0x02, CHR ''h''], Bytes ''i''] = concat (map frame [''hi''])"
    by (simp add: frame_def BuildInternalTag_def)
qed simp

section \<open>Replies leave in order\<close>

lemma send_item_parts:
  assumes "pos < length item" "send_item item pos as = (r, pos', out, as')"
  shows "r \<noteq> Skipped \<and> (if r = Popped then out = drop pos item
     else out @ drop pos' item = drop pos item \<and> pos' < length item)"
  using assms
proof (induction item pos as arbitrary: r pos' out as' rule: send_item.induct)
  case (1 item pos as)
  obtain w as1 where w: "sys_write (drop pos item) as = (w, as1)" by (cases "sys_write (drop pos item) as")
  show ?case
  proof (cases w)
    case (Werror e)
    with w "1.prems" show ?thesis by (auto simp: send_item.simps [of item pos])
  next
    case (Nwritten k)
    have k: "k \<le> length item - pos" using sys_write_length [of "drop pos item" as k as1] w Nwritten by simp
    show ?thesis
    proof (cases "k = 0 \<or> pos + k = length item")
      case True
      with w Nwritten "1.prems" show ?thesis by (auto simp: send_item.simps [of item pos])
    next
      case False
      obtain r1 p1 o1 a1 where rec: "send_item item (pos + k) as1 = (r1, p1, o1, a1)"
        by (cases "send_item item (pos + k) as1")
      have res: "r = r1" "pos' = p1" "out = take k (drop pos item) @ o1"
        using False w Nwritten "1.prems" rec by (auto simp: send_item.simps [of item pos])
      have "pos + k < length item" using False k "1.prems"(1) by linarith
      from "1.IH" [OF "1.prems"(1) w [symmetric] _ _ _ this rec] False Nwritten
      have IH: "r1 \<noteq> Skipped" "if r1 = Popped then o1 = drop (pos + k) item
          else o1 @ drop p1 item = drop (pos + k) item \<and> p1 < length item" by auto
      have "take k (drop pos item) @ drop (pos + k) item = drop pos item"
        by (metis append_take_drop_id drop_drop add.commute)
      with IH res show ?thesis by (auto split: if_splits)
    qed
  qed
qed

lemma send_queue_in_order:
  assumes "[] \<notin> set q" "q \<noteq> [] \<longrightarrow> pos < length (hd q)" "q = [] \<longrightarrow> pos = 0"
  shows "\<exists>st q' pos' out. send_queue q pos wire as = Some (st, q', pos', wire @ out)
     \<and> out @ drop pos' (concat q') = drop pos (concat q) \<and> (st = kWriteAll \<longleftrightarrow> q' = [])
     \<and> [] \<notin> set q' \<and> (q' \<noteq> [] \<longrightarrow> pos' < length (hd q')) \<and> (q' = [] \<longrightarrow> pos' = 0)"
  using assms
proof (induction q arbitrary: pos wire as)
  case Nil
  then show ?case by (simp add: send_queue.simps)
next
  case (Cons item q)
  obtain r pos' out as' where it: "send_item item pos as = (r, pos', out, as')" by (cases "send_item item pos as")
  have pos: "pos < length item" using Cons.prems(2) by simp
  note parts = send_item_parts [OF pos it]
  show ?case
  proof (cases r)
    case Popped
    have "q \<noteq> [] \<longrightarrow> 0 < length (hd q)" using Cons.prems(1) by (cases q) auto
    with Cons.IH [of 0 "wire @ out" as'] Cons.prems(1) obtain st q' p' o' where
      "send_queue q 0 (wire @ out) as' = Some (st, q', p', (wire @ out) @ o')" "o' @ drop p' (concat q') = concat q"
      "(st = kWriteAll) = (q' = [])" "[] \<notin> set q'" "q' \<noteq> [] \<longrightarrow> p' < length (hd q')" "q' = [] \<longrightarrow> p' = 0" by auto
    moreover have "out = drop pos item" using parts Popped by simp
    ultimately show ?thesis
      using it Popped pos by (auto simp: send_queue.simps [of "item # q"] intro!: exI [of _ "out @ o'"])
  next
    case Skipped
    with parts show ?thesis by simp
  next
    case Stopped
    with it parts Cons.prems show ?thesis by (auto simp: send_queue.simps [of "item # q"])
  next
    case (Failed e)
    with it parts Cons.prems show ?thesis by (auto simp: send_queue.simps [of "item # q"])
  qed
qed

definition pb_queue_ok :: "'u pb_conn \<Rightarrow> bool" where
  "pb_queue_ok c \<longleftrightarrow> [] \<notin> set (pb_queue c) \<and> (pb_queue c \<noteq> [] \<longrightarrow> pb_item_pos c < length (hd (pb_queue c)))
     \<and> (pb_queue c = [] \<longrightarrow> pb_item_pos c = 0)"

lemma pb_SendReply_sends:
  assumes "pb_queue_ok c"
  shows "\<exists>st c' out. PbConn_SendReply as c = Some (st, c', out)
     \<and> out @ drop (pb_item_pos c') (concat (pb_queue c')) = drop (pb_item_pos c) (concat (pb_queue c))
     \<and> (st = kWriteAll \<longleftrightarrow> pb_queue c' = []) \<and> pb_queue_ok c'"
proof -
  from send_queue_in_order [of "pb_queue c" "pb_item_pos c" "[]" as] assms
  obtain st q pos out where "send_queue (pb_queue c) (pb_item_pos c) [] as = Some (st, q, pos, out)"
    "out @ drop pos (concat q) = drop (pb_item_pos c) (concat (pb_queue c))" "(st = kWriteAll) = (q = [])"
    "[] \<notin> set q" "q \<noteq> [] \<longrightarrow> pos < length (hd q)" "q = [] \<longrightarrow> pos = 0"
    by (auto simp: pb_queue_ok_def)
  then show ?thesis by (simp add: PbConn_SendReply_def pb_queue_ok_def)
qed

text \<open>C11: Framed replies leave in order and completely: with no empty reply queued, SendReply returns, what it wrote
  followed by what is left is what was queued, and it reports kWriteAll exactly when nothing is left.\<close>

theorem PbConn_SendReply_in_order:
  assumes "pb_queue_ok c"
  shows "\<exists>st c' out. PbConn_SendReply as c = Some (st, c', out)
     \<and> out @ drop (pb_item_pos c') (concat (pb_queue c')) = drop (pb_item_pos c) (concat (pb_queue c))
     \<and> (st = kWriteAll \<longleftrightarrow> pb_queue c' = []) \<and> pb_queue_ok c'"
  using assms by (rule pb_SendReply_sends)

theorem PbConn_SendReply_in_order_witness:
  "\<exists>st c' out. PbConn_SendReply [Accept 3, Accept 2, WriteErr EAGAIN] (PbConn_WriteResp ''hi'' (PbConn_new 7 ''p'' (0, 0) ())) = Some (st, c', out)
     \<and> out @ drop (pb_item_pos c') (concat (pb_queue c')) =
         drop (pb_item_pos (PbConn_WriteResp ''hi'' (PbConn_new 7 ''p'' (0, 0) ())))
              (concat (pb_queue (PbConn_WriteResp ''hi'' (PbConn_new 7 ''p'' (0, 0) ()))))
     \<and> (st = kWriteAll \<longleftrightarrow> pb_queue c' = []) \<and> pb_queue_ok c'"
  by (rule PbConn_SendReply_in_order)
     (simp add: pb_queue_ok_def PbConn_WriteResp_def PbConn_set_is_reply_def PbConn_new_def pink_conn.defs pb_conn.defs
        PinkConn_new_def BuildInternalTag_def htonl_bytes_def Let_def)

text \<open>
  An empty item at the front of the queue is neither sent nor removed: the loop of \<^verbatim>\<open>SendReply\<close> never
  ends, and the thread that serves the connection hangs.
\<close>

lemma send_queue_empty_item: "send_queue ([] # q) pos wire as = None"
proof -
  have "q0 \<noteq> [] # q" if "send_queue q0 p0 w0 a0 = Some y" for q0 p0 w0 a0 y
  proof (rule send_queue.raw_induct [where P = "\<lambda>q0 _ _ _ _. q0 \<noteq> [] # q", OF _ that], rule notI)
    fix f q1 p1 w1 a1 y1
    assume IH: "\<And>q0 p0 w0 a0 y. f q0 p0 w0 a0 = Some y \<Longrightarrow> q0 \<noteq> [] # q" and q1: "q1 = [] # q"
      and body: "(case q1 of [] \<Rightarrow> Some (kWriteAll, q1, p1, w1)
        | item # q' \<Rightarrow> (case send_item item p1 a1 of (r, pos', out, as') \<Rightarrow>
            (case r of Popped \<Rightarrow> f q' 0 (w1 @ out) as' | Skipped \<Rightarrow> f q1 p1 w1 a1
             | Stopped \<Rightarrow> Some (kWriteHalf, q1, pos', w1 @ out)
             | Failed e \<Rightarrow> Some (if e = EAGAIN then kWriteHalf else kWriteError, q1, pos', w1 @ out)))) = Some y1"
    then have "f q1 p1 w1 a1 = Some y1" by (simp add: send_item.simps [of "[]"])
    with IH q1 show False by blast
  qed
  then show ?thesis by (metis option.exhaust)
qed

text \<open>So an application that answers with an empty message stops its worker.\<close>

lemma empty_reply_hangs:
  "PbConn_SendReply [Accept 4] (PbConn_WriteResp [] (PbConn_new 7 ''p'' (0, 0) ())) = None"
proof -
  let ?tag = "BuildInternalTag []"
  have "send_item ?tag 0 [Accept 4] = (Popped, 0, ?tag, [])"
    by (simp add: send_item.simps BuildInternalTag_def)
  then have "send_queue [?tag, []] 0 [] [Accept 4] = send_queue [[]] 0 ?tag []"
    by (subst send_queue.simps) simp
  then show ?thesis
    by (simp add: PbConn_SendReply_def PbConn_WriteResp_def PbConn_set_is_reply_def PbConn_new_def
        pink_conn.defs pb_conn.defs PinkConn_new_def Let_def send_queue_empty_item)
qed

text \<open>
  A frame of length 0 asks \<^verbatim>\<open>read\<close> for 0 bytes, which answers 0 and is taken for the end of the stream.
\<close>

lemma empty_frame_closes:
  "fst (pb_header deal True [Bytes (frame [])] (PbConn_new 7 ''p'' (0, 0) u)) = kReadClose"
proof -
  have hdr: "ntohl_bytes (htonl_bytes 0) = 0" using ntohl_htonl [of 0 "[]"] by simp
  have ne: "htonl_bytes 0 \<noteq> []" by (simp add: htonl_bytes_def Let_def)
  show ?thesis
    by (simp add: pb_header_def frame_def BuildInternalTag_def PbConn_new_def pink_conn.defs pb_conn.defs PinkConn_new_def
        COMMAND_HEADER_LENGTH_def hdr ne pb_packet_def pb_expand_def PB_IOBUF_LEN_def pb_read_def to_int32_def Let_def)
qed

end
