(* ===== verification/PinkCli.thy ===== *)
theory PinkCli
  imports PbConn "HOL-Library.Sublist"
begin

text \<open>
  The blocking client, \<^verbatim>\<open>include/pink_cli.h\<close> and \<^verbatim>\<open>src/pink_cli.cc\<close>, and the protobuf client on top of
  it, \<^verbatim>\<open>src/pb_cli.cc\<close>.

  \<open>Status\<close> is the outcome a call reports.  What the resolver and the socket calls answer for the
  addresses of a host is given as a list of candidates; opened and closed descriptors are recorded.
  Serialising and parsing a protobuf message is a parameter.

  The lemmas show that raw sends and receives move exactly the bytes asked for, in order, however
  the socket splits them, that a framed message is received whole and nothing after it, and which paths of \<^verbatim>\<open>Connect\<close> leave a descriptor open.
\<close>

datatype Status = SOK | STimeout | SIOError | SEndFile | SCorruption

section \<open>Raw sends and receives\<close>

text \<open>
  The loop of \<^verbatim>\<open>SendRaw\<close> on the bytes left: the status, what was sent, the remaining answers.  An
  interrupted call is repeated.
\<close>

function SendRaw :: "bytes \<Rightarrow> write_answer list \<Rightarrow> Status \<times> bytes \<times> write_answer list" where
  "SendRaw buf as =
     (if buf = [] then (SOK, [], as)
      else case sys_write buf as of
        (Werror e, as') \<Rightarrow>
          if e = EINTR then SendRaw buf as'
          else if e = EAGAIN then (STimeout, [], as')
          else (SIOError, [], as')
      | (Nwritten k, as') \<Rightarrow>
          if k = 0 then (SIOError, [], as')
          else (case SendRaw (drop k buf) as' of (s, out, as'') \<Rightarrow> (s, take k buf @ out, as'')))"
  by pat_completeness auto
termination
  by (relation "measure (\<lambda>(buf, as). length as)") (auto dest!: sys_write_consumes [OF sym])

text \<open>The loop of \<^verbatim>\<open>RecvRaw\<close> for \<open>nleft\<close> bytes: the status, what was read, the remaining answers.\<close>

function RecvRaw :: "nat \<Rightarrow> read_answer list \<Rightarrow> Status \<times> bytes \<times> read_answer list" where
  "RecvRaw nleft as =
     (if nleft = 0 then (SOK, [], as)
      else case sys_read nleft as of
        (Rerror e, as') \<Rightarrow>
          if e = EINTR then RecvRaw nleft as'
          else if e = EAGAIN then (STimeout, [], as')
          else (SIOError, [], as')
      | (Nread s, as') \<Rightarrow>
          if s = [] then (SEndFile, [], as')
          else (case RecvRaw (nleft - length s) as' of (st, out, as'') \<Rightarrow> (st, s @ out, as'')))"
  by pat_completeness auto
termination
  by (relation "measure (\<lambda>(n, as). script_size as)") (auto dest!: sys_read_consumes [OF sym])

declare SendRaw.simps [simp del] RecvRaw.simps [simp del]

lemma SendRaw_Nil [simp]: "SendRaw [] as = (SOK, [], as)"
  by (simp add: SendRaw.simps)

lemma RecvRaw_0 [simp]: "RecvRaw 0 as = (SOK, [], as)"
  by (simp add: RecvRaw.simps)

lemma SendRaw_sends:
  assumes "SendRaw buf as = (s, out, as')"
  shows "prefix out buf \<and> (s = SOK \<longleftrightarrow> out = buf)"
  using assms
proof (induction buf as arbitrary: s out as' rule: SendRaw.induct)
  case (1 buf as)
  show ?case
  proof (cases "buf = []")
    case True
    with "1.prems" show ?thesis by (simp add: SendRaw.simps [of buf])
  next
    case ne: False
    obtain w as1 where w: "sys_write buf as = (w, as1)" by (cases "sys_write buf as")
    show ?thesis
    proof (cases w)
      case (Werror e)
      with "1.prems" ne w "1.IH"(2) [OF ne w [symmetric] Werror] show ?thesis
        by (auto simp: SendRaw.simps [of buf] split: if_splits)
    next
      case (Nwritten k)
      show ?thesis
      proof (cases "k = 0")
        case True
        with "1.prems" ne w Nwritten show ?thesis by (auto simp: SendRaw.simps [of buf])
      next
        case False
        obtain s1 o1 a1 where rec: "SendRaw (drop k buf) as1 = (s1, o1, a1)" by (cases "SendRaw (drop k buf) as1")
        with "1.prems" ne w Nwritten False have res: "s = s1" "out = take k buf @ o1"
          by (auto simp: SendRaw.simps [of buf])
        from "1.IH"(1) [OF ne w [symmetric] Nwritten False rec]
        have "prefix o1 (drop k buf)" "s1 = SOK \<longleftrightarrow> o1 = drop k buf" by auto
        moreover have "take k buf @ o1 = buf \<longleftrightarrow> o1 = drop k buf"
          by (metis append_take_drop_id same_append_eq)
        ultimately show ?thesis using res by (metis append_take_drop_id same_prefix_prefix)
      qed
    qed
  qed
qed

lemma RecvRaw_length: "RecvRaw n as = (SOK, out, as') \<Longrightarrow> length out = n"
proof (induction n as arbitrary: out as' rule: RecvRaw.induct)
  case (1 n as)
  show ?case
  proof (cases "n = 0")
    case True
    with "1.prems" show ?thesis by (simp add: RecvRaw.simps [of n])
  next
    case ne: False
    obtain r as1 where r: "sys_read n as = (r, as1)" by (cases "sys_read n as")
    show ?thesis
    proof (cases r)
      case (Rerror e)
      with "1.prems" ne r "1.IH"(2) [OF ne r [symmetric] Rerror] show ?thesis
        by (auto simp: RecvRaw.simps [of n] split: if_splits)
    next
      case (Nread s)
      show ?thesis
      proof (cases "s = []")
        case True
        with "1.prems" ne r Nread show ?thesis by (simp add: RecvRaw.simps [of n])
      next
        case False
        obtain s1 o1 a1 where rec: "RecvRaw (n - length s) as1 = (s1, o1, a1)" by (cases "RecvRaw (n - length s) as1")
        with "1.prems" ne r Nread False have res: "s1 = SOK" "out = s @ o1"
          by (auto simp: RecvRaw.simps [of n])
        from "1.IH"(1) [OF ne r [symmetric] Nread False] rec res(1) have "length o1 = n - length s" by simp
        with res sys_read_length r Nread show ?thesis by auto
      qed
    qed
  qed
qed

text \<open>Data that is there is received, however it is cut.\<close>

lemma RecvRaw_data:
  "data_script as \<Longrightarrow> n \<le> length (script_bytes as) \<Longrightarrow>
   \<exists>as'. RecvRaw n as = (SOK, take n (script_bytes as), as') \<and> data_script as' \<and> script_bytes as' = drop n (script_bytes as)"
proof (induction n as rule: RecvRaw.induct)
  case (1 n as)
  show ?case
  proof (cases "n = 0")
    case True
    with "1.prems" show ?thesis by (simp add: RecvRaw.simps [of n])
  next
    case ne: False
    with "1.prems" have "as \<noteq> []" by auto
    with sys_read_data [OF "1.prems"(1), of n] ne obtain s as1 where s: "sys_read n as = (Nread s, as1)" "s \<noteq> []"
      "length s \<le> n" "data_script as1" "script_bytes as = s @ script_bytes as1" by auto
    have "n - length s \<le> length (script_bytes as1)" using "1.prems"(2) s(5) by auto
    from "1.IH"(1) [OF ne s(1) [symmetric] refl s(2,4) this]
    obtain as' where "RecvRaw (n - length s) as1 = (SOK, take (n - length s) (script_bytes as1), as')"
      "data_script as'" "script_bytes as' = drop (n - length s) (script_bytes as1)" by auto
    with ne s show ?thesis by (simp add: RecvRaw.simps [of n])
  qed
qed

section \<open>Connecting\<close>

record pink_cli =
  cli_peer_ip :: bytes
  cli_peer_port :: int
  cli_send_timeout :: int
  cli_recv_timeout :: int
  cli_connect_timeout :: int
  cli_keep_alive :: bool
  cli_is_block :: bool
  cli_sockfd :: fd
  cli_available :: bool

definition PinkCli_new :: "bytes \<Rightarrow> int \<Rightarrow> pink_cli" where
  "PinkCli_new ip port = \<lparr>cli_peer_ip = ip, cli_peer_port = port, cli_send_timeout = 0, cli_recv_timeout = 0,
     cli_connect_timeout = 1000, cli_keep_alive = False, cli_is_block = True, cli_sockfd = -1, cli_available = False\<rparr>"

text \<open>
  What the calls for one address of the host answer: the new socket or none, the result of
  \<^verbatim>\<open>connect\<close>, of the \<^verbatim>\<open>poll\<close> and \<^verbatim>\<open>getsockopt\<close> that follow a pending connect, and whether the local
  address turned out to be the peer's.
\<close>

datatype pending_answer = PollFails | PollTimeout | SockoptFails | SockError int
datatype connect_answer = ConnectDone | ConnectUnreach | ConnectPending pending_answer | ConnectFails

record candidate =
  cand_socket :: "fd option"
  cand_connect :: connect_answer
  cand_self :: bool

text \<open>The descriptors opened and closed on the way, and whether the address list was freed.\<close>

record connect_trace =
  ct_opened :: "fd list"
  ct_closed :: "fd list"
  ct_freed :: bool

definition close_and_free :: "fd \<Rightarrow> connect_trace \<Rightarrow> connect_trace" where
  "close_and_free fd t = t\<lparr>ct_closed := ct_closed t @ [fd], ct_freed := True\<rparr>"

text \<open>The code after a successful \<^verbatim>\<open>connect\<close>.\<close>

definition connected :: "bool \<Rightarrow> fd \<Rightarrow> pink_cli \<Rightarrow> connect_trace \<Rightarrow> Status \<times> pink_cli \<times> connect_trace" where
  "connected self fd r t =
     (if self then (SIOError, r, t)
      else (SOK, r\<lparr>cli_available := True\<rparr>, t\<lparr>ct_freed := True\<rparr>))"

fun connect_loop :: "candidate list \<Rightarrow> pink_cli \<Rightarrow> connect_trace \<Rightarrow> Status \<times> pink_cli \<times> connect_trace" where
  "connect_loop [] r t = (SIOError, r, t)"
| "connect_loop (p # ps) r t =
     (case cand_socket p of
        None \<Rightarrow> connect_loop ps (r\<lparr>cli_sockfd := -1\<rparr>) t
      | Some fd \<Rightarrow>
          let r1 = r\<lparr>cli_sockfd := fd\<rparr>; t1 = t\<lparr>ct_opened := ct_opened t @ [fd]\<rparr> in
          (case cand_connect p of
             ConnectDone \<Rightarrow> connected (cand_self p) fd r1 t1
           | ConnectUnreach \<Rightarrow> connect_loop ps r1 (t1\<lparr>ct_closed := ct_closed t1 @ [fd]\<rparr>)
           | ConnectPending PollFails \<Rightarrow> (SIOError, r1, close_and_free fd t1)
           | ConnectPending PollTimeout \<Rightarrow> (STimeout, r1, close_and_free fd t1)
           | ConnectPending SockoptFails \<Rightarrow> (SIOError, r1, close_and_free fd t1)
           | ConnectPending (SockError val) \<Rightarrow>
               if val \<noteq> 0 then (SIOError, r1, close_and_free fd t1) else connected (cand_self p) fd r1 t1
           | ConnectFails \<Rightarrow> (SIOError, r1, close_and_free fd t1)))"

text \<open>\<open>None\<close> is a failing \<^verbatim>\<open>getaddrinfo\<close>.\<close>

definition Connect :: "candidate list option \<Rightarrow> pink_cli \<Rightarrow> Status \<times> pink_cli \<times> connect_trace" where
  "Connect addrs r =
     (let t = \<lparr>ct_opened = [], ct_closed = [], ct_freed = False\<rparr> in
      case addrs of None \<Rightarrow> (SIOError, r, t) | Some ps \<Rightarrow> connect_loop ps r t)"

definition Close :: "pink_cli \<Rightarrow> pink_cli \<times> fd list" where
  "Close r = (if cli_available r then (r\<lparr>cli_available := False, cli_sockfd := -1\<rparr>, [cli_sockfd r]) else (r, []))"

definition set_connect_timeout :: "int \<Rightarrow> pink_cli \<Rightarrow> pink_cli" where
  "set_connect_timeout n r = r\<lparr>cli_connect_timeout := n\<rparr>"

text \<open>The timeouts: the answer of \<^verbatim>\<open>setsockopt\<close> is the result.\<close>

definition set_send_timeout :: "int \<Rightarrow> int \<Rightarrow> pink_cli \<Rightarrow> int \<times> pink_cli" where
  "set_send_timeout setsockopt n r = (if 0 < n then (setsockopt, r\<lparr>cli_send_timeout := n\<rparr>) else (0, r))"

definition set_recv_timeout :: "int \<Rightarrow> int \<Rightarrow> pink_cli \<Rightarrow> int \<times> pink_cli" where
  "set_recv_timeout setsockopt n r = (if 0 < n then (setsockopt, r\<lparr>cli_recv_timeout := n\<rparr>) else (0, r))"

text \<open>
  \<^verbatim>\<open>PollFd\<close> gives the returned events, or what \<^verbatim>\<open>poll\<close> answered if that is not positive;
  \<^verbatim>\<open>CheckSockAliveness\<close> peeks one byte when something is there.
\<close>

definition PollFd :: "int \<Rightarrow> int \<Rightarrow> int" where
  "PollFd ret revents = (if 0 < ret then revents else ret)"

definition CheckSockAliveness :: "int \<Rightarrow> int \<Rightarrow> read_result \<Rightarrow> int" where
  "CheckSockAliveness poll_ret revents peek =
     (if 0 < PollFd poll_ret revents then
        (case peek of
           Nread s \<Rightarrow> if s = [] then -1 else 0
         | Rerror e \<Rightarrow> if e \<noteq> EINTR \<and> e \<noteq> EAGAIN then -1 else 0)
      else 0)"

definition CheckAliveness :: "int \<Rightarrow> int \<Rightarrow> read_result \<Rightarrow> pink_cli \<Rightarrow> int" where
  "CheckAliveness poll_ret revents peek r =
     (if cli_sockfd r < 0 then -1 else CheckSockAliveness poll_ret revents peek)"

text \<open>The descriptors a trace leaves open.\<close>

definition left_open :: "connect_trace \<Rightarrow> fd list" where
  "left_open t = filter (\<lambda>fd. fd \<notin> set (ct_closed t)) (ct_opened t)"

lemma connect_loop_result:
  assumes "connect_loop ps r t = (s, r', t')" "set (ct_opened t) = set (ct_closed t)" "\<not> cli_available r"
    and "distinct (ct_opened t @ List.map_filter cand_socket ps)" "\<forall>p \<in> set ps. \<not> cand_self p"
  shows "(s = SOK \<longleftrightarrow> cli_available r') \<and> left_open t' = (if s = SOK then [cli_sockfd r'] else [])"
  using assms
proof (induction ps r t rule: connect_loop.induct)
  case (1 r t)
  then show ?case by (auto simp: left_open_def)
next
  case (2 p ps r t)
  show ?case
  proof (cases "cand_socket p")
    case None
    with "2.prems" "2.IH"(1) show ?thesis by (simp add: map_filter_simps)
  next
    case (Some fd)
    have fd: "fd \<notin> set (ct_closed t)" "\<forall>x \<in> set (ct_opened t). x \<in> set (ct_closed t)"
      using Some "2.prems"(2,4) by (auto simp: map_filter_simps)
    then have open_t: "filter (\<lambda>x. x \<notin> set (ct_closed t)) (ct_opened t) = []"
      "filter (\<lambda>x. x \<noteq> fd \<and> x \<notin> set (ct_closed t)) (ct_opened t) = []"
      by (auto simp: filter_empty_conv)
    note simps = connect_loop.simps Some connected_def close_and_free_def left_open_def Let_def fd open_t
    show ?thesis
    proof (cases "cand_connect p")
      case ConnectUnreach
      with Some "2.prems" "2.IH"(2) [OF Some refl refl ConnectUnreach] show ?thesis
        by (auto simp: map_filter_simps Let_def)
    qed (use "2.prems" in \<open>auto simp: simps split: pending_answer.splits if_splits\<close>)
  qed
qed



text \<open>Connecting to oneself is refused without closing the socket: it stays open and the client forgets it.\<close>

lemma connect_self_leaks:
  "Connect (Some [\<lparr>cand_socket = Some 5, cand_connect = ConnectDone, cand_self = True\<rparr>]) (PinkCli_new ''h'' 80) = (s, r, t) \<Longrightarrow>
   s = SIOError \<and> left_open t = [5] \<and> \<not> ct_freed t \<and> snd (Close r) = []"
  by (auto simp: Connect_def PinkCli_new_def connected_def left_open_def Close_def)

text \<open>SendRaw is all or nothing on success: whatever partial writes and interruptions occur, it has sent a prefix of
  the buffer in order, and it answers OK exactly when that prefix is the whole buffer.\<close>

lemma SendRaw_prefix:
  "case SendRaw buf as of (s, out, as') \<Rightarrow> prefix out buf \<and> (s = SOK \<longleftrightarrow> out = buf)"
  using SendRaw_sends by (cases "SendRaw buf as") blast

section \<open>The protobuf client\<close>

text \<open>
  \<open>ser\<close> and \<open>parse\<close> stand for protobuf.  The buffers hold \<^verbatim>\<open>kProtoMaxMessage\<close> bytes and the code does not
  compare with it: \<open>None\<close> is a write outside them.
\<close>

definition PbCli_Send :: "('m \<Rightarrow> bytes) \<Rightarrow> 'm \<Rightarrow> write_answer list \<Rightarrow> (Status \<times> bytes \<times> write_answer list) option" where
  "PbCli_Send ser m as =
     (let body = ser m; wbuf = htonl_bytes (of_nat (length body)) @ body
      in if unat kProtoMaxMessage < length wbuf then None else Some (SendRaw wbuf as))"

definition PbCli_Recv ::
  "(bytes \<Rightarrow> 'm option) \<Rightarrow> read_answer list \<Rightarrow> (Status \<times> 'm option \<times> read_answer list) option" where
  "PbCli_Recv parse as =
     (case RecvRaw 4 as of
        (s, hdr, as1) \<Rightarrow>
          if s \<noteq> SOK then Some (s, None, as1)
          else
            let packet_len = unat (ntohl_bytes hdr) in
            if unat kProtoMaxMessage < packet_len then None
            else (case RecvRaw packet_len as1 of
                (s2, body, as2) \<Rightarrow>
                  if s2 \<noteq> SOK then Some (s2, None, as2)
                  else (case parse body of
                      None \<Rightarrow> Some (SCorruption, None, as2)
                    | Some m \<Rightarrow> Some (SOK, Some m, as2))))"

lemma PbCli_Recv_frame:
  assumes "data_script as" "script_bytes as = frame b @ rest" "frame_ok b \<or> b = []" "parse b = Some m"
  shows "\<exists>as'. PbCli_Recv parse as = Some (SOK, Some m, as') \<and> data_script as' \<and> script_bytes as' = rest"
proof -
  have b: "length b \<le> unat kProtoMaxMessage" "length b < 2 ^ 32"
    using assms(3) by (auto simp: frame_ok_def kProtoMaxMessage_def)
  from RecvRaw_data [OF assms(1), of 4] assms(2) obtain as1 where
    hdr: "RecvRaw 4 as = (SOK, htonl_bytes (of_nat (length b)), as1)" "data_script as1" "script_bytes as1 = b @ rest"
    by (auto simp: frame_def BuildInternalTag_def)
  have len: "unat (ntohl_bytes (htonl_bytes (of_nat (length b)))) = length b"
    using ntohl_htonl [of "of_nat (length b)" "[]"] b(2) by (simp add: unat_small)
  from RecvRaw_data [OF hdr(2), of "length b"] hdr(3) obtain as2 where
    "RecvRaw (length b) as1 = (SOK, b, as2)" "data_script as2" "script_bytes as2 = rest" by auto
  with hdr(1) len b(1) assms(4) show ?thesis by (simp add: PbCli_Recv_def)
qed

end
