(* ===== verification/RedisCli.thy ===== *)
theory RedisCli
  imports RedisFormat PinkCli
begin

text \<open>
  The redis client, the first part of \<^verbatim>\<open>src/redis_cli.cc\<close>: sending a serialised command and reading one
  reply.

  The received and not yet consumed bytes, from \<^verbatim>\<open>rbuf_pos_\<close> for \<^verbatim>\<open>rbuf_offset_\<close> bytes, are the \<open>window\<close>.
  A step that would use bytes of the buffer that were not received, or build a string of negative
  length, ends the model with \<open>Inl\<close>.  Of \<^verbatim>\<open>readLongLong\<close> only values of a \<^verbatim>\<open>long long\<close> are considered.

  The lemmas show that a reply that has arrived is read back, with the bytes after it left for the
  next reply, and that a reply cut in the middle is misread.
\<close>

datatype cli_abort = UnreceivedBytes | NegativeLength

record redis_cli =
  rcl_argv :: "bytes list"
  rcl_window :: bytes
  rcl_rbuf_pos :: int
  rcl_elements :: int

definition RedisCli_new :: redis_cli where
  "RedisCli_new = \<lparr>rcl_argv = [], rcl_window = [], rcl_rbuf_pos = 0, rcl_elements = 0\<rparr>"

section \<open>Sending\<close>

text \<open>
  \<^verbatim>\<open>write\<close> answering 0 is treated as an error too, with whatever \<^verbatim>\<open>errno\<close> holds: \<open>stale\<close>.
\<close>

function RedisCli_Send :: "errno \<Rightarrow> bytes \<Rightarrow> write_answer list \<Rightarrow> Status \<times> bytes \<times> write_answer list" where
  "RedisCli_Send stale buf as =
     (if buf = [] then (SOK, [], as)
      else case sys_write buf as of
        (Nwritten (Suc k), as') \<Rightarrow>
          (case RedisCli_Send stale (drop (Suc k) buf) as' of (s, out, as'') \<Rightarrow> (s, take (Suc k) buf @ out, as''))
      | (w, as') \<Rightarrow>
          let e = (case w of Werror e \<Rightarrow> e | _ \<Rightarrow> stale) in
          if e = EINTR then RedisCli_Send stale buf as'
          else if e = EAGAIN then (STimeout, [], as')
          else (SIOError, [], as'))"
  by pat_completeness auto
termination
  by (relation "measure (\<lambda>(stale, buf, as). length as)")
     (auto dest!: sys_write_consumes [OF sym] split: write_result.splits)

section \<open>Reading\<close>

definition rbuf_size :: int where "rbuf_size = REDIS_IOBUF_LEN"

text \<open>\<^verbatim>\<open>BufferRead\<close>: the number of bytes read, or an error.\<close>

function BufferRead :: "redis_cli \<Rightarrow> read_answer list \<Rightarrow> int \<times> redis_cli \<times> read_answer list" where
  "BufferRead c as =
     (case sys_read (nat (rbuf_size - int (length (rcl_window c)))) as of
        (Rerror e, as') \<Rightarrow>
          if e = EINTR then BufferRead (c\<lparr>rcl_rbuf_pos := 0\<rparr>) as'
          else if e = EAGAIN then (REDIS_ETIMEOUT, c\<lparr>rcl_rbuf_pos := 0\<rparr>, as')
          else (REDIS_EREAD, c\<lparr>rcl_rbuf_pos := 0\<rparr>, as')
      | (Nread s, as') \<Rightarrow>
          if s = [] then (REDIS_EREAD_NULL, c\<lparr>rcl_rbuf_pos := 0\<rparr>, as')
          else (int (length s), c\<lparr>rcl_rbuf_pos := 0, rcl_window := rcl_window c @ s\<rparr>, as'))"
  by pat_completeness auto
termination
  by (relation "measure (\<lambda>(c, as). script_size as)") (auto dest!: sys_read_consumes [OF sym])

declare RedisCli_Send.simps [simp del] BufferRead.simps [simp del]

lemma RedisCli_Send_all: "RedisCli_Send stale buf as = (SOK, out, as') \<Longrightarrow> out = buf"
proof (induction "length as" arbitrary: buf as out as' rule: less_induct)
  case less
  show ?case
  proof (cases "buf = []")
    case True
    with less.prems show ?thesis by (simp add: RedisCli_Send.simps)
  next
    case ne: False
    obtain w as1 where w: "sys_write buf as = (w, as1)" by fastforce
    note step = RedisCli_Send.simps [of stale buf as] Let_def
    show ?thesis
    proof (cases "\<exists>k. w = Nwritten (Suc k)")
      case True
      then obtain k where k: "w = Nwritten (Suc k)" by blast
      obtain s1 o1 a1 where rec: "RedisCli_Send stale (drop (Suc k) buf) as1 = (s1, o1, a1)" by (cases "RedisCli_Send stale (drop (Suc k) buf) as1")
      with less.prems ne w k have "s1 = SOK" "out = take (Suc k) buf @ o1" by (auto simp: step)
      with less.hyps [OF sys_write_consumes [OF w]] rec k show ?thesis by fastforce
    next
      case False
      then have other: "w = Nwritten 0 \<or> (\<exists>e. w = Werror e)" by (metis nat.exhaust write_result.exhaust)
      with less.prems ne w have "RedisCli_Send stale buf as1 = (SOK, out, as')" "w \<noteq> Werror EAGAIN" by (auto simp: step split: if_splits)
      with less.hyps [OF sys_write_consumes [OF w]] show ?thesis by blast
    qed
  qed
qed

text \<open>The offset of the first CR LF in the first bytes of the buffer.\<close>

fun seekNewline :: "bytes \<Rightarrow> nat option" where
  "seekNewline (c # d # r) = (if c = CR \<and> d = LF then Some 0 else map_option Suc (seekNewline (d # r)))"
| "seekNewline _ = None"

text \<open>The digits up to the first CR; \<open>None\<close> runs out of the received bytes.\<close>

fun read_digits :: "int \<Rightarrow> int \<Rightarrow> bytes \<Rightarrow> int option" where
  "read_digits mult v [] = None"
| "read_digits mult v (c # r) =
     (if c = CR then Some (mult * v)
      else if c_isdigit c then read_digits mult (v * 10 + (of_char c - 48)) r
      else Some (-1))"

definition readLongLong :: "bytes \<Rightarrow> int option" where
  "readLongLong s =
     (case s of
        [] \<Rightarrow> None
      | c # r \<Rightarrow>
          if c = CHR ''-'' then read_digits (-1) 0 r
          else if c = CHR ''+'' then read_digits 1 0 r
          else read_digits 1 0 s)"

definition ReadBytes :: "nat \<Rightarrow> redis_cli \<Rightarrow> (bytes \<times> redis_cli) option" where
  "ReadBytes n c =
     (if n \<le> length (rcl_window c)
      then Some (take n (rcl_window c), c\<lparr>rcl_window := drop n (rcl_window c), rcl_rbuf_pos := rcl_rbuf_pos c + int n\<rparr>)
      else None)"

text \<open>\<^verbatim>\<open>ReadLine\<close>: the line and, as \<^verbatim>\<open>p\<close> points into the buffer, the bytes from its start.\<close>

definition ReadLine :: "redis_cli \<Rightarrow> (bytes \<times> bytes \<times> redis_cli) option" where
  "ReadLine c =
     (case seekNewline (rcl_window c) of
        None \<Rightarrow> None
      | Some len \<Rightarrow> Some (take len (rcl_window c), rcl_window c,
          c\<lparr>rcl_window := drop (len + 2) (rcl_window c), rcl_rbuf_pos := rcl_rbuf_pos c + int len + 2\<rparr>))"

definition ProcessLineItem :: "redis_cli \<Rightarrow> int \<times> redis_cli" where
  "ProcessLineItem c =
     (case ReadLine c of
        None \<Rightarrow> (REDIS_HALF, c)
      | Some (line, _, c') \<Rightarrow>
          (REDIS_OK, c'\<lparr>rcl_argv := rcl_argv c' @ [line], rcl_elements := rcl_elements c' - 1\<rparr>))"

definition ProcessBulkItem :: "redis_cli \<Rightarrow> cli_abort + int \<times> redis_cli" where
  "ProcessBulkItem c =
     (case seekNewline (rcl_window c) of
        None \<Rightarrow> Inr (REDIS_HALF, c)
      | Some i \<Rightarrow>
          (case readLongLong (rcl_window c) of
             None \<Rightarrow> Inl UnreceivedBytes
           | Some v \<Rightarrow>
               let bytelen = i + 2; len = to_int32 v in
               if len = -1 then
                 Inr (REDIS_OK, c\<lparr>rcl_elements := rcl_elements c - 1, rcl_rbuf_pos := rcl_rbuf_pos c + int bytelen,
                        rcl_window := drop bytelen (rcl_window c)\<rparr>)
               else if len + 2 \<le> int (length (rcl_window c)) then
                 if len < 0 then Inl NegativeLength
                 else if length (rcl_window c) < bytelen + nat len + 2 then Inl UnreceivedBytes
                 else Inr (REDIS_OK, c\<lparr>
                   rcl_argv := rcl_argv c @ [take (nat len) (drop bytelen (rcl_window c))],
                   rcl_elements := rcl_elements c - 1,
                   rcl_rbuf_pos := rcl_rbuf_pos c + int (bytelen + nat len + 2),
                   rcl_window := drop (bytelen + nat len + 2) (rcl_window c)\<rparr>)
               else Inr (REDIS_HALF, c)))"

definition ProcessMultiBulkItem :: "redis_cli \<Rightarrow> cli_abort + int \<times> redis_cli" where
  "ProcessMultiBulkItem c =
     (case ReadLine c of
        None \<Rightarrow> Inr (REDIS_HALF, c)
      | Some (_, p, c') \<Rightarrow>
          (case readLongLong p of
             None \<Rightarrow> Inl UnreceivedBytes
           | Some v \<Rightarrow> Inr (REDIS_OK, c'\<lparr>rcl_elements := to_int32 v\<rparr>)))"

definition GetReplyFromReader :: "redis_cli \<Rightarrow> cli_abort + int \<times> redis_cli" where
  "GetReplyFromReader c =
     (if rcl_window c = [] then Inr (REDIS_HALF, c)
      else case ReadBytes 1 c of
        None \<Rightarrow> Inr (REDIS_HALF, c)
      | Some (p, c') \<Rightarrow>
          if hd p = CHR ''-'' \<or> hd p = CHR ''+'' \<or> hd p = CHR '':'' then Inr (ProcessLineItem c')
          else if hd p = CHR ''$'' then ProcessBulkItem c'
          else if hd p = CHR ''*'' then ProcessMultiBulkItem c'
          else Inr (REDIS_EPARSE_TYPE, c'))"

lemma window_ReadLine: "ReadLine c = Some (l, p, c') \<Longrightarrow> length (rcl_window c') \<le> length (rcl_window c)"
  by (auto simp: ReadLine_def split: option.splits)

lemma GetReplyFromReader_consumes:
  "GetReplyFromReader c = Inr (r, c') \<Longrightarrow> rcl_window c \<noteq> [] \<Longrightarrow> length (rcl_window c') < length (rcl_window c)"
  by (cases "rcl_window c")
     (auto simp: GetReplyFromReader_def ReadBytes_def ProcessLineItem_def ProcessBulkItem_def ProcessMultiBulkItem_def Let_def
       less_Suc_eq_le split: if_splits option.splits dest!: window_ReadLine)

lemma BufferRead_consumes: "BufferRead c as = (r, c', as') \<Longrightarrow> 0 \<le> r \<Longrightarrow> script_size as' < script_size as"
proof (induction c as arbitrary: r c' as' rule: BufferRead.induct)
  case (1 c as)
  obtain rd as1 where rd: "sys_read (nat (rbuf_size - int (length (rcl_window c)))) as = (rd, as1)"
    by (cases "sys_read (nat (rbuf_size - int (length (rcl_window c)))) as")
  show ?case
  proof (cases rd)
    case (Nread s)
    with "1.prems" rd sys_read_consumes [OF rd] show ?thesis
      by (auto simp: BufferRead.simps [of c as] redis_status_defs split: if_splits)
  next
    case (Rerror e)
    with "1.prems" rd "1.IH" [OF rd [symmetric] Rerror] sys_read_size [OF rd] show ?thesis
      by (fastforce simp: BufferRead.simps [of c as] redis_status_defs split: if_splits)
  qed
qed

text \<open>
  The loop of \<^verbatim>\<open>GetReply\<close>.
\<close>

function reply_loop :: "int \<Rightarrow> redis_cli \<Rightarrow> read_answer list \<Rightarrow> cli_abort + int \<times> redis_cli \<times> read_answer list" where
  "reply_loop result c as =
     (if 0 < rcl_elements c then
        if rcl_window c = [] \<or> result = REDIS_HALF then
          (case BufferRead c as of
             (r1, c1, as1) \<Rightarrow>
               if r1 < 0 then Inr (r1, c1, as1)
               else (case GetReplyFromReader c1 of
                   Inl e \<Rightarrow> Inl e
                 | Inr (r2, c2) \<Rightarrow> if r2 < REDIS_OK then Inr (r2, c2, as1) else reply_loop r2 c2 as1))
        else
          (case GetReplyFromReader c of
             Inl e \<Rightarrow> Inl e
           | Inr (r2, c2) \<Rightarrow> if r2 < REDIS_OK then Inr (r2, c2, as) else reply_loop r2 c2 as)
      else Inr (result, c, as))"
  by pat_completeness auto
termination
  by (relation "measures [\<lambda>(result, c, as). script_size as, \<lambda>(result, c, as). length (rcl_window c)]")
     (auto dest!: GetReplyFromReader_consumes BufferRead_consumes [OF sym])

declare reply_loop.simps [simp del]

definition GetReply :: "redis_cli \<Rightarrow> read_answer list \<Rightarrow> cli_abort + int \<times> redis_cli \<times> read_answer list" where
  "GetReply c as = reply_loop REDIS_OK (c\<lparr>rcl_elements := 1\<rparr>) as"

text \<open>\<^verbatim>\<open>Recv\<close>: the status and, on success, the arguments of the reply.\<close>

definition RedisCli_Recv ::
  "redis_cli \<Rightarrow> read_answer list \<Rightarrow> cli_abort + Status \<times> bytes list option \<times> redis_cli \<times> read_answer list" where
  "RedisCli_Recv c as =
     (case GetReply (c\<lparr>rcl_argv := []\<rparr>) as of
        Inl e \<Rightarrow> Inl e
      | Inr (result, c', as') \<Rightarrow>
          Inr (if result = REDIS_OK then SOK else if result = REDIS_ETIMEOUT then STimeout else SIOError,
               if result = REDIS_OK then Some (rcl_argv c') else None, c', as'))"

section \<open>Replies that have arrived\<close>

text \<open>Replies as the protocol encodes them; an array holds no arrays.\<close>

datatype item = LineItem char bytes | BulkItem bytes | NilItem

fun item_bytes :: "item \<Rightarrow> bytes" where
  "item_bytes (LineItem t s) = t # s @ CRLF"
| "item_bytes (BulkItem s) = CHR ''$'' # to_string (length s) @ CRLF @ s @ CRLF"
| "item_bytes NilItem = ''$-1'' @ CRLF"

fun item_value :: "item \<Rightarrow> bytes list" where
  "item_value (LineItem t s) = [s]" | "item_value (BulkItem s) = [s]" | "item_value NilItem = []"

fun item_valid :: "item \<Rightarrow> bool" where
  "item_valid (LineItem t s) \<longleftrightarrow> t \<in> {CHR ''+'', CHR ''-'', CHR '':''} \<and> CR \<notin> set s"
| "item_valid (BulkItem s) \<longleftrightarrow> length s < 2 ^ 31 - 2"
| "item_valid NilItem \<longleftrightarrow> True"

datatype reply = Single item | Multi "item list"

fun reply_bytes :: "reply \<Rightarrow> bytes" where
  "reply_bytes (Single i) = item_bytes i"
| "reply_bytes (Multi is) = CHR ''*'' # to_string (length is) @ CRLF @ concat (map item_bytes is)"

fun reply_value :: "reply \<Rightarrow> bytes list" where
  "reply_value (Single i) = item_value i" | "reply_value (Multi is) = concat (map item_value is)"

fun reply_valid :: "reply \<Rightarrow> bool" where
  "reply_valid (Single i) \<longleftrightarrow> item_valid i" | "reply_valid (Multi is) \<longleftrightarrow> (\<forall>i \<in> set is. item_valid i) \<and> length is < 2 ^ 31"

lemma seekNewline_line: "CR \<notin> set s \<Longrightarrow> seekNewline (s @ CR # LF # t) = Some (length s)"
proof (induction s)
  case (Cons c s)
  then show ?case by (cases s) auto
qed simp

lemma read_digits_line: "\<forall>c \<in> set s. c_isdigit c \<Longrightarrow>
    read_digits m v (s @ CR # t) = Some (m * foldl (\<lambda>v c. 10 * v + (of_char c - 48)) v s)"
  by (induction s arbitrary: v) (auto simp: c_isdigit_def mult.commute)

lemma readLongLong_number: "readLongLong (to_string n @ CR # t) = Some (int n)"
proof -
  obtain c s where cs: "to_string n = c # s" using to_string_nonempty [of n] by (cases "to_string n") auto
  then have "c_isdigit c" using to_string_digits [of n] by simp
  then have "c \<noteq> CHR ''-''" "c \<noteq> CHR ''+''" by (auto simp: c_isdigit_def)
  with cs have "readLongLong (to_string n @ CR # t) = read_digits 1 0 (to_string n @ CR # t)"
    by (simp add: readLongLong_def)
  also have "\<dots> = Some (int n)"
    using read_digits_line [OF to_string_digits, of 1 0 n t] dec_val_to_string [of n] by (simp add: dec_val_def)
  finally show ?thesis .
qed

lemma seekNewline_number: "seekNewline (to_string n @ CR # LF # t) = Some (length (to_string n))"
  using seekNewline_line [of "to_string n" t] to_string_no_CR [of n] by blast

lemma GetReplyFromReader_item:
  assumes "item_valid i" "rcl_window c = item_bytes i @ t"
  shows "\<exists>pos. GetReplyFromReader c = Inr (REDIS_OK, c\<lparr>rcl_window := t, rcl_rbuf_pos := pos,
     rcl_argv := rcl_argv c @ item_value i, rcl_elements := rcl_elements c - 1\<rparr>)"
proof (cases i)
  case (LineItem ty s)
  with assms show ?thesis
    by (auto simp: GetReplyFromReader_def ReadBytes_def ProcessLineItem_def ReadLine_def seekNewline_line)
next
  case (BulkItem s)
  let ?w = "to_string (length s) @ CR # LF # s @ CR # LF # t"
  have w: "rcl_window c = CHR ''$'' # ?w" using assms(2) BulkItem by simp
  have len: "to_int32 (int (length s)) = int (length s)" using assms(1) BulkItem by (simp add: to_int32_id)
  have "ProcessBulkItem (c\<lparr>rcl_window := ?w, rcl_rbuf_pos := p\<rparr>) =
      Inr (REDIS_OK, c\<lparr>rcl_window := t, rcl_rbuf_pos := p + int (length (to_string (length s)) + 2 + length s + 2),
        rcl_argv := rcl_argv c @ [s], rcl_elements := rcl_elements c - 1\<rparr>)" for p
    by (cases c) (simp add: ProcessBulkItem_def seekNewline_number readLongLong_number len Let_def numeral_eq_Suc)
  then show ?thesis using w BulkItem by (auto simp: GetReplyFromReader_def ReadBytes_def)
next
  case NilItem
  with assms(2) show ?thesis
    by (cases c) (simp add: GetReplyFromReader_def ReadBytes_def ProcessBulkItem_def readLongLong_def c_isdigit_def
        to_int32_def Let_def)
qed

lemma item_bytes_nonempty [simp]: "item_bytes i \<noteq> []"
  by (cases i) auto

lemma reply_loop_items:
  "\<forall>i \<in> set is. item_valid i \<Longrightarrow> rcl_window c = concat (map item_bytes is) @ t \<Longrightarrow> rcl_elements c = int (length is) \<Longrightarrow>
   \<exists>c'. reply_loop REDIS_OK c as = Inr (REDIS_OK, c', as) \<and> rcl_argv c' = rcl_argv c @ concat (map item_value is) \<and> rcl_window c' = t"
proof (induction "is" arbitrary: c)
  case Nil
  then show ?case by (simp add: reply_loop.simps)
next
  case (Cons i "is")
  from GetReplyFromReader_item [of i c "concat (map item_bytes is) @ t"] Cons.prems
  obtain pos where "GetReplyFromReader c = Inr (REDIS_OK, c\<lparr>rcl_window := concat (map item_bytes is) @ t, rcl_rbuf_pos := pos,
     rcl_argv := rcl_argv c @ item_value i, rcl_elements := rcl_elements c - 1\<rparr>)" (is "_ = Inr (_, ?c)") by auto
  moreover have "rcl_window c \<noteq> []" using Cons.prems(2) by simp
  ultimately have "reply_loop REDIS_OK c as = reply_loop REDIS_OK ?c as"
    using Cons.prems(3) by (subst reply_loop.simps) (simp add: redis_status_defs)
  with Cons.IH [of ?c] Cons.prems show ?case by auto
qed

text \<open>A whole reply in the window, before the loop has looked at it.\<close>

lemma reply_loop_reply:
  assumes "reply_valid r" "rcl_window c = reply_bytes r @ t" "rcl_elements c = 1"
  shows "\<exists>c'. reply_loop REDIS_OK c as = Inr (REDIS_OK, c', as) \<and> rcl_argv c' = rcl_argv c @ reply_value r \<and> rcl_window c' = t"
proof (cases r)
  case (Single i)
  with assms reply_loop_items [of "[i]" c t as] show ?thesis by simp
next
  case (Multi "is")
  let ?w = "to_string (length is) @ CR # LF # concat (map item_bytes is) @ t"
  have w: "rcl_window c = CHR ''*'' # ?w" using assms(2) Multi by simp
  have len: "to_int32 (int (length is)) = int (length is)" using assms(1) Multi by (simp add: to_int32_id)
  obtain pos where "GetReplyFromReader c = Inr (REDIS_OK, c\<lparr>rcl_window := concat (map item_bytes is) @ t, rcl_rbuf_pos := pos,
      rcl_elements := int (length is)\<rparr>)" (is "_ = Inr (_, ?c)")
    using w len by (auto simp: GetReplyFromReader_def ReadBytes_def ProcessMultiBulkItem_def ReadLine_def seekNewline_number
        readLongLong_number)
  then have "reply_loop REDIS_OK c as = reply_loop REDIS_OK ?c as"
    using assms(3) w by (subst reply_loop.simps) (simp add: redis_status_defs)
  with reply_loop_items [of "is" ?c t as] assms(1) Multi show ?thesis by auto
qed

lemma RedisCli_Recv_reply:
  assumes "reply_valid r" "int (length (reply_bytes r @ t)) \<le> REDIS_IOBUF_LEN" "rcl_window c = []"
  shows "\<exists>c'. RedisCli_Recv c (Bytes (reply_bytes r @ t) # as) = Inr (SOK, Some (reply_value r), c', as) \<and> rcl_window c' = t"
proof -
  let ?s = "reply_bytes r @ t"
  let ?c = "c\<lparr>rcl_argv := [], rcl_elements := 1, rcl_rbuf_pos := 0, rcl_window := ?s\<rparr>"
  have ne: "reply_bytes r \<noteq> []" by (cases r) auto
  have "BufferRead (c\<lparr>rcl_argv := [], rcl_elements := 1\<rparr>) (Bytes ?s # as) = (int (length ?s), ?c, as)"
    using ne assms(2,3) by (subst BufferRead.simps) (auto simp: rbuf_size_def nat_le_iff)
  moreover obtain c' where c': "reply_loop REDIS_OK ?c as = Inr (REDIS_OK, c', as)" "rcl_argv c' = reply_value r" "rcl_window c' = t"
    using reply_loop_reply [OF assms(1), of ?c t as] by auto
  then have "(case GetReplyFromReader ?c of Inl e \<Rightarrow> Inl e
       | Inr (r2, c2) \<Rightarrow> if r2 < REDIS_OK then Inr (r2, c2, as) else reply_loop r2 c2 as) = Inr (REDIS_OK, c', as)"
    using ne by (subst (asm) reply_loop.simps) (simp add: redis_status_defs)
  ultimately have "reply_loop REDIS_OK (c\<lparr>rcl_argv := [], rcl_elements := 1\<rparr>) (Bytes ?s # as) = Inr (REDIS_OK, c', as)"
    using assms(3) by (subst reply_loop.simps) simp
  with c' show ?thesis by (simp add: RedisCli_Recv_def GetReply_def)
qed

text \<open>
  The type byte is consumed before the rest of the item is known to be there, so a reply cut inside
  an item is misread: the next byte is taken for a type.
\<close>

lemma split_reply_misread:
  "map_sum id fst (RedisCli_Recv RedisCli_new [Bytes ''+O'', Bytes (''K'' @ CRLF)]) = Inr SIOError"
  by code_simp

text \<open>A bulk whose length line has arrived but whose bytes have not is taken from bytes not received.\<close>

lemma short_bulk_overread:
  "RedisCli_Recv RedisCli_new [Bytes (''$3'' @ CRLF @ ''ab'')] = Inl UnreceivedBytes"
  by code_simp

text \<open>
  The header of an inner array replaces the count of elements that are still to come: the reply ends with the inner array,
  and what follows is left in the buffer as if it were the next reply.  A null bulk leaves no trace in its array.
\<close>

lemma nested_array_cut:
  "map_sum id (\<lambda>(s, v, c, as). (s, v, rcl_window c)) (RedisCli_Recv RedisCli_new
     [Bytes (''*2'' @ CRLF @ ''*1'' @ CRLF @ '':1'' @ CRLF @ '':2'' @ CRLF)]) = Inr (SOK, Some [''1''], '':2'' @ CRLF)"
  by code_simp

lemma null_bulk_lost:
  "map_sum id (\<lambda>(s, v, c, as). (s, v)) (RedisCli_Recv RedisCli_new
     [Bytes (''*2'' @ CRLF @ ''$-1'' @ CRLF @ ''$1'' @ CRLF @ ''b'' @ CRLF)]) = Inr (SOK, Some [''b''])"
  by code_simp

end
