(* ===== verification/Metrics.thy ===== *)
theory Metrics
  imports Pink_Prelude
begin

text \<open>
  The histograms of command times of \<^verbatim>\<open>src/pika_run_cmd_histogram.cc\<close> and \<^verbatim>\<open>include/pika_cmd_time_histogram.h\<close>, to which a worker
  adds the times of a connection's commands when their replies are sent.

  \<^verbatim>\<open>rocksdb::HistogramStat\<close> and \<^verbatim>\<open>HistogramBucketMapper\<close> belong to a library outside the repository: \<open>hist_lib\<close> is what the code uses
  of them, and \<open>hist_ok\<close> what it relies on.  \<^verbatim>\<open>terark::profiling::us\<close>, the difference of two times, is the parameter \<open>us\<close>.  The report
  is a list of its lines; their text is put together by \<^verbatim>\<open>terark::string_appender\<close>.

  The lemmas show that a report counts every command once, however the commands were spread over the calls.
\<close>

section \<open>Types\<close>

record 'h hist_lib =
  hl_new :: "'h"
  hl_Add :: "64 word \<Rightarrow> 'h \<Rightarrow> 'h"
  hl_buckets :: "'h \<Rightarrow> 64 word list"
  hl_sum :: "'h \<Rightarrow> 64 word"
  hl_BucketCount :: nat
  hl_BucketLimit :: "nat \<Rightarrow> 64 word"

text \<open>A new histogram is empty, and adding a value adds one to one of its buckets.\<close>

definition hist_ok :: "'h hist_lib \<Rightarrow> bool" where
  "hist_ok lib \<longleftrightarrow> 0 < hl_BucketCount lib \<and> hl_buckets lib (hl_new lib) = replicate (hl_BucketCount lib) 0 \<and>
     (\<forall>v h. length (hl_buckets lib h) = hl_BucketCount lib \<longrightarrow>
        (\<exists>i < hl_BucketCount lib. hl_buckets lib (hl_Add lib v h) = (hl_buckets lib h)[i := hl_buckets lib h ! i + 1]))"

datatype CmdProcessStep = ParseStep | ScheduleStep | ProcessStep | ResponseStep | AllStep

definition StepMax :: nat where "StepMax = 5"
definition HistogramNum :: nat where "HistogramNum = 151"

primrec step_index :: "CmdProcessStep \<Rightarrow> nat" where
  "step_index ParseStep = 0"
| "step_index ScheduleStep = 1"
| "step_index ProcessStep = 2"
| "step_index ResponseStep = 3"
| "step_index AllStep = 4"

text \<open>The steps in the order of their values, as the loops from 0 to \<^verbatim>\<open>StepMax\<close> visit them.\<close>

instantiation CmdProcessStep :: enum
begin

definition enum_CmdProcessStep :: "CmdProcessStep list" where
  "enum_CmdProcessStep = [ParseStep, ScheduleStep, ProcessStep, ResponseStep, AllStep]"

definition enum_all_CmdProcessStep :: "(CmdProcessStep \<Rightarrow> bool) \<Rightarrow> bool" where
  "enum_all_CmdProcessStep P \<longleftrightarrow> list_all P [ParseStep, ScheduleStep, ProcessStep, ResponseStep, AllStep]"

definition enum_ex_CmdProcessStep :: "(CmdProcessStep \<Rightarrow> bool) \<Rightarrow> bool" where
  "enum_ex_CmdProcessStep P \<longleftrightarrow> list_ex P [ParseStep, ScheduleStep, ProcessStep, ResponseStep, AllStep]"

instance
proof
  have mem: "st \<in> {ParseStep, ScheduleStep, ProcessStep, ResponseStep, AllStep}" for st by (cases st) simp_all
  then show "(UNIV :: CmdProcessStep set) = set Enum.enum" by (auto simp: enum_CmdProcessStep_def)
  show "distinct (Enum.enum :: CmdProcessStep list)" by (simp add: enum_CmdProcessStep_def)
  show "Enum.enum_all P \<longleftrightarrow> Ball UNIV P" for P :: "CmdProcessStep \<Rightarrow> bool"
    unfolding enum_all_CmdProcessStep_def Ball_def using mem by (auto simp: list_all_iff) (metis CmdProcessStep.exhaust)
  show "Enum.enum_ex P \<longleftrightarrow> Bex UNIV P" for P :: "CmdProcessStep \<Rightarrow> bool"
    unfolding enum_ex_CmdProcessStep_def Bex_def using mem by (auto simp: list_ex_iff) (metis CmdProcessStep.exhaust)
qed

end

lemma steps_in_order: "map step_index Enum.enum = [0..<StepMax]"
  by (simp add: enum_CmdProcessStep_def StepMax_def upt_rec)

record CmdProcessTime =
  cp_cmd_idx :: nat
  cp_start_time :: "64 word"
  cp_end_time :: "64 word"

record CmdTimeInfo =
  ti_read_start_time :: "64 word"
  ti_parse_end_time :: "64 word"
  ti_schedule_end_time :: "64 word"
  ti_response_end_time :: "64 word"
  ti_cmd_process_times :: "CmdProcessTime list"

section \<open>Operations\<close>

type_synonym 'h hist_table = "'h list list"

definition PikaCmdRunTimeHistogram_new :: "'h hist_lib \<Rightarrow> 'h hist_table" where
  "PikaCmdRunTimeHistogram_new lib = replicate HistogramNum (replicate StepMax (hl_new lib))"

text \<open>\<open>None\<close> is the failed check of the command index, which ends the program.\<close>

definition AddTimeMetric_step :: "'h hist_lib \<Rightarrow> nat \<Rightarrow> 64 word \<Rightarrow> CmdProcessStep \<Rightarrow> 'h hist_table \<Rightarrow> 'h hist_table option" where
  "AddTimeMetric_step lib cmd_idx v st t =
     (if \<not> cmd_idx < HistogramNum then None
      else Some (t[cmd_idx := (t ! cmd_idx)[step_index st := hl_Add lib v (t ! cmd_idx ! step_index st)]]))"

fun add_steps :: "'h hist_lib \<Rightarrow> nat \<Rightarrow> (CmdProcessStep \<times> 64 word) list \<Rightarrow> 'h hist_table \<Rightarrow> 'h hist_table option" where
  "add_steps lib i [] t = Some t"
| "add_steps lib i ((st, v) # vs) t = Option.bind (AddTimeMetric_step lib i v st t) (add_steps lib i vs)"

definition step_times :: "(64 word \<Rightarrow> 64 word \<Rightarrow> 64 word) \<Rightarrow> CmdTimeInfo \<Rightarrow> CmdProcessTime \<Rightarrow> (CmdProcessStep \<times> 64 word) list" where
  "step_times us info c =
     [(ParseStep, us (ti_read_start_time info) (ti_parse_end_time info)),
      (ScheduleStep, us (ti_parse_end_time info) (ti_schedule_end_time info)),
      (ProcessStep, us (cp_start_time c) (cp_end_time c)),
      (ResponseStep, us (cp_end_time c) (ti_response_end_time info)),
      (AllStep, us (ti_read_start_time info) (ti_response_end_time info))]"

fun add_cmds :: "'h hist_lib \<Rightarrow> (64 word \<Rightarrow> 64 word \<Rightarrow> 64 word) \<Rightarrow> CmdTimeInfo \<Rightarrow> CmdProcessTime list \<Rightarrow> 'h hist_table \<Rightarrow> 'h hist_table option" where
  "add_cmds lib us info [] t = Some t"
| "add_cmds lib us info (c # cs) t = Option.bind (add_steps lib (cp_cmd_idx c) (step_times us info c) t) (add_cmds lib us info cs)"

definition AddTimeMetric :: "'h hist_lib \<Rightarrow> (64 word \<Rightarrow> 64 word \<Rightarrow> 64 word) \<Rightarrow> CmdTimeInfo \<Rightarrow> 'h hist_table \<Rightarrow> (CmdTimeInfo \<times> 'h hist_table) option" where
  "AddTimeMetric lib us info t =
     map_option (Pair (info\<lparr>ti_cmd_process_times := []\<rparr>)) (add_cmds lib us info (ti_cmd_process_times info) t)"

text \<open>The lines of a report.\<close>

datatype bucket_limit = Le "64 word" | LeInf

datatype metric =
    MetricBucket bytes CmdProcessStep bucket_limit "64 word"
  | MetricCount bytes CmdProcessStep "64 word"
  | MetricSum bytes CmdProcessStep "64 word"
  | MetricMaxBucket bytes CmdProcessStep "64 word"

primrec find_limit :: "64 word list \<Rightarrow> nat \<Rightarrow> nat" where
  "find_limit b 0 = 0"
| "find_limit b (Suc i) = (if 0 < b ! i then i else find_limit b i)"

text \<open>The lines from bucket \<open>i\<close> on, for \<open>n\<close> buckets, and the total in the end.\<close>

primrec bucket_lines :: "'h hist_lib \<Rightarrow> bytes \<Rightarrow> CmdProcessStep \<Rightarrow> 64 word list \<Rightarrow> nat \<Rightarrow> nat \<Rightarrow> 64 word \<Rightarrow> metric list \<times> 64 word" where
  "bucket_lines lib name st b 0 i acc = ([], acc)"
| "bucket_lines lib name st b (Suc n) i acc =
     (let acc = acc + b ! i; (ls, total) = bucket_lines lib name st b n (Suc i) acc
      in (MetricBucket name st (Le (hl_BucketLimit lib i)) acc # ls, total))"

definition metric_lines :: "'h hist_lib \<Rightarrow> bytes \<Rightarrow> CmdProcessStep \<Rightarrow> 'h \<Rightarrow> metric list" where
  "metric_lines lib name st h =
     (let b = hl_buckets lib h; limit = find_limit b (hl_BucketCount lib); (ls, total) = bucket_lines lib name st b (Suc limit) 0 0
      in ls @ [MetricBucket name st LeInf total, MetricCount name st total, MetricSum name st (hl_sum lib h),
               MetricMaxBucket name st (hl_BucketLimit lib limit)])"

text \<open>\<open>None\<close> is a call of \<^verbatim>\<open>m_get_name\<close> while it is still a null pointer.\<close>

definition GetTimeMetric :: "'h hist_lib \<Rightarrow> (nat \<Rightarrow> bytes) option \<Rightarrow> 'h hist_table \<Rightarrow> metric list option" where
  "GetTimeMetric lib get_name t =
     map_option (\<lambda>get_name. concat (map (\<lambda>st. concat (map (\<lambda>i. metric_lines lib (get_name i) st (t ! i ! step_index st)) [0..<HistogramNum]))
       Enum.enum)) get_name"

section \<open>What a histogram holds\<close>

lemma find_limit_zero: "i < n \<Longrightarrow> find_limit b n < i \<Longrightarrow> b ! i = 0"
proof (induction n)
  case (Suc n)
  show ?case
  proof (cases "0 < b ! n")
    case True
    with Suc.prems show ?thesis by simp
  next
    case False
    with Suc show ?thesis by (cases "i = n") (auto simp: word_gt_0)
  qed
qed simp

lemma find_limit_less: "0 < n \<Longrightarrow> find_limit b n < n"
proof (induction n)
  case (Suc n)
  then show ?case by (cases "n = 0") (auto simp: less_Suc_eq)
qed simp

lemma bucket_lines_sums:
  "i + n \<le> length b \<Longrightarrow> bucket_lines lib name st b n i acc =
     (map (\<lambda>k. MetricBucket name st (Le (hl_BucketLimit lib (i + k))) (acc + sum_list (take (Suc k) (drop i b)))) [0..<n],
      acc + sum_list (take n (drop i b)))"
proof (induction n arbitrary: i acc)
  case (Suc n)
  then have i: "i < length b" "drop i b = b ! i # drop (Suc i) b" by (simp_all add: Cons_nth_drop_Suc)
  show ?case
    using Suc.IH [of "Suc i" "acc + b ! i"] Suc.prems
    by (simp add: i(2) map_upt_Suc add.assoc del: upt_Suc)
qed simp

lemma sum_list_zeros: "(\<And>x. x \<in> set xs \<Longrightarrow> x = 0) \<Longrightarrow> sum_list xs = (0 :: 64 word)"
  by (induction xs) auto

lemma metric_lines_sums:
  assumes "length (hl_buckets lib h) = hl_BucketCount lib" "0 < hl_BucketCount lib"
  shows "\<exists>limit < hl_BucketCount lib. metric_lines lib name st h =
    map (\<lambda>k. MetricBucket name st (Le (hl_BucketLimit lib k)) (sum_list (take (Suc k) (hl_buckets lib h)))) [0..<Suc limit] @
    [MetricBucket name st LeInf (sum_list (hl_buckets lib h)), MetricCount name st (sum_list (hl_buckets lib h)),
     MetricSum name st (hl_sum lib h), MetricMaxBucket name st (hl_BucketLimit lib limit)]"
proof -
  let ?b = "hl_buckets lib h" and ?l = "find_limit (hl_buckets lib h) (hl_BucketCount lib)"
  have l: "?l < hl_BucketCount lib" using find_limit_less [OF assms(2)] .
  have "x = 0" if "x \<in> set (drop (Suc ?l) ?b)" for x
  proof -
    from that obtain j where "j < length ?b - Suc ?l" "x = ?b ! (Suc ?l + j)" by (auto simp: in_set_conv_nth)
    with find_limit_zero [of "Suc ?l + j" "hl_BucketCount lib" ?b] assms(1) show ?thesis by simp
  qed
  then have "sum_list (drop (Suc ?l) ?b) = 0" by (rule sum_list_zeros)
  then have total: "sum_list (take (Suc ?l) ?b) = sum_list ?b"
    by (metis add.right_neutral append_take_drop_id sum_list_append)
  have "bucket_lines lib name st ?b (Suc ?l) 0 0 =
      (map (\<lambda>k. MetricBucket name st (Le (hl_BucketLimit lib k)) (sum_list (take (Suc k) ?b))) [0..<Suc ?l], sum_list ?b)"
    using bucket_lines_sums [of 0 "Suc ?l" ?b lib name st 0] l assms(1) total by (simp del: bucket_lines.simps upt_Suc)
  then show ?thesis using l by (intro exI [of _ ?l]) (simp add: metric_lines_def Let_def del: bucket_lines.simps upt_Suc)
qed

section \<open>What the table counts\<close>

definition table_shape :: "'h hist_lib \<Rightarrow> 'h hist_table \<Rightarrow> bool" where
  "table_shape lib t \<longleftrightarrow> length t = HistogramNum \<and>
     (\<forall>i < HistogramNum. length (t ! i) = StepMax \<and> (\<forall>j < StepMax. length (hl_buckets lib (t ! i ! j)) = hl_BucketCount lib))"

definition counted :: "'h hist_lib \<Rightarrow> 'h hist_table \<Rightarrow> nat \<Rightarrow> CmdProcessStep \<Rightarrow> 64 word" where
  "counted lib t i st = sum_list (hl_buckets lib (t ! i ! step_index st))"

lemma step_index_less [simp]: "step_index st < StepMax"
  by (cases st) (simp_all add: StepMax_def)

lemma step_index_inj [simp]: "step_index st = step_index st' \<longleftrightarrow> st = st'"
  by (cases st; cases st') simp_all

lemma sum_list_update1: "i < length xs \<Longrightarrow> sum_list (xs[i := xs ! i + 1]) = sum_list xs + (1 :: 64 word)"
  by (induction xs arbitrary: i) (auto split: nat.splits simp: algebra_simps)

lemma AddTimeMetric_step_counts:
  assumes "hist_ok lib" "table_shape lib t" "AddTimeMetric_step lib c v st t = Some t'"
  shows "table_shape lib t' \<and> (\<forall>i < HistogramNum. \<forall>st'. counted lib t' i st' = counted lib t i st' + (if i = c \<and> st' = st then 1 else 0))"
proof -
  have c: "c < HistogramNum" and t': "t' = t[c := (t ! c)[step_index st := hl_Add lib v (t ! c ! step_index st)]]"
    using assms(3) by (simp_all add: AddTimeMetric_step_def split: if_splits)
  have len: "length (hl_buckets lib (t ! c ! step_index st)) = hl_BucketCount lib" "length (t ! c) = StepMax" "length t = HistogramNum"
    using assms(2) c by (simp_all add: table_shape_def)
  then obtain k where k: "k < hl_BucketCount lib" "hl_buckets lib (hl_Add lib v (t ! c ! step_index st)) =
      (hl_buckets lib (t ! c ! step_index st))[k := hl_buckets lib (t ! c ! step_index st) ! k + 1]"
    using assms(1) by (auto simp: hist_ok_def)
  have entry: "t' ! i ! step_index st' =
      (if i = c \<and> st' = st then hl_Add lib v (t ! c ! step_index st) else t ! i ! step_index st')" if "i < HistogramNum" for i st'
    using that c len by (auto simp: t' nth_list_update)
  have "table_shape lib t'"
    using assms(2) c len k by (auto simp: table_shape_def t' nth_list_update)
  moreover have "counted lib t' i st' = counted lib t i st' + (if i = c \<and> st' = st then 1 else 0)" if "i < HistogramNum" for i st'
    using entry [OF that, of st'] k len(1) by (auto simp: counted_def sum_list_update1)
  ultimately show ?thesis by blast
qed

lemma add_steps_counts:
  assumes "hist_ok lib" "table_shape lib t" "add_steps lib c vs t = Some t'"
  shows "table_shape lib t' \<and>
    (\<forall>i < HistogramNum. \<forall>st. counted lib t' i st = counted lib t i st + (if i = c then of_nat (length (filter (\<lambda>p. fst p = st) vs)) else 0))"
  using assms(2,3)
proof (induction vs arbitrary: t)
  case (Cons p vs)
  obtain st v where p: "p = (st, v)" by fastforce
  with Cons.prems(2) obtain t1 where t1: "AddTimeMetric_step lib c v st t = Some t1" "add_steps lib c vs t1 = Some t'"
    by (auto simp: bind_eq_Some_conv)
  note one = AddTimeMetric_step_counts [OF assms(1) Cons.prems(1) t1(1)]
  from Cons.IH [OF _ t1(2)] one p show ?case by (auto simp: algebra_simps)
qed simp

lemma step_times_once: "length (filter (\<lambda>p. fst p = st) (step_times us info c)) = 1"
  by (cases st) (simp_all add: step_times_def)

lemma add_cmds_counts:
  assumes "hist_ok lib" "table_shape lib t" "add_cmds lib us info cs t = Some t'"
  shows "table_shape lib t' \<and>
    (\<forall>i < HistogramNum. \<forall>st. counted lib t' i st = counted lib t i st + of_nat (length (filter (\<lambda>c. cp_cmd_idx c = i) cs)))"
  using assms(2,3)
proof (induction cs arbitrary: t)
  case (Cons c cs)
  then obtain t1 where t1: "add_steps lib (cp_cmd_idx c) (step_times us info c) t = Some t1" "add_cmds lib us info cs t1 = Some t'"
    by (auto simp: bind_eq_Some_conv)
  from Cons.IH [OF _ t1(2)] add_steps_counts [OF assms(1) Cons.prems(1) t1(1)] step_times_once [of _ us info c] show ?case
    by (auto simp: algebra_simps)
qed simp

lemma table_new:
  assumes "hist_ok lib"
  shows "table_shape lib (PikaCmdRunTimeHistogram_new lib)" "i < HistogramNum \<Longrightarrow> counted lib (PikaCmdRunTimeHistogram_new lib) i st = 0"
  using assms by (auto simp: table_shape_def PikaCmdRunTimeHistogram_new_def hist_ok_def counted_def intro!: sum_list_zeros)

text \<open>The calls that workers make, one after the other.\<close>

fun add_all :: "'h hist_lib \<Rightarrow> (64 word \<Rightarrow> 64 word \<Rightarrow> 64 word) \<Rightarrow> CmdTimeInfo list \<Rightarrow> 'h hist_table \<Rightarrow> 'h hist_table option" where
  "add_all lib us [] t = Some t"
| "add_all lib us (info # infos) t = Option.bind (AddTimeMetric lib us info t) (\<lambda>(info, t). add_all lib us infos t)"

lemma add_all_counts:
  assumes "hist_ok lib" "table_shape lib t" "add_all lib us infos t = Some t'"
  shows "table_shape lib t' \<and>
    (\<forall>i < HistogramNum. \<forall>st. counted lib t' i st =
       counted lib t i st + of_nat (length (filter (\<lambda>c. cp_cmd_idx c = i) (concat (map ti_cmd_process_times infos)))))"
  using assms(2,3)
proof (induction infos arbitrary: t)
  case (Cons info infos)
  then obtain t1 where t1: "add_cmds lib us info (ti_cmd_process_times info) t = Some t1" "add_all lib us infos t1 = Some t'"
    by (auto simp: bind_eq_Some_conv AddTimeMetric_def)
  from Cons.IH [OF _ t1(2)] add_cmds_counts [OF assms(1) Cons.prems(1) t1(1)] show ?case by (auto simp: algebra_simps)
qed simp

lemma metric_lines_count:
  assumes "hist_ok lib" "add_all lib us infos (PikaCmdRunTimeHistogram_new lib) = Some t" "i < HistogramNum"
  shows "\<exists>limit < hl_BucketCount lib. metric_lines lib name st (t ! i ! step_index st) =
    map (\<lambda>k. MetricBucket name st (Le (hl_BucketLimit lib k)) (sum_list (take (Suc k) (hl_buckets lib (t ! i ! step_index st))))) [0..<Suc limit] @
    (let n = of_nat (length (filter (\<lambda>c. cp_cmd_idx c = i) (concat (map ti_cmd_process_times infos))))
     in [MetricBucket name st LeInf n, MetricCount name st n, MetricSum name st (hl_sum lib (t ! i ! step_index st)),
         MetricMaxBucket name st (hl_BucketLimit lib limit)])"
proof -
  note cnt = add_all_counts [OF assms(1) table_new(1) [OF assms(1)] assms(2)]
  have "length (hl_buckets lib (t ! i ! step_index st)) = hl_BucketCount lib"
    using cnt assms(3) by (simp add: table_shape_def)
  moreover have "sum_list (hl_buckets lib (t ! i ! step_index st)) =
      of_nat (length (filter (\<lambda>c. cp_cmd_idx c = i) (concat (map ti_cmd_process_times infos))))"
    using cnt assms(3) table_new(2) [OF assms(1,3)] by (simp add: counted_def)
  ultimately show ?thesis using metric_lines_sums [of lib "t ! i ! step_index st" name st] assms(1) by (simp add: hist_ok_def Let_def)
qed

lemma concat_map_part: "x \<in> set xs \<Longrightarrow> \<exists>a b. concat (map f xs) = a @ f x @ b"
  by (metis concat_append concat.simps(2) list.simps(9) map_append split_list)

text \<open>C27: The report counts every command once: it contains, for every command and step, the cumulated buckets up to the last one
  in use, and then, as the bucket without limit and as the count, the number of commands with this index over all calls of
  AddTimeMetric, modulo 2 to the 64.\<close>

theorem metrics_count_commands:
  assumes "hist_ok lib" "add_all lib us infos (PikaCmdRunTimeHistogram_new lib) = Some t" "i < HistogramNum"
    and "GetTimeMetric lib (Some get_name) t = Some report"
  shows "\<exists>before after limit. limit < hl_BucketCount lib \<and> report = before @
    map (\<lambda>k. MetricBucket (get_name i) st (Le (hl_BucketLimit lib k)) (sum_list (take (Suc k) (hl_buckets lib (t ! i ! step_index st))))) [0..<Suc limit] @
    (let n = of_nat (length (filter (\<lambda>c. cp_cmd_idx c = i) (concat (map ti_cmd_process_times infos))))
     in [MetricBucket (get_name i) st LeInf n, MetricCount (get_name i) st n, MetricSum (get_name i) st (hl_sum lib (t ! i ! step_index st)),
         MetricMaxBucket (get_name i) st (hl_BucketLimit lib limit)]) @ after"
proof -
  let ?lines = "\<lambda>st i. metric_lines lib (get_name i) st (t ! i ! step_index st)"
  have "report = concat (map (\<lambda>st. concat (map (?lines st) [0..<HistogramNum])) Enum.enum)"
    using assms(4) by (simp add: GetTimeMetric_def)
  moreover obtain a b where "concat (map (\<lambda>st. concat (map (?lines st) [0..<HistogramNum])) Enum.enum) =
      a @ concat (map (?lines st) [0..<HistogramNum]) @ b"
    using concat_map_part [of st Enum.enum "\<lambda>st. concat (map (?lines st) [0..<HistogramNum])"] by (auto simp: enum_UNIV)
  moreover obtain a' b' where "concat (map (?lines st) [0..<HistogramNum]) = a' @ ?lines st i @ b'"
    using concat_map_part [of i "[0..<HistogramNum]" "?lines st"] assms(3) by auto
  ultimately have "report = (a @ a') @ ?lines st i @ (b' @ b)" by simp
  with metric_lines_count [OF assms(1-3), of "get_name i" st] show ?thesis
    by (elim exE conjE) (rule exI [of _ "a @ a'"], rule exI [of _ "b' @ b"], rule exI, rule conjI, assumption, simp only: append_assoc)
qed

definition demo_hist :: "(64 word list \<times> 64 word) hist_lib" where
  "demo_hist = \<lparr>hl_new = ([0, 0], 0), hl_Add = (\<lambda>v (b, s). (if v < 10 then b[0 := b ! 0 + 1] else b[1 := b ! 1 + 1], s + v)),
     hl_buckets = fst, hl_sum = snd, hl_BucketCount = 2, hl_BucketLimit = (\<lambda>i. if i = 0 then 10 else -1)\<rparr>"

lemma demo_hist_ok: "hist_ok demo_hist"
  by (auto simp: hist_ok_def demo_hist_def numeral_2_eq_2)

theorem metrics_count_commands_witness:
  "\<exists>t report. add_all demo_hist (\<lambda>a b. b - a)
       [\<lparr>ti_read_start_time = 1, ti_parse_end_time = 2, ti_schedule_end_time = 3, ti_response_end_time = 50,
         ti_cmd_process_times = [\<lparr>cp_cmd_idx = 4, cp_start_time = 3, cp_end_time = 9\<rparr>, \<lparr>cp_cmd_idx = 4, cp_start_time = 9, cp_end_time = 30\<rparr>]\<rparr>]
       (PikaCmdRunTimeHistogram_new demo_hist) = Some t \<and>
     GetTimeMetric demo_hist (Some (\<lambda>i. ''get'')) t = Some report \<and> MetricCount ''get'' ProcessStep 2 \<in> set report"
proof -
  let ?infos = "[\<lparr>ti_read_start_time = 1, ti_parse_end_time = 2, ti_schedule_end_time = 3, ti_response_end_time = 50,
      ti_cmd_process_times = [\<lparr>cp_cmd_idx = 4, cp_start_time = 3, cp_end_time = 9\<rparr>, \<lparr>cp_cmd_idx = 4, cp_start_time = 9, cp_end_time = 30\<rparr>]\<rparr>]"
  obtain t where t: "add_all demo_hist (\<lambda>a b. b - a) ?infos (PikaCmdRunTimeHistogram_new demo_hist) = Some t"
    by (simp add: AddTimeMetric_def step_times_def AddTimeMetric_step_def HistogramNum_def)
  obtain report where r: "GetTimeMetric demo_hist (Some (\<lambda>i. ''get'')) t = Some report" unfolding GetTimeMetric_def option.map by blast
  have "(4 :: nat) < HistogramNum" by (simp add: HistogramNum_def)
  from metrics_count_commands [OF demo_hist_ok t this r, of ProcessStep]
  have "MetricCount ''get'' ProcessStep 2 \<in> set report" by (elim exE conjE) (simp add: Let_def)
  with t r show ?thesis by blast
qed

text \<open>The metrics of a connection are counted once: AddTimeMetric empties its list.\<close>

lemma AddTimeMetric_clears: "AddTimeMetric lib us info t = Some (info', t') \<Longrightarrow> ti_cmd_process_times info' = []"
  by (auto simp: AddTimeMetric_def)

end
