(* ===== verification/ServerThread.thy ===== *)
theory ServerThread
  imports PinkConn "HOL-Library.Signed_Division"
begin

text \<open>
  Threads (\<^verbatim>\<open>src/pink_thread.cc\<close>), the listening socket (\<^verbatim>\<open>src/server_socket.cc\<close>) and the base of the
  servers (\<^verbatim>\<open>include/server_thread.h\<close>, \<^verbatim>\<open>src/server_thread.cc\<close>): opening the listening sockets, the
  cron timer, accepting connections, the event loop, and the descriptors of a server object from its construction to
  its destruction.

  The class hierarchy is a chain of record extensions: \<open>server\<close> extends \<open>thread\<close>, and a server
  class extends \<open>server\<close>; its overriding functions are a table \<open>server_ops\<close>.  Calls that leave the
  program (\<^verbatim>\<open>close\<close>, the user's \<^verbatim>\<open>ServerHandle\<close>) are recorded in \<open>sv_log\<close> in the order they are made.
  The locale \<open>server_class\<close> states what the event loop needs from a server class to keep an
  invariant of it.
\<close>

section \<open>Threads\<close>

record thread =
  th_should_stop :: bool
  th_running :: bool

definition Thread_new :: thread where
  "Thread_new = \<lparr>th_should_stop = False, th_running = False\<rparr>"

text \<open>\<open>create\<close> and \<open>join\<close> are the results of \<^verbatim>\<open>pthread_create\<close> and \<^verbatim>\<open>pthread_join\<close>.\<close>

definition Thread_StartThread :: "int \<Rightarrow> 'a thread_scheme \<Rightarrow> int \<times> 'a thread_scheme" where
  "Thread_StartThread create t =
     (let t = t\<lparr>th_should_stop := False\<rparr>
      in if \<not> th_running t then (create, t\<lparr>th_running := True\<rparr>) else (0, t))"

definition Thread_StopThread :: "int \<Rightarrow> 'a thread_scheme \<Rightarrow> int \<times> 'a thread_scheme" where
  "Thread_StopThread join t =
     (let t = t\<lparr>th_should_stop := True\<rparr>
      in if th_running t then (join, t\<lparr>th_running := False\<rparr>) else (0, t))"

definition set_should_stop :: "'a thread_scheme \<Rightarrow> 'a thread_scheme" where
  "set_should_stop t = t\<lparr>th_should_stop := True\<rparr>"

section \<open>The listening socket\<close>

record socket_answers =
  so_sockfd :: fd
  so_setsockopt :: int
  so_bind :: int
  so_listen :: int
  so_fcntl :: fcntl_answers

record server_socket =
  ss_sockfd :: fd
  ss_listening :: bool
  ss_flags :: "int option"

text \<open>
  \<^verbatim>\<open>is_block\<close> is an argument of the constructor, false by default and wherever the library makes a socket.  The result of
  \<^verbatim>\<open>SetNonBlock\<close> is not looked at.
\<close>

definition ServerSocket_Listen :: "bool \<Rightarrow> socket_answers \<Rightarrow> RetCode \<times> server_socket" where
  "ServerSocket_Listen is_block a =
     (let s = \<lparr>ss_sockfd = so_sockfd a, ss_listening = False, ss_flags = None\<rparr>
      in if so_setsockopt a < 0 then (kSetSockOptError, s)
         else if so_bind a < 0 then (kBindError, s)
         else if so_listen a < 0 then (kListenError, s)
         else (kSuccess, s\<lparr>ss_listening := True,
           ss_flags := if is_block then None else Some (fst (Setnonblocking (so_fcntl a)))\<rparr>))"

section \<open>The server\<close>

text \<open>Calls out of the program, in order.\<close>

datatype server_call = Close fd | FdClosedHandle fd bytes | FdTimeoutHandle fd bytes | CronHandle

definition kKillAllConnsTask :: bytes where "kKillAllConnsTask = ''kill_all_conns''"
definition kDefaultKeepAliveTime :: int where "kDefaultKeepAliveTime = 60"
definition PINK_CRON_INTERVAL :: int where "PINK_CRON_INTERVAL = 1000"

text \<open>The part of the user's \<^verbatim>\<open>ServerHandle\<close> that decides; the two checks may change the address.\<close>

record server_handle =
  sh_AccessHandle_ip :: "bytes \<Rightarrow> bool \<times> bytes"
  sh_AccessHandle_fd :: "fd \<Rightarrow> bytes \<Rightarrow> bool \<times> bytes"

definition DefaultServerHandle :: server_handle where
  "DefaultServerHandle = \<lparr>sh_AccessHandle_ip = (\<lambda>ip. (True, ip)), sh_AccessHandle_fd = (\<lambda>_ ip. (True, ip))\<rparr>"

definition SanitizeHandle :: "server_handle option \<Rightarrow> server_handle" where
  "SanitizeHandle raw_handle = (case raw_handle of None \<Rightarrow> DefaultServerHandle | Some h \<Rightarrow> h)"

record server = thread +
  sv_epoll :: pink_epoll
  sv_cron_interval :: int
  sv_handle :: server_handle
  sv_port :: int
  sv_ips :: "bytes set"
  sv_server_sockets :: "server_socket list"
  sv_server_fds :: "fd set"
  sv_log :: "server_call list"

definition ServerThread_new :: "bytes set \<Rightarrow> int \<Rightarrow> int \<Rightarrow> server_handle option \<Rightarrow> server" where
  "ServerThread_new bind_ips port cron_interval handle =
     thread.extend Thread_new
       \<lparr>sv_epoll = \<lparr>ep_events = [], ep_pipe = []\<rparr>, sv_cron_interval = cron_interval,
        sv_handle = SanitizeHandle handle, sv_port = port, sv_ips = bind_ips,
        sv_server_sockets = [], sv_server_fds = {}, sv_log = []\<rparr>"

definition ServerThread_new_any :: "int \<Rightarrow> int \<Rightarrow> server_handle option \<Rightarrow> server" where
  "ServerThread_new_any port cron_interval handle = ServerThread_new {''0.0.0.0''} port cron_interval handle"

definition ServerThread_new_ip :: "bytes \<Rightarrow> int \<Rightarrow> int \<Rightarrow> server_handle option \<Rightarrow> server" where
  "ServerThread_new_ip bind_ip port cron_interval handle = ServerThread_new {bind_ip} port cron_interval handle"

definition sv_call :: "server_call list \<Rightarrow> 'a server_scheme \<Rightarrow> 'a server_scheme" where
  "sv_call cs s = s\<lparr>sv_log := sv_log s @ cs\<rparr>"

text \<open>\<^verbatim>\<open>close\<close>, seen by the multiplexer and the log.\<close>

definition sv_close :: "fd \<Rightarrow> 'a server_scheme \<Rightarrow> 'a server_scheme" where
  "sv_close fd s = sv_call [Close fd] (s\<lparr>sv_epoll := sys_close fd (sv_epoll s)\<rparr>)"

text \<open>The effect of \<^verbatim>\<open>Setnonblocking\<close> on the program: it closes the descriptor when it fails.\<close>

definition sv_nonblock :: "fcntl_answers \<Rightarrow> fd \<Rightarrow> 'a server_scheme \<Rightarrow> 'a server_scheme" where
  "sv_nonblock nb fd s = (if snd (Setnonblocking nb) then sv_close fd s else s)"

subsection \<open>Listening\<close>

text \<open>Every socket is kept, the one whose \<^verbatim>\<open>Listen\<close> failed too; the loop stops there.  A socket that
  \<^verbatim>\<open>Setnonblocking\<close> has closed passes as a listening one.\<close>

fun init_sockets :: "(bytes \<Rightarrow> socket_answers) \<Rightarrow> bytes list \<Rightarrow> 'a server_scheme \<Rightarrow> RetCode \<times> 'a server_scheme" where
  "init_sockets answers [] s = (kSuccess, s)"
| "init_sockets answers (ip # ips) s =
     (let (ret, sock) = ServerSocket_Listen False (answers ip);
          s = s\<lparr>sv_server_sockets := sv_server_sockets s @ [sock]\<rparr>
      in if ret \<noteq> kSuccess then (ret, s)
         else let nb = so_fcntl (answers ip);
                  s = sv_nonblock nb (ss_sockfd sock) s
              in init_sockets answers ips
                (s\<lparr>sv_epoll := snd (add_event_nb nb (ss_sockfd sock) (EPOLLIN OR EPOLLERR OR EPOLLHUP) (sv_epoll s)),
                   sv_server_fds := insert (ss_sockfd sock) (sv_server_fds s)\<rparr>))"

definition InitHandle :: "(bytes \<Rightarrow> socket_answers) \<Rightarrow> 'a server_scheme \<Rightarrow> RetCode \<times> 'a server_scheme" where
  "InitHandle answers s =
     (let s = (if ''0.0.0.0'' \<in> sv_ips s then s\<lparr>sv_ips := {''0.0.0.0''}\<rparr> else s)
      in init_sockets answers (sorted_list_of_set (sv_ips s)) s)"

text \<open>\<^verbatim>\<open>StartThread\<close> returns the code of the socket that failed, or the result of \<^verbatim>\<open>pthread_create\<close>.\<close>

definition ServerThread_StartThread ::
  "(bytes \<Rightarrow> socket_answers) \<Rightarrow> int \<Rightarrow> 'a server_scheme \<Rightarrow> (RetCode + int) \<times> 'a server_scheme" where
  "ServerThread_StartThread answers create s =
     (let (ret, s) = InitHandle answers s
      in if ret \<noteq> kSuccess then (Inl ret, s)
         else let (r, s) = Thread_StartThread create s in (Inr r, s))"

subsection \<open>The cron timer\<close>

text \<open>
  \<^verbatim>\<open>when\<close> is the time of the next cron task, with microseconds that may exceed a million; \<^verbatim>\<open>timeout\<close>
  is the time to wait for events, in milliseconds.  Division is that of C.
\<close>

record timer =
  tm_when :: timeval
  tm_now :: timeval
  tm_timeout :: int

definition timer_start :: "int \<Rightarrow> timeval \<Rightarrow> timer" where
  "timer_start cron_interval t =
     \<lparr>tm_when = (fst t + cron_interval sdiv 1000, snd t + (cron_interval smod 1000) * 1000), tm_now = t,
      tm_timeout = (if cron_interval \<le> 0 then PINK_CRON_INTERVAL else cron_interval)\<rparr>"

definition timer_tick :: "int \<Rightarrow> timeval \<Rightarrow> timer \<Rightarrow> bool \<times> timer" where
  "timer_tick cron_interval t tm =
     (if cron_interval > 0 then
        if fst (tm_when tm) > fst t \<or> fst (tm_when tm) = fst t \<and> snd (tm_when tm) > snd t then
          (False, tm\<lparr>tm_now := t,
             tm_timeout := (fst (tm_when tm) - fst t) * 1000 + (snd (tm_when tm) - snd t) sdiv 1000\<rparr>)
        else
          (True, tm\<lparr>tm_now := t,
             tm_when := (fst t + cron_interval sdiv 1000, snd t + (cron_interval smod 1000) * 1000),
             tm_timeout := cron_interval\<rparr>)
      else (False, tm))"

subsection \<open>Events\<close>

text \<open>What the operating system answers when a connection is accepted; \<open>None\<close> is an error.\<close>

record accept_answer =
  ac_connfd :: "fd option"
  ac_nodelay :: int
  ac_ip :: bytes
  ac_port :: nat

text \<open>A fired event (\<open>None\<close> is the notification pipe), with what its handler will be answered.\<close>

record fired_event =
  fe_fd :: "fd option"
  fe_mask :: mask
  fe_io :: io
  fe_accept :: accept_answer
  fe_now :: timeval

record 'a server_ops =
  sp_DoCronTask :: "io \<Rightarrow> timeval \<Rightarrow> 'a server_scheme \<Rightarrow> 'a server_scheme"
  sp_ProcessNotifyEvents :: "mask \<Rightarrow> 'a server_scheme \<Rightarrow> 'a server_scheme option"
  sp_HandleNewConn :: "fd \<Rightarrow> bytes \<Rightarrow> 'a server_scheme \<Rightarrow> 'a server_scheme option"
  sp_HandleConnEvent :: "fired_event \<Rightarrow> 'a server_scheme \<Rightarrow> 'a server_scheme option"

definition accept_conn :: "'a server_ops \<Rightarrow> accept_answer \<Rightarrow> 'a server_scheme \<Rightarrow> 'a server_scheme option" where
  "accept_conn ops a s =
     (case ac_connfd a of
        None \<Rightarrow> Some s
      | Some connfd \<Rightarrow>
          if ac_nodelay a = -1 then Some (sv_close connfd s)
          else
            let (ok, ip) = sh_AccessHandle_ip (sv_handle s) (ac_ip a)
            in if \<not> ok then Some (sv_close connfd s)
               else
                 let (ok', ip') = sh_AccessHandle_fd (sv_handle s) connfd ip
                 in if \<not> ok' then Some (sv_close connfd s)
                    else sp_HandleNewConn ops connfd (ip' @ '':'' @ to_string (ac_port a)) s)"

definition server_event :: "'a server_ops \<Rightarrow> fired_event \<Rightarrow> 'a server_scheme \<Rightarrow> 'a server_scheme option" where
  "server_event ops fe s =
     (case fe_fd fe of
        None \<Rightarrow> sp_ProcessNotifyEvents ops (fe_mask fe) s
      | Some fd \<Rightarrow>
          if fd \<in> sv_server_fds s then
            if has_flag (fe_mask fe) EPOLLIN then accept_conn ops (fe_accept fe) s
            else if has_flag (fe_mask fe) (EPOLLHUP OR EPOLLERR) then Some (sv_close fd s)
            else Some s
          else sp_HandleConnEvent ops fe s)"

fun server_events :: "'a server_ops \<Rightarrow> fired_event list \<Rightarrow> 'a server_scheme \<Rightarrow> 'a server_scheme option" where
  "server_events ops [] s = Some s"
| "server_events ops (fe # fes) s =
     (case server_event ops fe s of None \<Rightarrow> None | Some s' \<Rightarrow> server_events ops fes s')"

text \<open>One turn of the loop: the time, the events that are then ready, the answers for the cron task.\<close>

record turn =
  tu_now :: timeval
  tu_cron_now :: timeval
  tu_cron_io :: io
  tu_fired :: "fired_event list"

definition server_turn :: "'a server_ops \<Rightarrow> turn \<Rightarrow> timer \<times> 'a server_scheme \<Rightarrow> (timer \<times> 'a server_scheme) option" where
  "server_turn ops tu = (\<lambda>(tm, s).
     let (due, tm) = timer_tick (sv_cron_interval s) (tu_now tu) tm;
         s = (if due then sv_call [CronHandle] (sp_DoCronTask ops (tu_cron_io tu) (tu_cron_now tu) s) else s)
     in map_option (Pair tm) (server_events ops (tu_fired tu) s))"

fun server_loop :: "'a server_ops \<Rightarrow> turn list \<Rightarrow> timer \<times> 'a server_scheme \<Rightarrow> (timer \<times> 'a server_scheme) option" where
  "server_loop ops [] ts = Some ts"
| "server_loop ops (tu # tus) ts =
     (case server_turn ops tu ts of None \<Rightarrow> None | Some ts' \<Rightarrow> server_loop ops tus ts')"

text \<open>
  \<^verbatim>\<open>ThreadMain\<close>: the turns until \<^verbatim>\<open>should_stop\<close>, then the listening sockets are deleted, which closes
  them.
\<close>

definition close_sockets :: "'a server_scheme \<Rightarrow> 'a server_scheme" where
  "close_sockets s =
     (fold (\<lambda>sock. sv_close (ss_sockfd sock)) (sv_server_sockets s) s)\<lparr>sv_server_sockets := [], sv_server_fds := {}\<rparr>"

definition ServerThread_ThreadMain :: "'a server_ops \<Rightarrow> timeval \<Rightarrow> turn list \<Rightarrow> 'a server_scheme \<Rightarrow> 'a server_scheme option" where
  "ServerThread_ThreadMain ops t0 tus s =
     map_option (\<lambda>(tm, s). close_sockets s) (server_loop ops tus (timer_start (sv_cron_interval s) t0, s))"

subsection \<open>The life of a server object\<close>

text \<open>
  The descriptors of a multiplexer: the \<^verbatim>\<open>epoll\<close> object and the two ends of the pipe.  \<open>None\<close> is a failed call, which ends the program.
  The destructor closes the first one only.
\<close>

record epoll_fds =
  ef_epfd :: fd
  ef_notify_receive_fd :: fd
  ef_notify_send_fd :: fd

definition PinkEpoll_new :: "fd \<Rightarrow> (fd \<times> fd) option \<Rightarrow> epoll_fds option" where
  "PinkEpoll_new epoll_create1 pipe =
     (if epoll_create1 < 0 then None
      else map_option (\<lambda>(r, w). \<lparr>ef_epfd = epoll_create1, ef_notify_receive_fd = r, ef_notify_send_fd = w\<rparr>) pipe)"

definition PinkEpoll_free :: "epoll_fds \<Rightarrow> fd set \<Rightarrow> fd set" where
  "PinkEpoll_free f opened = opened - {ef_epfd f}"

text \<open>The destructor of the server, after that of its multiplexer; the sockets are gone when \<^verbatim>\<open>ThreadMain\<close> has run.\<close>

definition ServerThread_free :: "'a server_scheme \<Rightarrow> 'a server_scheme" where
  "ServerThread_free s = fold (\<lambda>sock. sv_close (ss_sockfd sock)) (sv_server_sockets s) s"

section \<open>Properties of the loop\<close>

text \<open>The descriptors that \<^verbatim>\<open>accept\<close> returns are fresh in the state in which they are accepted.\<close>

definition accepts :: "fired_event \<Rightarrow> 'a server_scheme \<Rightarrow> fd set" where
  "accepts fe s =
     (case fe_fd fe of
        None \<Rightarrow> {}
      | Some fd \<Rightarrow> if fd \<in> sv_server_fds s \<and> has_flag (fe_mask fe) EPOLLIN then set_option (ac_connfd (fe_accept fe)) else {})"

fun fresh_events :: "(fd \<Rightarrow> 'a server_scheme \<Rightarrow> bool) \<Rightarrow> 'a server_ops \<Rightarrow> fired_event list \<Rightarrow> 'a server_scheme \<Rightarrow> bool" where
  "fresh_events fresh ops [] s = True"
| "fresh_events fresh ops (fe # fes) s =
     ((\<forall>fd \<in> accepts fe s. fresh fd s) \<and>
      (case server_event ops fe s of None \<Rightarrow> True | Some s' \<Rightarrow> fresh_events fresh ops fes s'))"

definition after_cron :: "'a server_ops \<Rightarrow> turn \<Rightarrow> timer \<times> 'a server_scheme \<Rightarrow> 'a server_scheme" where
  "after_cron ops tu = (\<lambda>(tm, s).
     if fst (timer_tick (sv_cron_interval s) (tu_now tu) tm)
     then sv_call [CronHandle] (sp_DoCronTask ops (tu_cron_io tu) (tu_cron_now tu) s) else s)"

fun fresh_turns :: "(fd \<Rightarrow> 'a server_scheme \<Rightarrow> bool) \<Rightarrow> 'a server_ops \<Rightarrow> turn list \<Rightarrow> timer \<times> 'a server_scheme \<Rightarrow> bool" where
  "fresh_turns fresh ops [] ts = True"
| "fresh_turns fresh ops (tu # tus) ts =
     (fresh_events fresh ops (tu_fired tu) (after_cron ops tu ts) \<and>
      (case server_turn ops tu ts of None \<Rightarrow> True | Some ts' \<Rightarrow> fresh_turns fresh ops tus ts'))"

locale server_class =
  fixes ops :: "'a server_ops"
    and I :: "'a server_scheme \<Rightarrow> bool"
    and fresh :: "fd \<Rightarrow> 'a server_scheme \<Rightarrow> bool"
  assumes DoCronTask_I: "I s \<Longrightarrow> I (sp_DoCronTask ops i now s)"
    and ProcessNotifyEvents_I: "I s \<Longrightarrow> sp_ProcessNotifyEvents ops m s = Some s' \<Longrightarrow> I s'"
    and HandleNewConn_I: "I s \<Longrightarrow> fresh fd s \<Longrightarrow> sp_HandleNewConn ops fd ip s = Some s' \<Longrightarrow> I s'"
    and HandleConnEvent_I: "I s \<Longrightarrow> fe_fd fe = Some fd \<Longrightarrow> fd \<notin> sv_server_fds s \<Longrightarrow>
      sp_HandleConnEvent ops fe s = Some s' \<Longrightarrow> I s'"
    and call_I: "I s \<Longrightarrow> I (sv_call [CronHandle] s)"
    and close_I: "I s \<Longrightarrow> fresh fd s \<or> fd \<in> sv_server_fds s \<Longrightarrow> I (sv_close fd s)"
begin

lemma accept_I: "I s \<Longrightarrow> \<forall>fd \<in> set_option (ac_connfd a). fresh fd s \<Longrightarrow> accept_conn ops a s = Some s' \<Longrightarrow> I s'"
  by (auto simp: accept_conn_def split: option.splits if_splits prod.splits intro: close_I HandleNewConn_I)

lemma event_I: "I s \<Longrightarrow> \<forall>fd \<in> accepts fe s. fresh fd s \<Longrightarrow> server_event ops fe s = Some s' \<Longrightarrow> I s'"
  by (auto simp: server_event_def accepts_def split: option.splits if_splits
      intro: close_I accept_I ProcessNotifyEvents_I HandleConnEvent_I)

lemma events_I: "I s \<Longrightarrow> fresh_events fresh ops fes s \<Longrightarrow> server_events ops fes s = Some s' \<Longrightarrow> I s'"
  by (induction fes arbitrary: s) (auto split: option.splits intro: event_I)

lemma turn_I:
  assumes "I s" "fresh_events fresh ops (tu_fired tu) (after_cron ops tu (tm, s))" "server_turn ops tu (tm, s) = Some (tm', s')"
  shows "I s'"
proof -
  have cron: "I (after_cron ops tu (tm, s))" using assms(1) by (simp add: after_cron_def call_I DoCronTask_I)
  have "server_events ops (tu_fired tu) (after_cron ops tu (tm, s)) = Some s'"
    using assms(3) by (auto simp: server_turn_def after_cron_def Let_def split: prod.splits if_splits)
  with cron assms(2) show ?thesis by (rule events_I)
qed

lemma loop_I: "I s \<Longrightarrow> fresh_turns fresh ops tus (tm, s) \<Longrightarrow> server_loop ops tus (tm, s) = Some (tm', s') \<Longrightarrow> I s'"
proof (induction tus arbitrary: tm s)
  case (Cons tu tus)
  then obtain tm1 s1 where t: "server_turn ops tu (tm, s) = Some (tm1, s1)" and l: "server_loop ops tus (tm1, s1) = Some (tm', s')"
    by (auto split: option.splits)
  have "I s1" using Cons.prems(1,2) t by (intro turn_I [OF _ _ t]) auto
  with Cons.IH [OF _ _ l] Cons.prems(2) t show ?case by simp
qed simp

end

text \<open>The deadline in microseconds, and the time left.\<close>

definition usec :: "timeval \<Rightarrow> int" where
  "usec t = fst t * 1000000 + snd t"

lemma sdiv_thousand: "\<bar>x - x sdiv 1000 * 1000\<bar> < (1000 :: int)"
  by (simp add: signed_divide_int_def sgn_if) linarith



section \<open>Descriptors of a server object\<close>

text \<open>Whether the thread has run or not, the listening sockets are closed once when the server is deleted.\<close>

lemma sockets_closed_log:
  "sv_log (fold (\<lambda>sock. sv_close (ss_sockfd sock)) socks s) = sv_log s @ map (\<lambda>sock. Close (ss_sockfd sock)) socks"
  by (induction socks arbitrary: s) (simp_all add: sv_close_def sv_call_def)

lemma sockets_closed_once:
  "sv_log (ServerThread_free s) = sv_log s @ map (\<lambda>sock. Close (ss_sockfd sock)) (sv_server_sockets s)"
  "sv_log (ServerThread_free (close_sockets s)) = sv_log s @ map (\<lambda>sock. Close (ss_sockfd sock)) (sv_server_sockets s)"
  by (simp_all add: ServerThread_free_def close_sockets_def sockets_closed_log)

text \<open>The multiplexers of a server with its workers leave both ends of every pipe open when they are deleted.\<close>

lemma pipes_leak:
  assumes "f \<in> set fs" "\<forall>f \<in> set fs. \<forall>g \<in> set fs. ef_epfd f \<notin> {ef_notify_receive_fd g, ef_notify_send_fd g}"
    and "\<forall>f \<in> set fs. {ef_epfd f, ef_notify_receive_fd f, ef_notify_send_fd f} \<subseteq> opened"
  shows "{ef_notify_receive_fd f, ef_notify_send_fd f} \<subseteq> fold PinkEpoll_free fs opened"
proof -
  have free: "fold PinkEpoll_free fs opened = opened - ef_epfd ` set fs" for fs opened
    by (induction fs arbitrary: opened) (auto simp: PinkEpoll_free_def)
  have "ef_notify_receive_fd f \<notin> ef_epfd ` set fs" "ef_notify_send_fd f \<notin> ef_epfd ` set fs" using assms(1,2) by force+
  moreover have "{ef_notify_receive_fd f, ef_notify_send_fd f} \<subseteq> opened" using assms(1,3) by blast
  ultimately show ?thesis by (simp add: free)
qed

end
