(* ===== verification/ConnTable.thy ===== *)
theory ConnTable
  imports ServerThread "HOL-Library.Multiset"
begin

text \<open>
  The table of connections that every event loop keeps (\<^verbatim>\<open>std::map<int, std::shared_ptr<PinkConn>> conns_\<close>)
  and the walks over it that the servers share: statistics, search by peer, and the cron walk that
  sorts the connections into those to close, those that timed out and those that stay.

  A table is well formed when its keys ascend and every connection stands under its own
  descriptor.  The lemmas show that the cron walk splits the table into disjoint parts and decides
  each connection by its peer name and idle time.
\<close>

type_synonym 'a conns = "(fd, 'a pink_conn_scheme) omap"

definition conns_ok :: "'a conns \<Rightarrow> bool" where
  "conns_ok m \<longleftrightarrow> om_ok m \<and> (\<forall>(fd, c) \<in> set m. pc_fd c = fd)"

record conn_info =
  ci_fd :: fd
  ci_ip_port :: bytes
  ci_last_interaction :: timeval

definition table_info :: "'a conns \<Rightarrow> conn_info list" where
  "table_info m =
     map (\<lambda>(fd, c). \<lparr>ci_fd = fd, ci_ip_port = pc_ip_port c, ci_last_interaction = pc_last_interaction c\<rparr>) m"

text \<open>The first connection of a peer, changed by \<open>mark\<close>.\<close>

fun find_ip_port :: "('a pink_conn_scheme \<Rightarrow> 'a pink_conn_scheme) \<Rightarrow> bytes \<Rightarrow> 'a conns \<Rightarrow> bool \<times> 'a conns" where
  "find_ip_port mark ip [] = (False, [])"
| "find_ip_port mark ip ((fd, c) # m) =
     (if pc_ip_port c = ip then (True, (fd, mark c) # m)
      else let (found, m') = find_ip_port mark ip m in (found, (fd, c) # m'))"

text \<open>
  The walk of \<^verbatim>\<open>DoCronTask\<close>: the kill requests left, the connections that stay, those to close, and
  those that timed out.
\<close>

definition idle_too_long :: "int \<Rightarrow> timeval \<Rightarrow> 'a pink_conn_scheme \<Rightarrow> bool" where
  "idle_too_long keepalive_timeout now c \<longleftrightarrow>
     keepalive_timeout > 0 \<and> fst now - fst (pc_last_interaction c) > keepalive_timeout"

fun cron_walk :: "('a pink_conn_scheme \<Rightarrow> 'a pink_conn_scheme) \<Rightarrow> ('a pink_conn_scheme \<Rightarrow> 'a pink_conn_scheme) \<Rightarrow>
    int \<Rightarrow> timeval \<Rightarrow> bytes set \<Rightarrow> 'a conns \<Rightarrow>
    bytes set \<times> 'a conns \<times> 'a pink_conn_scheme list \<times> 'a pink_conn_scheme list" where
  "cron_walk mark resize ka now del [] = (del, [], [], [])"
| "cron_walk mark resize ka now del ((fd, c) # m) =
     (if pc_ip_port c \<in> del then
        let (d, keep, cl, tt) = cron_walk mark resize ka now (del - {pc_ip_port c}) m in (d, keep, mark c # cl, tt)
      else if idle_too_long ka now c then
        let (d, keep, cl, tt) = cron_walk mark resize ka now del m in (d, keep, cl, c # tt)
      else
        let (d, keep, cl, tt) = cron_walk mark resize ka now del m in (d, (fd, resize c) # keep, cl, tt))"

definition ip_ports :: "'a conns \<Rightarrow> bytes list" where
  "ip_ports m = map (\<lambda>(fd, c). pc_ip_port c) m"

section \<open>Lemmas\<close>

lemma conns_ok_Nil [simp]: "conns_ok []"
  by (simp add: conns_ok_def)

lemma conns_ok_om_ok [simp]: "conns_ok m \<Longrightarrow> om_ok m"
  by (simp add: conns_ok_def)

lemma conns_ok_Cons:
  "conns_ok ((fd, c) # m) \<longleftrightarrow> conns_ok m \<and> pc_fd c = fd \<and> (\<forall>k \<in> fst ` set m. fd < k)"
  by (auto simp: conns_ok_def om_ok_Cons)

lemma conns_ok_get: "conns_ok m \<Longrightarrow> om_get m fd = Some c \<Longrightarrow> pc_fd c = fd"
  by (auto simp: conns_ok_def om_get_iff)

lemma conns_ok_ins: "conns_ok m \<Longrightarrow> pc_fd c = fd \<Longrightarrow> conns_ok (om_ins fd c m)"
  by (auto simp: conns_ok_def om.ok_ins set_om_ins)

lemma conns_ok_del: "conns_ok m \<Longrightarrow> conns_ok (om_del fd m)"
  by (auto simp: conns_ok_def om.ok_del set_om_del)

lemma find_ip_port_found: "fst (find_ip_port mark ip m) \<longleftrightarrow> ip \<in> set (ip_ports m)"
  by (induction mark ip m rule: find_ip_port.induct) (auto simp: ip_ports_def split: prod.splits)

lemma find_ip_port_keys: "map fst (snd (find_ip_port mark ip m)) = map fst m"
  by (induction mark ip m rule: find_ip_port.induct) (auto split: prod.splits)

lemma find_ip_port_set:
  "(fd, c') \<in> set (snd (find_ip_port mark ip m)) \<Longrightarrow>
   \<exists>c. (fd, c) \<in> set m \<and> (c' = c \<or> c' = mark c \<and> pc_ip_port c = ip)"
  by (induction mark ip m rule: find_ip_port.induct) (auto split: prod.splits if_splits)

lemma find_ip_port_conns_ok:
  assumes "conns_ok m" "\<And>c. pc_fd (mark c) = pc_fd c"
  shows "conns_ok (snd (find_ip_port mark ip m))"
proof -
  have "pc_fd c' = fd" if "(fd, c') \<in> set (snd (find_ip_port mark ip m))" for fd c'
    using find_ip_port_set [OF that] assms by (auto simp: conns_ok_def)
  with assms show ?thesis
    by (auto simp: conns_ok_def om_ok_def find_ip_port_keys)
qed

lemma find_ip_port_dom [simp]: "keys (snd (find_ip_port mark ip m)) = keys m"
  by (rule keys_eq) (rule find_ip_port_keys)

lemma keys_fds: "conns_ok m \<Longrightarrow> (\<lambda>p. pc_fd (snd p)) ` set m = keys m"
  by (auto simp: conns_ok_def keys_def image_iff split_beta)

text \<open>What the cron walk keeps is a part of the table, and it loses nothing.\<close>

lemma cron_walk_keep_subset:
  "cron_walk mark resize ka now del m = (d, keep, cl, tt) \<Longrightarrow> fst ` set keep \<subseteq> fst ` set m"
proof (induction mark resize ka now del m arbitrary: d keep cl tt rule: cron_walk.induct)
  case (2 mark resize ka now del fd c m)
  then show ?case
    by (cases "cron_walk mark resize ka now (del - {pc_ip_port c}) m"; cases "cron_walk mark resize ka now del m")
      (auto simp: image_subset_iff split: if_splits)
qed simp

lemma cron_walk_keeps_ok:
  assumes "cron_walk mark resize ka now del m = (d, keep, cl, tt)" "conns_ok m" "\<And>c. pc_fd (resize c) = pc_fd c"
  shows "conns_ok keep"
  using assms
proof (induction mark resize ka now del m arbitrary: d keep cl tt rule: cron_walk.induct)
  case (2 mark resize ka now del fd c m)
  obtain d1 k1 cl1 tt1 where w1: "cron_walk mark resize ka now (del - {pc_ip_port c}) m = (d1, k1, cl1, tt1)"
    using prod_cases4 by blast
  obtain d2 k2 cl2 tt2 where w2: "cron_walk mark resize ka now del m = (d2, k2, cl2, tt2)"
    using prod_cases4 by blast
  have m: "conns_ok m" using 2(5) by (simp add: conns_ok_Cons)
  consider (kill) "pc_ip_port c \<in> del" | (timeout) "pc_ip_port c \<notin> del" "idle_too_long ka now c"
    | (stay) "pc_ip_port c \<notin> del" "\<not> idle_too_long ka now c" by blast
  then show ?case
  proof cases
    case kill
    with 2(1) [OF kill w1 m 2(6)] 2(4) w1 show ?thesis by simp
  next
    case timeout
    with 2(2) [OF timeout w2 m 2(6)] 2(4) w2 show ?thesis by simp
  next
    case stay
    with 2(3) [OF stay w2 m 2(6)] 2(4-6) w2 cron_walk_keep_subset [OF w2] show ?thesis
      by (fastforce simp: conns_ok_Cons)
  qed
qed simp

lemma cron_walk_parts:
  assumes "cron_walk mark resize ka now del m = (d, keep, cl, tt)" "conns_ok m" "\<And>c. pc_fd (mark c) = pc_fd c"
  shows "mset (map fst keep @ map pc_fd cl @ map pc_fd tt) = mset (map fst m)"
  using assms
proof (induction mark resize ka now del m arbitrary: d keep cl tt rule: cron_walk.induct)
  case (2 mark resize ka now del fd c m)
  then show ?case
    by (cases "cron_walk mark resize ka now (del - {pc_ip_port c}) m"; cases "cron_walk mark resize ka now del m")
      (auto simp: conns_ok_Cons split: if_splits)
qed simp

lemma cron_walk_covers:
  assumes "cron_walk mark resize ka now del m = (d, keep, cl, tt)" "conns_ok m" "\<And>c. pc_fd (mark c) = pc_fd c"
  shows "keys keep \<union> pc_fd ` set cl \<union> pc_fd ` set tt = keys m"
  using mset_eq_setD [OF cron_walk_parts [OF assms]] by (simp add: keys_def Un_assoc)

lemma cron_walk_disjoint:
  assumes "cron_walk mark resize ka now del m = (d, keep, cl, tt)" "conns_ok m" "\<And>c. pc_fd (mark c) = pc_fd c"
  shows "distinct (map fst keep @ map pc_fd cl @ map pc_fd tt)"
  using mset_eq_imp_distinct_iff [OF cron_walk_parts [OF assms]] om_ok_distinct [of m] assms(2) by simp

text \<open>With distinct peers the walk decides every connection by its own peer and idle time.\<close>

lemma cron_walk_decides:
  assumes "distinct (ip_ports m)"
  shows "cron_walk mark resize ka now del m =
    (del - set (ip_ports m),
     map (\<lambda>(fd, c). (fd, resize c)) (filter (\<lambda>(fd, c). pc_ip_port c \<notin> del \<and> \<not> idle_too_long ka now c) m),
     map (\<lambda>(fd, c). mark c) (filter (\<lambda>(fd, c). pc_ip_port c \<in> del) m),
     map (\<lambda>(fd, c). c) (filter (\<lambda>(fd, c). pc_ip_port c \<notin> del \<and> idle_too_long ka now c) m))"
  using assms
proof (induction mark resize ka now del m rule: cron_walk.induct)
  case (2 mark resize ka now del fd c m)
  from 2(4) have fresh: "pc_ip_port c \<notin> set (ip_ports m)" and dist: "distinct (ip_ports m)"
    by (simp_all add: ip_ports_def)
  have ne: "pc_ip_port c' \<noteq> pc_ip_port c" if "(fd, c') \<in> set m" for fd c'
    using fresh that by (force simp: ip_ports_def)
  have same: "filter (\<lambda>(fd, c'). Q c' (pc_ip_port c' \<in> del - {pc_ip_port c})) m = filter (\<lambda>(fd, c'). Q c' (pc_ip_port c' \<in> del)) m"
    for Q :: "'a pink_conn_scheme \<Rightarrow> bool \<Rightarrow> bool"
    using ne by (intro filter_cong refl) (auto dest: ne)
  show ?case
  proof (cases "pc_ip_port c \<in> del")
    case True
    have "cron_walk mark resize ka now (del - {pc_ip_port c}) m =
      (del - {pc_ip_port c} - set (ip_ports m),
       map (\<lambda>(fd, c). (fd, resize c)) (filter (\<lambda>(fd, c). pc_ip_port c \<notin> del \<and> \<not> idle_too_long ka now c) m),
       map (\<lambda>(fd, c). mark c) (filter (\<lambda>(fd, c). pc_ip_port c \<in> del) m),
       map (\<lambda>(fd, c). c) (filter (\<lambda>(fd, c). pc_ip_port c \<notin> del \<and> idle_too_long ka now c) m))"
      using 2(1) [OF True dist] same [of "\<lambda>c' b. \<not> b \<and> \<not> idle_too_long ka now c'"]
        same [of "\<lambda>c' b. b"] same [of "\<lambda>c' b. \<not> b \<and> idle_too_long ka now c'"] by simp
    with True show ?thesis by (auto simp: ip_ports_def)
  next
    case False
    with 2(2,3) dist show ?thesis
      by (cases "idle_too_long ka now c") (auto simp: ip_ports_def)
  qed
qed (simp add: ip_ports_def)

section \<open>Closing\<close>

text \<open>The descriptors closed and the connections reported closed by a sequence of calls.\<close>

definition closed_in :: "server_call list \<Rightarrow> fd set" where
  "closed_in L = {fd. Close fd \<in> set L}"

definition reported_in :: "server_call list \<Rightarrow> fd set" where
  "reported_in L = {fd. \<exists>ip. FdClosedHandle fd ip \<in> set L}"

lemma closed_in_simps [simp]:
  "closed_in [] = {}" "closed_in (L @ L') = closed_in L \<union> closed_in L'"
  "closed_in (Close fd # L) = insert fd (closed_in L)"
  "closed_in (FdClosedHandle fd ip # L) = closed_in L" "closed_in (FdTimeoutHandle fd ip # L) = closed_in L"
  by (auto simp: closed_in_def)

lemma reported_in_simps [simp]:
  "reported_in [] = {}" "reported_in (L @ L') = reported_in L \<union> reported_in L'"
  "reported_in (Close fd # L) = reported_in L"
  "reported_in (FdClosedHandle fd ip # L) = insert fd (reported_in L)"
  "reported_in (FdTimeoutHandle fd ip # L) = reported_in L"
  by (auto simp: reported_in_def)

definition close_calls :: "'a pink_conn_scheme \<Rightarrow> server_call list" where
  "close_calls c = [Close (pc_fd c), FdClosedHandle (pc_fd c) (pc_ip_port c)]"

definition timeout_calls :: "'a pink_conn_scheme \<Rightarrow> server_call list" where
  "timeout_calls c = close_calls c @ [FdTimeoutHandle (pc_fd c) (pc_ip_port c)]"

lemma close_calls_in [simp]:
  "closed_in (close_calls c) = {pc_fd c}" "reported_in (close_calls c) = {pc_fd c}"
  "closed_in (timeout_calls c) = {pc_fd c}" "reported_in (timeout_calls c) = {pc_fd c}"
  by (simp_all add: close_calls_def timeout_calls_def)

lemma closed_in_concat [simp]:
  "closed_in (concat Ls) = (\<Union>L \<in> set Ls. closed_in L)" "reported_in (concat Ls) = (\<Union>L \<in> set Ls. reported_in L)"
  by (induction Ls) auto

lemma delayed_del_fd [simp]: "pc_fd (delayed_del c) = pc_fd c"
  by (simp add: delayed_del_def)

section \<open>Connection class and factory\<close>

text \<open>
  What an event loop needs from the connections it serves: a connection class, and a factory (\<^verbatim>\<open>ConnFactory\<close>,
  code of the user, which may return a null pointer) that makes connections with the given descriptor.
\<close>

type_synonym 'a factory = "fd \<Rightarrow> bytes \<Rightarrow> 'a pink_conn_scheme option"

lemma SetNonblock_fd [simp]: "pc_fd (snd (SetNonblock x c)) = pc_fd c"
  by (simp add: SetNonblock_def)

locale conn_server = conn_class ops for ops :: "'a conn_ops" +
  fixes fac :: "'a factory"
  assumes fac_fd: "fac fd ip = Some c \<Longrightarrow> pc_fd c = fd"
begin

lemma new_conn_fd: "fac fd ip = Some c \<Longrightarrow> pc_fd (snd (SetNonblock x c)) = fd"
  by (simp add: fac_fd)

end

end
