(* ===== verification/Outbound.thy ===== *)
theory Outbound
  imports ConnTable
begin

text \<open>
  What the two threads that connect to other servers have in common: \<^verbatim>\<open>ClientThread\<close> (\<^verbatim>\<open>src/client_thread.cc\<close>) names its
  peers by address and opens connections on demand, \<^verbatim>\<open>BackendThread\<close> (\<^verbatim>\<open>src/backend_thread.cc\<close>) by descriptor.  Their
  data members, their start and stop, the test of a connection under way and the serving of an event are the same text.

  Calls that leave the program are recorded in order in \<open>ot_log\<close>.  The answers of the resolver and of the socket calls for
  one connection attempt are a list of \<open>addr_answer\<close>, one for each address; \<open>None\<close> is a failed \<^verbatim>\<open>getaddrinfo\<close>.
\<close>

datatype slash_status = OK | IOError | Corruption | InvalidArgument

datatype out_call = OutClose fd | OutFdClosed fd bytes | OutFdTimeout fd bytes | OutCron | OutConnectFailed bytes

type_synonym access_handle = "bytes \<Rightarrow> bool \<times> bytes"

record out_thread = thread +
  ot_epoll :: pink_epoll
  ot_cron_interval :: int
  ot_keepalive_timeout :: int
  ot_handle :: "access_handle option"
  ot_own_handle :: bool
  ot_private_data :: "int option"
  ot_connecting_fds :: "fd set"
  ot_log :: "out_call list"

definition kConnWriteBuf :: nat where "kConnWriteBuf = 1024 * 1024 * 100"

definition OutThread_new :: "int \<Rightarrow> int \<Rightarrow> access_handle option \<Rightarrow> int option \<Rightarrow> out_thread" where
  "OutThread_new cron_interval keepalive_timeout handle private =
     thread.extend Thread_new
       \<lparr>ot_epoll = \<lparr>ep_events = [], ep_pipe = []\<rparr>, ot_cron_interval = cron_interval, ot_keepalive_timeout = keepalive_timeout,
        ot_handle = handle, ot_own_handle = False, ot_private_data = private, ot_connecting_fds = {}, ot_log = []\<rparr>"

text \<open>\<open>data\<close> is what \<^verbatim>\<open>CreateWorkerSpecificData\<close> answers and leaves in \<^verbatim>\<open>private_data_\<close>; \<open>delete\<close> answers its counterpart.\<close>

definition out_StartThread :: "int \<times> int option \<Rightarrow> int \<Rightarrow> 'a out_thread_scheme \<Rightarrow> int \<times> 'a out_thread_scheme" where
  "out_StartThread data create s =
     (let s = (if ot_handle s = None then s\<lparr>ot_handle := Some (\<lambda>ip. (True, ip)), ot_own_handle := True\<rparr> else s);
          s = s\<lparr>ot_own_handle := False, ot_private_data := snd data\<rparr>
      in if fst data \<noteq> 0 then (fst data, s) else Thread_StartThread create s)"

definition out_StopThread :: "(int \<Rightarrow> int) \<Rightarrow> int \<Rightarrow> 'a out_thread_scheme \<Rightarrow> int \<times> 'a out_thread_scheme" where
  "out_StopThread delete join s =
     (case ot_private_data s of
        None \<Rightarrow> Thread_StopThread join (if ot_own_handle s then s\<lparr>ot_handle := None\<rparr> else s)
      | Some p \<Rightarrow>
          if delete p \<noteq> 0 then (delete p, s)
          else let s = s\<lparr>ot_private_data := None\<rparr> in Thread_StopThread join (if ot_own_handle s then s\<lparr>ot_handle := None\<rparr> else s))"

section \<open>Connection attempts\<close>

datatype connect_result = Connected | InProgress | HostUnreachable | ConnectError

record addr_answer =
  aa_socket :: "fd option"
  aa_connect :: connect_result
  aa_local :: "bytes \<times> int"

text \<open>\<^verbatim>\<open>std::map::insert\<close>: a key that is there keeps its value.\<close>

definition om_add :: "'k::linorder \<Rightarrow> 'v \<Rightarrow> ('k, 'v) omap \<Rightarrow> ('k, 'v) omap" where
  "om_add k v m = (if om_get m k = None then om_ins k v m else m)"

definition out_call :: "out_call list \<Rightarrow> 'a out_thread_scheme \<Rightarrow> 'a out_thread_scheme" where
  "out_call cs s = s\<lparr>ot_log := ot_log s @ cs\<rparr>"

definition out_close :: "fd \<Rightarrow> 'a out_thread_scheme \<Rightarrow> 'a out_thread_scheme" where
  "out_close fd s = out_call [OutClose fd] (s\<lparr>ot_epoll := sys_close fd (ot_epoll s)\<rparr>)"

text \<open>The effect of \<^verbatim>\<open>Setnonblocking\<close> on the program: it closes the descriptor when it fails.\<close>

definition out_nonblock :: "fcntl_answers \<Rightarrow> fd \<Rightarrow> 'a out_thread_scheme \<Rightarrow> 'a out_thread_scheme" where
  "out_nonblock nb fd s = (if snd (Setnonblocking nb) then out_close fd s else s)"

definition SetWaitConnectOnEpoll :: "fcntl_answers \<Rightarrow> fd \<Rightarrow> 'a out_thread_scheme \<Rightarrow> 'a out_thread_scheme" where
  "SetWaitConnectOnEpoll nb sockfd s =
     s\<lparr>ot_epoll := snd (add_event_nb nb sockfd (EPOLLIN OR EPOLLOUT) (ot_epoll s)), ot_connecting_fds := insert sockfd (ot_connecting_fds s)\<rparr>"

text \<open>\<open>sockerr\<close> is the value of \<^verbatim>\<open>SO_ERROR\<close>, \<open>None\<close> when \<^verbatim>\<open>getsockopt\<close> fails; the flag is \<^verbatim>\<open>should_close\<close>.\<close>

definition ProcessConnectStatus :: "mask \<Rightarrow> int option \<Rightarrow> slash_status \<times> bool" where
  "ProcessConnectStatus m sockerr =
     (if has_flag m EPOLLERR \<or> has_flag m EPOLLHUP then (Corruption, True)
      else case sockerr of
        None \<Rightarrow> (Corruption, True)
      | Some v \<Rightarrow> if v \<noteq> 0 then (Corruption, True) else (OK, False))"

section \<open>Serving an event\<close>

text \<open>
  A fired event with what its handlers are answered; \<open>oe_addrs i\<close> are the answers for the connection attempt of the \<open>i\<close>-th
  notification.
\<close>

record out_event =
  oe_fd :: "fd option"
  oe_mask :: mask
  oe_io :: io
  oe_sockerr :: "int option"
  oe_addrs :: "nat \<Rightarrow> addr_answer list option"

definition unwatch :: "fd \<Rightarrow> 'a out_thread_scheme \<Rightarrow> 'a out_thread_scheme" where
  "unwatch fd s = s\<lparr>ot_epoll := snd (PinkDelEvent fd (ot_epoll s))\<rparr>"

text \<open>A connection that was being set up: its outcome is reported, and it counts as set up from now on.\<close>

definition connect_outcome :: "out_event \<Rightarrow> fd \<Rightarrow> 'b pink_conn_scheme \<Rightarrow> 'a out_thread_scheme \<Rightarrow> bool \<times> 'a out_thread_scheme" where
  "connect_outcome oe fd c s =
     (if fd \<in> ot_connecting_fds s then
        let (st, should_close) = ProcessConnectStatus (oe_mask oe) (oe_sockerr oe);
            s = (if st \<noteq> OK then out_call [OutConnectFailed (pc_ip_port c)] s else s)
        in (should_close, s\<lparr>ot_connecting_fds := ot_connecting_fds s - {fd}\<rparr>)
      else (False, s))"

text \<open>The halves give \<^verbatim>\<open>should_close\<close>, or \<open>None\<close> where the loop goes on with the next event.\<close>

definition out_write :: "'a conn_ops \<Rightarrow> io \<Rightarrow> mask \<Rightarrow> timeval \<Rightarrow> fd \<Rightarrow> bool \<Rightarrow> 'a pink_conn_scheme \<Rightarrow> pink_epoll \<Rightarrow>
    (bool option \<times> 'a pink_conn_scheme \<times> pink_epoll) option" where
  "out_write ops i m now fd should_close c e =
     (if \<not> should_close \<and> has_flag m EPOLLOUT \<and> co_is_reply ops c then
        map_option (\<lambda>(write_status, c).
          let c = set_last_interaction now c
          in (case write_status of
                kWriteAll \<Rightarrow> (Some False, co_set_is_reply ops False c, snd (PinkModEvent fd 0 EPOLLIN e))
              | kWriteHalf \<Rightarrow> (None, c, e)
              | kWriteError \<Rightarrow> (Some True, c, e))) (co_SendReply ops i c)
      else Some (Some should_close, c, e))"

definition out_read :: "'a conn_ops \<Rightarrow> io \<Rightarrow> mask \<Rightarrow> timeval \<Rightarrow> bool \<Rightarrow> 'a pink_conn_scheme \<Rightarrow> (bool option \<times> 'a pink_conn_scheme) option" where
  "out_read ops i m now should_close c =
     (if \<not> should_close \<and> has_flag m EPOLLIN then
        map_option (\<lambda>(read_status, c).
          let c = set_last_interaction now c
          in if read_status = kReadAll then (Some False, c)
             else if read_status = kReadHalf then (None, c)
             else (Some True, c)) (co_GetRequest ops i c)
      else Some (Some should_close, c))"

definition out_serve :: "'a conn_ops \<Rightarrow> out_event \<Rightarrow> timeval \<Rightarrow> fd \<Rightarrow> bool \<Rightarrow> 'a pink_conn_scheme \<Rightarrow> pink_epoll \<Rightarrow>
    (bool option \<times> 'a pink_conn_scheme \<times> pink_epoll) option" where
  "out_serve ops oe now fd should_close c e =
     (case out_write ops (oe_io oe) (oe_mask oe) now fd should_close c e of
        None \<Rightarrow> None
      | Some (None, c, e) \<Rightarrow> Some (None, c, e)
      | Some (Some sc, c, e) \<Rightarrow> map_option (\<lambda>(r, c). (r, c, e)) (out_read ops (oe_io oe) (oe_mask oe) now sc c))"

record out_turn =
  otu_now :: timeval
  otu_cron_now :: timeval
  otu_cron_io :: io
  otu_fired :: "out_event list"

section \<open>Lemmas\<close>

lemma om_add_fresh: "om_get m k = None \<Longrightarrow> om_add k v m = om_ins k v m"
  by (simp add: om_add_def)

lemma out_call_frame [simp]:
  "ot_epoll (out_call cs s) = ot_epoll s" "ot_connecting_fds (out_call cs s) = ot_connecting_fds s" "ot_log (out_call cs s) = ot_log s @ cs"
  by (simp_all add: out_call_def)

lemma out_close_frame [simp]:
  "ot_epoll (out_close fd s) = sys_close fd (ot_epoll s)" "ot_connecting_fds (out_close fd s) = ot_connecting_fds s"
  "ot_log (out_close fd s) = ot_log s @ [OutClose fd]"
  by (simp_all add: out_close_def)

lemma out_nonblock_frame [simp]:
  "ot_connecting_fds (out_nonblock nb fd s) = ot_connecting_fds s" "ep_pipe (ot_epoll (out_nonblock nb fd s)) = ep_pipe (ot_epoll s)"
  "ot_log (out_nonblock nb fd s) = ot_log s @ (if snd (Setnonblocking nb) then [OutClose fd] else [])"
  by (simp_all add: out_nonblock_def out_close_def out_call_def)

lemma SetWaitConnectOnEpoll_frame [simp]:
  "ot_connecting_fds (SetWaitConnectOnEpoll nb fd s) = insert fd (ot_connecting_fds s)" "ot_log (SetWaitConnectOnEpoll nb fd s) = ot_log s"
  "ep_pipe (ot_epoll (SetWaitConnectOnEpoll nb fd s)) = ep_pipe (ot_epoll s)"
  by (simp_all add: SetWaitConnectOnEpoll_def)

lemma unwatch_frame [simp]:
  "ot_log (unwatch fd s) = ot_log s" "ot_epoll (unwatch fd s) = snd (PinkDelEvent fd (ot_epoll s))"
  "ot_connecting_fds (unwatch fd s) = ot_connecting_fds s"
  by (simp_all add: unwatch_def)

text \<open>Serving an event keeps the identity of the connection and the pipe.\<close>

context conn_class
begin

lemma out_serve_same:
  assumes "out_serve ops oe now fd sc c e = Some (r, c', e')"
  shows "same_conn c c' \<and> ep_pipe e' = ep_pipe e \<and> (ep_ok e \<longrightarrow> ep_ok e')"
proof -
  obtain r1 c1 e1 where w: "out_write ops (oe_io oe) (oe_mask oe) now fd sc c e = Some (r1, c1, e1)"
    using assms by (auto simp: out_serve_def split: option.splits)
  have c1: "same_conn c c1 \<and> ep_pipe e1 = ep_pipe e \<and> (ep_ok e \<longrightarrow> ep_ok e1)"
    using w by (auto simp: out_write_def Let_def split: if_splits WriteStatus.splits
        intro: same_conn_trans [OF SendReply_same] same_conn_trans [OF _ set_is_reply_same] same_conn_base)
      (metis WriteStatus.exhaust)+
  show ?thesis
  proof (cases r1)
    case None
    with assms w c1 show ?thesis by (auto simp: out_serve_def)
  next
    case (Some b)
    with assms w obtain c2 where "out_read ops (oe_io oe) (oe_mask oe) now b c1 = Some (r, c2)" "c' = c2" "e' = e1"
      by (auto simp: out_serve_def)
    moreover from this have "same_conn c1 c2"
      by (auto simp: out_read_def Let_def split: if_splits intro: same_conn_trans [OF GetRequest_same])
    ultimately show ?thesis using c1 by (auto intro: same_conn_trans)
  qed
qed

end

end
