(* ===== verification/ClientThread.thy ===== *)
theory ClientThread
  imports Outbound
begin

text \<open>
  The client thread (\<^verbatim>\<open>include/client_thread.h\<close>, \<^verbatim>\<open>src/client_thread.cc\<close>): messages for a peer, named by address and port,
  are queued by any thread; the event thread connects to the peer when there is no connection yet, hands it the messages
  and serves the connection.

  A connection object is shared by the tables by descriptor and by peer, so both hold references into \<open>ct_objs\<close>.
  \<^verbatim>\<open>slash::ParseIpPortString\<close> is the parameter \<open>parse\<close>, the connection factory the parameter \<open>fac\<close>.  \<^verbatim>\<open>WriteResp\<close> returns 0 in
  every connection class of the library, so the branch that queues a message again is not taken.  \<open>None\<close> is a crash.

  \<open>client_step\<close> interleaves the calls of user threads (queueing and notifying are two steps) with the event thread, one
  notification at a time.  The invariant relates the two tables, and a queued message to a notification that is still to
  come.
\<close>

section \<open>State\<close>

record 'a client_thread = out_thread +
  ct_to_send :: "(bytes, bytes list) omap"
  ct_objs :: "nat \<Rightarrow> 'a pink_conn_scheme option"
  ct_next :: nat
  ct_fd_conns :: "(fd, nat) omap"
  ct_ipport_conns :: "(bytes, nat) omap"
  ct_to_del :: "bytes list"

definition ClientThread_new :: "int \<Rightarrow> int \<Rightarrow> access_handle option \<Rightarrow> int option \<Rightarrow> 'a client_thread" where
  "ClientThread_new cron_interval keepalive_timeout handle private =
     out_thread.extend (OutThread_new cron_interval keepalive_timeout handle private)
       \<lparr>ct_to_send = [], ct_objs = (\<lambda>_. None), ct_next = 0, ct_fd_conns = [], ct_ipport_conns = [], ct_to_del = []\<rparr>"

definition peer :: "bytes \<Rightarrow> int \<Rightarrow> bytes" where
  "peer ip port = ip @ '':'' @ print_int port"

section \<open>Calls of other threads\<close>

definition client_NotifyWrite :: "bytes \<Rightarrow> 'a client_thread \<Rightarrow> 'a client_thread option" where
  "client_NotifyWrite ip_port s =
     map_option (\<lambda>ti. s\<lparr>ot_epoll := snd (Register ti True (ot_epoll s))\<rparr>) (PinkItem_new 0 ip_port kNotiWrite)"

text \<open>The part of \<^verbatim>\<open>Write\<close> that queues the message; the name is as the access handle left it.\<close>

definition queue_msg :: "bytes \<Rightarrow> int \<Rightarrow> bytes \<Rightarrow> 'a client_thread \<Rightarrow> (slash_status \<times> bytes \<times> 'a client_thread) option" where
  "queue_msg ip port msg s =
     map_option (\<lambda>h.
       let (ok, ip_port) = h (peer ip port)
       in if \<not> ok then (Corruption, ip_port, s)
          else
            let msgs = (case om_get (ct_to_send s) ip_port of Some ms \<Rightarrow> ms | None \<Rightarrow> []);
                s = s\<lparr>ct_to_send := om_ins ip_port msgs (ct_to_send s)\<rparr>
            in if sum_list (map length msgs) > kConnWriteBuf then (Corruption, ip_port, s)
               else (OK, ip_port, s\<lparr>ct_to_send := om_ins ip_port (msgs @ [msg]) (ct_to_send s)\<rparr>)) (ot_handle s)"

definition client_Write :: "bytes \<Rightarrow> int \<Rightarrow> bytes \<Rightarrow> 'a client_thread \<Rightarrow> (slash_status \<times> 'a client_thread) option" where
  "client_Write ip port msg s =
     (case queue_msg ip port msg s of
        None \<Rightarrow> None
      | Some (st, ip_port, s) \<Rightarrow> if st = OK then map_option (Pair OK) (client_NotifyWrite ip_port s) else Some (st, s))"

definition client_Close :: "bytes \<Rightarrow> int \<Rightarrow> 'a client_thread \<Rightarrow> slash_status \<times> 'a client_thread" where
  "client_Close ip port s = (OK, s\<lparr>ct_to_del := ct_to_del s @ [peer ip port]\<rparr>)"

section \<open>Connecting and closing\<close>

definition client_CleanUpConnRemaining :: "bytes \<Rightarrow> 'a client_thread \<Rightarrow> 'a client_thread" where
  "client_CleanUpConnRemaining ip_port s = s\<lparr>ct_to_send := om_del ip_port (ct_to_send s)\<rparr>"

definition client_CloseFd :: "fd \<Rightarrow> bytes \<Rightarrow> 'a client_thread \<Rightarrow> 'a client_thread" where
  "client_CloseFd fd ip_port s = out_call [OutFdClosed fd ip_port] (client_CleanUpConnRemaining ip_port (out_close fd s))"

definition NewConnection :: "'a factory \<Rightarrow> (fd \<Rightarrow> fcntl_answers) \<Rightarrow> bytes \<Rightarrow> int \<Rightarrow> fd \<Rightarrow> 'a client_thread \<Rightarrow> 'a client_thread option" where
  "NewConnection fac nb peer_ip peer_port sockfd s =
     map_option (\<lambda>tc.
       let s = out_nonblock (nb sockfd) sockfd s
       in s\<lparr>ct_objs := (ct_objs s)(ct_next s \<mapsto> snd (SetNonblock (nb sockfd) tc)), ct_next := Suc (ct_next s),
         ct_fd_conns := om_add sockfd (ct_next s) (ct_fd_conns s),
         ct_ipport_conns := om_add (peer peer_ip peer_port) (ct_next s) (ct_ipport_conns s)\<rparr>) (fac sockfd (peer peer_ip peer_port))"

fun connect_addrs :: "'a factory \<Rightarrow> (fd \<Rightarrow> fcntl_answers) \<Rightarrow> bytes \<Rightarrow> int \<Rightarrow> addr_answer list \<Rightarrow> 'a client_thread \<Rightarrow> (slash_status \<times> 'a client_thread) option" where
  "connect_addrs fac nb ip port [] s = Some (IOError, s)"
| "connect_addrs fac nb ip port (a # as) s =
     (case aa_socket a of
        None \<Rightarrow> connect_addrs fac nb ip port as s
      | Some sockfd \<Rightarrow>
          (case aa_connect a of
             HostUnreachable \<Rightarrow> connect_addrs fac nb ip port as (client_CloseFd sockfd (peer ip port) s)
           | InProgress \<Rightarrow> map_option (\<lambda>s. (OK, SetWaitConnectOnEpoll (nb sockfd) sockfd s)) (NewConnection fac nb ip port sockfd s)
           | ConnectError \<Rightarrow> Some (IOError, client_CloseFd sockfd (peer ip port) s)
           | Connected \<Rightarrow>
               map_option (\<lambda>s. (if aa_local a = (ip, port) then IOError else OK,
                   s\<lparr>ot_epoll := snd (add_event_nb (nb sockfd) sockfd (EPOLLIN OR EPOLLOUT) (ot_epoll s))\<rparr>)) (NewConnection fac nb ip port sockfd s)))"

definition ScheduleConnect :: "'a factory \<Rightarrow> (fd \<Rightarrow> fcntl_answers) \<Rightarrow> bytes \<Rightarrow> int \<Rightarrow> addr_answer list option \<Rightarrow> 'a client_thread \<Rightarrow>
    (slash_status \<times> 'a client_thread) option" where
  "ScheduleConnect fac nb dst_ip dst_port addrs s =
     (case addrs of None \<Rightarrow> Some (IOError, s) | Some as \<Rightarrow> connect_addrs fac nb dst_ip dst_port as s)"

text \<open>A connection leaves both tables; the object lives on while something refers to it.\<close>

definition forget :: "fd \<Rightarrow> bytes \<Rightarrow> fd \<Rightarrow> 'a client_thread \<Rightarrow> 'a client_thread" where
  "forget key ip_port fd s = s\<lparr>ct_fd_conns := om_del key (ct_fd_conns s), ct_ipport_conns := om_del ip_port (ct_ipport_conns s),
     ot_connecting_fds := ot_connecting_fds s - {fd}\<rparr>"

section \<open>Cron task\<close>

text \<open>The table refers to objects that exist, so the walk looks them up; a dangling reference is a crash.\<close>

definition cron_conn :: "'a conn_ops \<Rightarrow> io \<Rightarrow> timeval \<Rightarrow> fd \<Rightarrow> nat \<Rightarrow> 'a client_thread \<Rightarrow> 'a client_thread option" where
  "cron_conn ops i now fd r s =
     map_option (\<lambda>c.
       if idle_too_long (ot_keepalive_timeout s) now c then
         forget fd (pc_ip_port c) (pc_fd c)
           (out_call [OutFdTimeout (pc_fd c) (pc_ip_port c)] (out_close (pc_fd c) (unwatch (pc_fd c) s)))
       else s\<lparr>ct_objs := (ct_objs s)(r \<mapsto> co_TryResizeBuffer ops i c)\<rparr>) (ct_objs s r)"

fun cron_conns :: "'a conn_ops \<Rightarrow> io \<Rightarrow> timeval \<Rightarrow> (fd, nat) omap \<Rightarrow> 'a client_thread \<Rightarrow> 'a client_thread option" where
  "cron_conns ops i now [] s = Some s"
| "cron_conns ops i now ((fd, r) # m) s = (case cron_conn ops i now fd r s of None \<Rightarrow> None | Some s \<Rightarrow> cron_conns ops i now m s)"

definition delete_conn :: "bytes \<Rightarrow> 'a client_thread \<Rightarrow> 'a client_thread option" where
  "delete_conn name s =
     (case om_get (ct_ipport_conns s) name of
        None \<Rightarrow> Some s
      | Some r \<Rightarrow>
          map_option (\<lambda>c. forget (pc_fd c) name (pc_fd c) (client_CloseFd (pc_fd c) (pc_ip_port c) (unwatch (pc_fd c) s))) (ct_objs s r))"

fun delete_conns :: "bytes list \<Rightarrow> 'a client_thread \<Rightarrow> 'a client_thread option" where
  "delete_conns [] s = Some s"
| "delete_conns (n # ns) s = (case delete_conn n s of None \<Rightarrow> None | Some s \<Rightarrow> delete_conns ns s)"

definition client_DoCronTask :: "'a conn_ops \<Rightarrow> io \<Rightarrow> timeval \<Rightarrow> 'a client_thread \<Rightarrow> 'a client_thread option" where
  "client_DoCronTask ops i now s =
     (case cron_conns ops i now (ct_fd_conns s) s of
        None \<Rightarrow> None
      | Some s \<Rightarrow> delete_conns (ct_to_del s) (s\<lparr>ct_to_del := []\<rparr>))"

section \<open>Notifications\<close>

text \<open>The messages queued for a peer go to its connection, in order.\<close>

definition hand_over :: "'a conn_ops \<Rightarrow> bytes \<Rightarrow> 'a client_thread \<Rightarrow> 'a client_thread option" where
  "hand_over ops ip_port s =
     (case om_get (ct_to_send s) ip_port of
        None \<Rightarrow> Some s
      | Some msgs \<Rightarrow>
          let s' = s\<lparr>ct_to_send := om_del ip_port (ct_to_send s)\<rparr>
          in if msgs = [] then Some s'
             else (case om_get (ct_ipport_conns s) ip_port of
                     None \<Rightarrow> None
                   | Some r \<Rightarrow> map_option (\<lambda>c. s'\<lparr>ct_objs := (ct_objs s)(r \<mapsto> fold (co_WriteResp ops) msgs c)\<rparr>) (ct_objs s r)))"

definition write_item :: "'a conn_ops \<Rightarrow> 'a factory \<Rightarrow> (fd \<Rightarrow> fcntl_answers) \<Rightarrow> (bytes \<Rightarrow> (bytes \<times> int) option) \<Rightarrow> addr_answer list option \<Rightarrow> bytes \<Rightarrow>
    'a client_thread \<Rightarrow> 'a client_thread option" where
  "write_item ops fac nb parse addrs ip_port s =
     (case om_get (ct_ipport_conns s) ip_port of
        None \<Rightarrow>
          (case parse ip_port of
             None \<Rightarrow> Some s
           | Some (ip, port) \<Rightarrow>
               (case ScheduleConnect fac nb ip port addrs s of
                  None \<Rightarrow> None
                | Some (st, s) \<Rightarrow>
                    if st \<noteq> OK then Some (out_call [OutConnectFailed (peer ip port)] s) else hand_over ops ip_port s))
      | Some r \<Rightarrow>
          (case ct_objs s r of
             None \<Rightarrow> None
           | Some c \<Rightarrow> hand_over ops ip_port (s\<lparr>ot_epoll := snd (PinkModEvent (pc_fd c) 0 (EPOLLOUT OR EPOLLIN) (ot_epoll s))\<rparr>)))"

definition client_item :: "'a conn_ops \<Rightarrow> 'a factory \<Rightarrow> (fd \<Rightarrow> fcntl_answers) \<Rightarrow> (bytes \<Rightarrow> (bytes \<times> int) option) \<Rightarrow> addr_answer list option \<Rightarrow> pink_item \<Rightarrow>
    'a client_thread \<Rightarrow> 'a client_thread option" where
  "client_item ops fac nb parse addrs ti s =
     (if it_notify_type ti = kNotiWrite then write_item ops fac nb parse addrs (it_ip_port ti) s
      else if it_notify_type ti = kNotiClose then
        Some (forget (it_fd ti) (it_ip_port ti) (it_fd ti) (client_CloseFd (it_fd ti) (it_ip_port ti) (unwatch (it_fd ti) s)))
      else Some s)"

fun client_items :: "'a conn_ops \<Rightarrow> 'a factory \<Rightarrow> (fd \<Rightarrow> fcntl_answers) \<Rightarrow> (bytes \<Rightarrow> (bytes \<times> int) option) \<Rightarrow> (nat \<Rightarrow> addr_answer list option) \<Rightarrow> nat \<Rightarrow>
    pink_item list \<Rightarrow> 'a client_thread \<Rightarrow> 'a client_thread option" where
  "client_items ops fac nb parse addrs i [] s = Some s"
| "client_items ops fac nb parse addrs i (ti # tis) s =
     (case client_item ops fac nb parse (addrs i) ti s of
        None \<Rightarrow> None
      | Some s \<Rightarrow> client_items ops fac nb parse addrs (Suc i) tis s)"

definition client_ProcessNotifyEvents :: "'a conn_ops \<Rightarrow> 'a factory \<Rightarrow> (fd \<Rightarrow> fcntl_answers) \<Rightarrow> (bytes \<Rightarrow> (bytes \<times> int) option) \<Rightarrow> out_event \<Rightarrow>
    'a client_thread \<Rightarrow> 'a client_thread option" where
  "client_ProcessNotifyEvents ops fac nb parse oe s =
     (if has_flag (oe_mask oe) EPOLLIN then
        let (its, e) = read_items 64 (ot_epoll s) in client_items ops fac nb parse (oe_addrs oe) 0 its (s\<lparr>ot_epoll := e\<rparr>)
      else Some s)"

section \<open>The event loop\<close>

definition client_conn_event :: "'a conn_ops \<Rightarrow> timeval \<Rightarrow> fd \<Rightarrow> out_event \<Rightarrow> 'a client_thread \<Rightarrow> 'a client_thread option" where
  "client_conn_event ops now fd oe s =
     (case om_get (ct_fd_conns s) fd of
        None \<Rightarrow> Some (unwatch fd s)
      | Some r \<Rightarrow>
          (case ct_objs s r of
             None \<Rightarrow> None
           | Some c \<Rightarrow>
               let (sc, s) = connect_outcome oe fd c s
               in (case out_serve ops oe now fd sc c (ot_epoll s) of
                     None \<Rightarrow> None
                   | Some (res, c, e) \<Rightarrow>
                       let s = s\<lparr>ct_objs := (ct_objs s)(r \<mapsto> c), ot_epoll := e\<rparr>
                       in (case res of
                             None \<Rightarrow> Some s
                           | Some should_close \<Rightarrow>
                               if has_flag (oe_mask oe) EPOLLERR \<or> has_flag (oe_mask oe) EPOLLHUP \<or> should_close then
                                 Some (forget fd (pc_ip_port c) (pc_fd c) (client_CloseFd (pc_fd c) (pc_ip_port c) (unwatch fd s)))
                               else Some s))))"

definition client_event :: "'a conn_ops \<Rightarrow> 'a factory \<Rightarrow> (fd \<Rightarrow> fcntl_answers) \<Rightarrow> (bytes \<Rightarrow> (bytes \<times> int) option) \<Rightarrow> timeval \<Rightarrow> out_event \<Rightarrow>
    'a client_thread \<Rightarrow> 'a client_thread option" where
  "client_event ops fac nb parse now oe s =
     (case oe_fd oe of
        None \<Rightarrow> client_ProcessNotifyEvents ops fac nb parse oe s
      | Some fd \<Rightarrow> client_conn_event ops now fd oe s)"

fun client_events :: "'a conn_ops \<Rightarrow> 'a factory \<Rightarrow> (fd \<Rightarrow> fcntl_answers) \<Rightarrow> (bytes \<Rightarrow> (bytes \<times> int) option) \<Rightarrow> timeval \<Rightarrow> out_event list \<Rightarrow>
    'a client_thread \<Rightarrow> 'a client_thread option" where
  "client_events ops fac nb parse now [] s = Some s"
| "client_events ops fac nb parse now (oe # oes) s =
     (case client_event ops fac nb parse now oe s of None \<Rightarrow> None | Some s \<Rightarrow> client_events ops fac nb parse now oes s)"

definition client_turn :: "'a conn_ops \<Rightarrow> 'a factory \<Rightarrow> (fd \<Rightarrow> fcntl_answers) \<Rightarrow> (bytes \<Rightarrow> (bytes \<times> int) option) \<Rightarrow> out_turn \<Rightarrow>
    timer \<times> 'a client_thread \<Rightarrow> (timer \<times> 'a client_thread) option" where
  "client_turn ops fac nb parse tu = (\<lambda>(tm, s).
     let (due, tm) = timer_tick (ot_cron_interval s) (otu_now tu) tm
     in (case (if due then client_DoCronTask ops (otu_cron_io tu) (otu_cron_now tu) (out_call [OutCron] s) else Some s) of
           None \<Rightarrow> None
         | Some s \<Rightarrow> map_option (Pair tm) (client_events ops fac nb parse (tm_now tm) (otu_fired tu) s)))"

fun client_loop :: "'a conn_ops \<Rightarrow> 'a factory \<Rightarrow> (fd \<Rightarrow> fcntl_answers) \<Rightarrow> (bytes \<Rightarrow> (bytes \<times> int) option) \<Rightarrow> out_turn list \<Rightarrow>
    timer \<times> 'a client_thread \<Rightarrow> (timer \<times> 'a client_thread) option" where
  "client_loop ops fac nb parse [] ts = Some ts"
| "client_loop ops fac nb parse (tu # tus) ts =
     (case client_turn ops fac nb parse tu ts of None \<Rightarrow> None | Some ts \<Rightarrow> client_loop ops fac nb parse tus ts)"

definition client_ThreadMain :: "'a conn_ops \<Rightarrow> 'a factory \<Rightarrow> (fd \<Rightarrow> fcntl_answers) \<Rightarrow> (bytes \<Rightarrow> (bytes \<times> int) option) \<Rightarrow> timeval \<Rightarrow> out_turn list \<Rightarrow>
    'a client_thread \<Rightarrow> 'a client_thread option" where
  "client_ThreadMain ops fac nb parse t0 tus s =
     map_option snd (client_loop ops fac nb parse tus (timer_start (ot_cron_interval s) t0, s))"

section \<open>The two tables\<close>

text \<open>
  Both tables refer to the same connections, each under its own descriptor and peer; only connections of the tables are
  being set up; references beyond \<open>ct_next\<close> are unused.
\<close>

definition tables_ok :: "'a client_thread \<Rightarrow> bool" where
  "tables_ok s \<longleftrightarrow> om_ok (ct_fd_conns s) \<and> om_ok (ct_ipport_conns s) \<and>
     (\<forall>fd r. om_get (ct_fd_conns s) fd = Some r \<longrightarrow>
        (\<exists>c. ct_objs s r = Some c \<and> pc_fd c = fd \<and> om_get (ct_ipport_conns s) (pc_ip_port c) = Some r)) \<and>
     (\<forall>ip r. om_get (ct_ipport_conns s) ip = Some r \<longrightarrow>
        (\<exists>c. ct_objs s r = Some c \<and> pc_ip_port c = ip \<and> om_get (ct_fd_conns s) (pc_fd c) = Some r)) \<and>
     ot_connecting_fds s \<subseteq> keys (ct_fd_conns s) \<and> (\<forall>r. ct_next s \<le> r \<longrightarrow> ct_objs s r = None)"

lemma tables_ok_frame [simp]:
  "tables_ok (s\<lparr>ot_epoll := e\<rparr>) = tables_ok s" "tables_ok (s\<lparr>ct_to_send := m\<rparr>) = tables_ok s" "tables_ok (s\<lparr>ct_to_del := d\<rparr>) = tables_ok s"
  "tables_ok (out_call cs s) = tables_ok s" "tables_ok (out_close fd s) = tables_ok s" "tables_ok (unwatch fd s) = tables_ok s"
  "tables_ok (client_CloseFd fd ip s) = tables_ok s"
  by (simp_all add: tables_ok_def out_call_def out_close_def unwatch_def client_CloseFd_def client_CleanUpConnRemaining_def)

lemma tables_ok_fd:
  "tables_ok s \<Longrightarrow> om_get (ct_fd_conns s) fd = Some r \<Longrightarrow>
   \<exists>c. ct_objs s r = Some c \<and> pc_fd c = fd \<and> om_get (ct_ipport_conns s) (pc_ip_port c) = Some r"
  unfolding tables_ok_def by blast

lemma tables_ok_ip:
  "tables_ok s \<Longrightarrow> om_get (ct_ipport_conns s) ip = Some r \<Longrightarrow>
   \<exists>c. ct_objs s r = Some c \<and> pc_ip_port c = ip \<and> om_get (ct_fd_conns s) (pc_fd c) = Some r"
  unfolding tables_ok_def by blast

lemma tables_okI:
  assumes "om_ok (ct_fd_conns s)" "om_ok (ct_ipport_conns s)"
    and "\<And>fd r. om_get (ct_fd_conns s) fd = Some r \<Longrightarrow>
      \<exists>c. ct_objs s r = Some c \<and> pc_fd c = fd \<and> om_get (ct_ipport_conns s) (pc_ip_port c) = Some r"
    and "\<And>ip r. om_get (ct_ipport_conns s) ip = Some r \<Longrightarrow>
      \<exists>c. ct_objs s r = Some c \<and> pc_ip_port c = ip \<and> om_get (ct_fd_conns s) (pc_fd c) = Some r"
    and "ot_connecting_fds s \<subseteq> keys (ct_fd_conns s)" "\<And>r. ct_next s \<le> r \<Longrightarrow> ct_objs s r = None"
  shows "tables_ok s"
  using assms unfolding tables_ok_def by blast

lemma tables_ok_rest:
  assumes "tables_ok s"
  shows "om_ok (ct_fd_conns s)" "om_ok (ct_ipport_conns s)" "ot_connecting_fds s \<subseteq> keys (ct_fd_conns s)"
    "\<And>r. ct_next s \<le> r \<Longrightarrow> ct_objs s r = None"
  using assms by (simp_all add: tables_ok_def)

lemma tables_ok_new [simp]: "tables_ok (ClientThread_new ci ka h p)"
  by (simp add: tables_ok_def ClientThread_new_def out_thread.defs OutThread_new_def thread.defs)

lemma tables_ok_obj:
  assumes ok: "tables_ok s" and c: "ct_objs s r = Some c" "same_conn c c'"
  shows "tables_ok (s\<lparr>ct_objs := (ct_objs s)(r \<mapsto> c')\<rparr>)"
proof (rule tables_okI)
  fix fd r' assume "om_get (ct_fd_conns (s\<lparr>ct_objs := (ct_objs s)(r \<mapsto> c')\<rparr>)) fd = Some r'"
  with tables_ok_fd [OF ok, of fd r'] c
  show "\<exists>d. ct_objs (s\<lparr>ct_objs := (ct_objs s)(r \<mapsto> c')\<rparr>) r' = Some d \<and> pc_fd d = fd \<and>
      om_get (ct_ipport_conns (s\<lparr>ct_objs := (ct_objs s)(r \<mapsto> c')\<rparr>)) (pc_ip_port d) = Some r'"
    by (auto simp: same_conn_def)
next
  fix ip r' assume "om_get (ct_ipport_conns (s\<lparr>ct_objs := (ct_objs s)(r \<mapsto> c')\<rparr>)) ip = Some r'"
  with tables_ok_ip [OF ok, of ip r'] c
  show "\<exists>d. ct_objs (s\<lparr>ct_objs := (ct_objs s)(r \<mapsto> c')\<rparr>) r' = Some d \<and> pc_ip_port d = ip \<and>
      om_get (ct_fd_conns (s\<lparr>ct_objs := (ct_objs s)(r \<mapsto> c')\<rparr>)) (pc_fd d) = Some r'"
    by (auto simp: same_conn_def)
next
  fix r' assume "ct_next (s\<lparr>ct_objs := (ct_objs s)(r \<mapsto> c')\<rparr>) \<le> r'"
  with tables_ok_rest(4) [OF ok, of r'] c show "ct_objs (s\<lparr>ct_objs := (ct_objs s)(r \<mapsto> c')\<rparr>) r' = None" by auto
qed (use tables_ok_rest [OF ok] in simp_all)

lemma tables_ok_connected: "tables_ok s \<Longrightarrow> F \<subseteq> ot_connecting_fds s \<Longrightarrow> tables_ok (s\<lparr>ot_connecting_fds := F\<rparr>)"
  by (auto simp: tables_ok_def)

lemma tables_ok_forget:
  assumes ok: "tables_ok s" and c: "om_get (ct_fd_conns s) fd = Some r" "ct_objs s r = Some c"
  shows "tables_ok (forget fd (pc_ip_port c) fd s)"
proof (rule tables_okI)
  have c': "pc_fd c = fd" "om_get (ct_ipport_conns s) (pc_ip_port c) = Some r" using tables_ok_fd [OF ok c(1)] c(2) by auto
  show "\<exists>d. ct_objs (forget fd (pc_ip_port c) fd s) r' = Some d \<and> pc_fd d = fd' \<and>
      om_get (ct_ipport_conns (forget fd (pc_ip_port c) fd s)) (pc_ip_port d) = Some r'"
    if "om_get (ct_fd_conns (forget fd (pc_ip_port c) fd s)) fd' = Some r'" for fd' r'
  proof -
    from that have fd': "fd' \<noteq> fd" "om_get (ct_fd_conns s) fd' = Some r'" by (auto simp: forget_def om_get_del split: if_splits)
    from tables_ok_fd [OF ok fd'(2)] obtain d where d: "ct_objs s r' = Some d" "pc_fd d = fd'" "om_get (ct_ipport_conns s) (pc_ip_port d) = Some r'"
      by blast
    have "pc_ip_port d \<noteq> pc_ip_port c" using d c' c(2) fd'(1) by auto
    with d show ?thesis by (simp add: forget_def om_get_del)
  qed
  show "\<exists>d. ct_objs (forget fd (pc_ip_port c) fd s) r' = Some d \<and> pc_ip_port d = ip \<and>
      om_get (ct_fd_conns (forget fd (pc_ip_port c) fd s)) (pc_fd d) = Some r'"
    if "om_get (ct_ipport_conns (forget fd (pc_ip_port c) fd s)) ip = Some r'" for ip r'
  proof -
    from that have ip: "ip \<noteq> pc_ip_port c" "om_get (ct_ipport_conns s) ip = Some r'" by (auto simp: forget_def om_get_del split: if_splits)
    from tables_ok_ip [OF ok ip(2)] obtain d where d: "ct_objs s r' = Some d" "pc_ip_port d = ip" "om_get (ct_fd_conns s) (pc_fd d) = Some r'"
      by blast
    have "pc_fd d \<noteq> fd" using d c ip(1) by auto
    with d show ?thesis by (simp add: forget_def om_get_del)
  qed
qed (use tables_ok_rest [OF ok] in \<open>auto simp: forget_def om.ok_del\<close>)

lemma om_del_absent: "k \<notin> keys m \<Longrightarrow> om_del k m = m"
  by (auto simp: om_del_def keys_def filter_id_conv)

lemma tables_ok_forget_none:
  assumes "tables_ok s" "fd \<notin> keys (ct_fd_conns s)" "ip \<notin> keys (ct_ipport_conns s)"
  shows "tables_ok (forget fd ip fd s)"
  using tables_ok_connected [OF assms(1), of "ot_connecting_fds s - {fd}"] assms(2,3) by (simp add: forget_def om_del_absent Diff_subset)

lemma CloseFd_objs [simp]:
  "ct_objs (client_CloseFd fd ip s) = ct_objs s" "ct_fd_conns (client_CloseFd fd ip s) = ct_fd_conns s"
  "ct_ipport_conns (client_CloseFd fd ip s) = ct_ipport_conns s" "ct_to_send (client_CloseFd fd ip s) = om_del ip (ct_to_send s)"
  "ot_epoll (client_CloseFd fd ip s) = sys_close fd (ot_epoll s)" "ot_log (client_CloseFd fd ip s) = ot_log s @ [OutClose fd, OutFdClosed fd ip]"
  "ct_to_del (client_CloseFd fd ip s) = ct_to_del s"
  by (simp_all add: client_CloseFd_def client_CleanUpConnRemaining_def out_call_def out_close_def)

lemma unwatch_tables [simp]:
  "ct_objs (unwatch fd s) = ct_objs s" "ct_fd_conns (unwatch fd s) = ct_fd_conns s" "ct_ipport_conns (unwatch fd s) = ct_ipport_conns s"
  "ct_to_send (unwatch fd s) = ct_to_send s"
  by (simp_all add: unwatch_def)

lemma out_tables [simp]:
  "ct_objs (out_call cs s) = ct_objs s" "ct_fd_conns (out_call cs s) = ct_fd_conns s" "ct_ipport_conns (out_call cs s) = ct_ipport_conns s"
  "ct_to_send (out_call cs s) = ct_to_send s" "ct_to_del (out_call cs s) = ct_to_del s"
  "ct_objs (out_close fd s) = ct_objs s" "ct_fd_conns (out_close fd s) = ct_fd_conns s" "ct_ipport_conns (out_close fd s) = ct_ipport_conns s"
  "ct_to_send (out_close fd s) = ct_to_send s"
  "ct_objs (out_nonblock a fd s) = ct_objs s" "ct_fd_conns (out_nonblock a fd s) = ct_fd_conns s" "ct_ipport_conns (out_nonblock a fd s) = ct_ipport_conns s"
  "ct_to_send (out_nonblock a fd s) = ct_to_send s" "ct_next (out_nonblock a fd s) = ct_next s"
  "ct_objs (SetWaitConnectOnEpoll a fd s) = ct_objs s" "ct_fd_conns (SetWaitConnectOnEpoll a fd s) = ct_fd_conns s"
  "ct_ipport_conns (SetWaitConnectOnEpoll a fd s) = ct_ipport_conns s" "ct_to_send (SetWaitConnectOnEpoll a fd s) = ct_to_send s"
  by (simp_all add: out_call_def out_close_def out_nonblock_def SetWaitConnectOnEpoll_def)

lemma forget_frame [simp]:
  "ct_to_send (forget k ip fd s) = ct_to_send s" "ot_log (forget k ip fd s) = ot_log s" "ot_epoll (forget k ip fd s) = ot_epoll s"
  "ct_ipport_conns (forget k ip fd s) = om_del ip (ct_ipport_conns s)" "ct_fd_conns (forget k ip fd s) = om_del k (ct_fd_conns s)"
  "ct_objs (forget k ip fd s) = ct_objs s"
  by (simp_all add: forget_def)

section \<open>What a step does to the queued messages\<close>

text \<open>
  Most steps send nothing: the pipe stays, no message is queued, calls are added to the log and no peer becomes connected.
\<close>

definition calms :: "'a client_thread \<Rightarrow> 'a client_thread \<Rightarrow> bool" where
  "calms s s' \<longleftrightarrow> ep_pipe (ot_epoll s') = ep_pipe (ot_epoll s) \<and> (om_ok (ct_to_send s) \<longrightarrow> om_ok (ct_to_send s')) \<and>
     (\<forall>ip msgs. om_get (ct_to_send s') ip = Some msgs \<longrightarrow> om_get (ct_to_send s) ip = Some msgs) \<and>
     set (ot_log s) \<subseteq> set (ot_log s') \<and> keys (ct_ipport_conns s') \<subseteq> keys (ct_ipport_conns s)"

lemma calms_refl [simp]: "calms s s"
  by (simp add: calms_def)

lemma calms_trans: "calms s s1 \<Longrightarrow> calms s1 s2 \<Longrightarrow> calms s s2"
  by (auto simp: calms_def)

lemma om_get_del_Some: "om_get (om_del k m) k' = Some v \<Longrightarrow> om_get m k' = Some v"
  by (simp add: om_get_del split: if_splits)

lemma calms_close: "calms s (forget k ip fd (client_CloseFd fd' ip' (unwatch fd'' s)))"
  by (auto simp: calms_def om.ok_del dest: om_get_del_Some)

lemma calms_timeout: "calms s (forget k ip fd (out_call cs (out_close fd' (unwatch fd'' s))))"
  by (auto simp: calms_def)

lemma calms_upd:
  "calms s (s\<lparr>ct_objs := f\<rparr>)" "ep_pipe e = ep_pipe (ot_epoll s) \<Longrightarrow> calms s (s\<lparr>ct_objs := f, ot_epoll := e\<rparr>)"
  "calms s (s\<lparr>ct_to_del := d\<rparr>)" "calms s (s\<lparr>ot_connecting_fds := F\<rparr>)" "calms s (out_call cs s)" "calms s (unwatch fd s)"
  by (simp_all add: calms_def)

text \<open>The outcome of a connection attempt: on success the peer is connected; only messages for this peer may be dropped.\<close>

definition attempted :: "bytes \<Rightarrow> 'a client_thread \<Rightarrow> slash_status \<Rightarrow> 'a client_thread \<Rightarrow> bool" where
  "attempted ip s st s' \<longleftrightarrow> tables_ok s' \<and> (st = OK \<longrightarrow> ip \<in> keys (ct_ipport_conns s')) \<and>
     keys (ct_ipport_conns s') \<subseteq> insert ip (keys (ct_ipport_conns s)) \<and> ep_pipe (ot_epoll s') = ep_pipe (ot_epoll s) \<and>
     (om_ok (ct_to_send s) \<longrightarrow> om_ok (ct_to_send s')) \<and> (\<forall>ip' msgs. om_get (ct_to_send s') ip' = Some msgs \<longrightarrow> om_get (ct_to_send s) ip' = Some msgs) \<and>
     set (ot_log s) \<subseteq> set (ot_log s')"

definition written :: "bytes \<Rightarrow> 'a client_thread \<Rightarrow> 'a client_thread \<Rightarrow> bool" where
  "written ip s s' \<longleftrightarrow> attempted ip s IOError s' \<and> (om_get (ct_to_send s') ip = None \<or> OutConnectFailed ip \<in> set (ot_log s'))"

definition fresh_sockets :: "addr_answer list option \<Rightarrow> 'a client_thread \<Rightarrow> bool" where
  "fresh_sockets addrs s \<longleftrightarrow>
     (case addrs of None \<Rightarrow> True | Some as \<Rightarrow> \<forall>a \<in> set as. \<forall>fd. aa_socket a = Some fd \<longrightarrow> fd \<notin> keys (ct_fd_conns s))"

text \<open>A name that the parser reads back as the address and port it is made of.\<close>

definition peer_name :: "(bytes \<Rightarrow> (bytes \<times> int) option) \<Rightarrow> bytes \<Rightarrow> bool" where
  "peer_name parse n \<longleftrightarrow> (\<exists>ip port. parse n = Some (ip, port) \<and> peer ip port = n)"

section \<open>Interleaving\<close>

text \<open>
  A configuration: the thread, the notifications the event thread has read and not yet handled, and the names whose message
  is queued and whose notification is still to be written.  A close notification is for a connection that is still in the
  tables, or for none at all: neither its descriptor nor its peer has been taken by another connection meanwhile.  The
  name that the access handle leaves is one the parser reads back.
\<close>

definition close_current :: "pink_item \<Rightarrow> 'a client_thread \<Rightarrow> bool" where
  "close_current ti s \<longleftrightarrow> it_notify_type ti = kNotiClose \<longrightarrow>
     om_get (ct_fd_conns s) (it_fd ti) = om_get (ct_ipport_conns s) (it_ip_port ti)"

inductive client_step :: "'a conn_ops \<Rightarrow> 'a factory \<Rightarrow> (fd \<Rightarrow> fcntl_answers) \<Rightarrow> (bytes \<Rightarrow> (bytes \<times> int) option) \<Rightarrow>
    'a client_thread \<times> pink_item list \<times> bytes list \<Rightarrow> 'a client_thread \<times> pink_item list \<times> bytes list \<Rightarrow> bool"
  for ops fac nb parse where
  queue: "queue_msg ip port msg s = Some (OK, n, s') \<Longrightarrow> peer_name parse n \<Longrightarrow>
    client_step ops fac nb parse (s, b, w) (s', b, n # w)"
| refuse: "queue_msg ip port msg s = Some (st, n, s') \<Longrightarrow> st \<noteq> OK \<Longrightarrow> client_step ops fac nb parse (s, b, w) (s', b, w)"
| notify: "n \<in> set w \<Longrightarrow> client_NotifyWrite n s = Some s' \<Longrightarrow> client_step ops fac nb parse (s, b, w) (s', b, remove1 n w)"
| request_close: "client_step ops fac nb parse (s, b, w) (snd (client_Close ip port s), b, w)"
| conn_notifies: "om_get (ct_fd_conns s) fd = Some r \<Longrightarrow> ct_objs s r = Some c \<Longrightarrow> PinkItem_new fd (pc_ip_port c) t = Some ti \<Longrightarrow>
    client_step ops fac nb parse (s, b, w) (s\<lparr>ot_epoll := snd (Register ti True (ot_epoll s))\<rparr>, b, w)"
| read: "read_items 64 (ot_epoll s) = (its, e) \<Longrightarrow> client_step ops fac nb parse (s, [], w) (s\<lparr>ot_epoll := e\<rparr>, its, w)"
| item: "fresh_sockets addrs s \<Longrightarrow> close_current ti s \<Longrightarrow> client_item ops fac nb parse addrs ti s = Some s' \<Longrightarrow>
    client_step ops fac nb parse (s, ti # b, w) (s', b, w)"
| event: "client_conn_event ops now fd oe s = Some s' \<Longrightarrow> client_step ops fac nb parse (s, b, w) (s', b, w)"
| cron: "client_DoCronTask ops i now (out_call [OutCron] s) = Some s' \<Longrightarrow> client_step ops fac nb parse (s, b, w) (s', b, w)"

definition will_write :: "bytes \<Rightarrow> pink_item list \<Rightarrow> bool" where
  "will_write n its \<longleftrightarrow> (\<exists>ti \<in> set its. it_notify_type ti = kNotiWrite \<and> it_ip_port ti = n)"

text \<open>Names that are ever written to can be read back.\<close>

definition names_ok :: "(bytes \<Rightarrow> (bytes \<times> int) option) \<Rightarrow> 'a client_thread \<times> pink_item list \<times> bytes list \<Rightarrow> bool" where
  "names_ok parse = (\<lambda>(s, b, w). \<forall>n. will_write n (b @ ep_pipe (ot_epoll s)) \<or> n \<in> set w \<or> n \<in> keys (ct_ipport_conns s) \<longrightarrow> peer_name parse n)"

text \<open>A queued message has a notification that is still to be handled, or the failure of its connection was reported.\<close>

definition msgs_ok :: "'a client_thread \<times> pink_item list \<times> bytes list \<Rightarrow> bool" where
  "msgs_ok = (\<lambda>(s, b, w). om_ok (ct_to_send s) \<and> (\<forall>n msgs. om_get (ct_to_send s) n = Some msgs \<longrightarrow> msgs \<noteq> [] \<longrightarrow>
     will_write n (b @ ep_pipe (ot_epoll s)) \<or> n \<in> set w \<or> OutConnectFailed n \<in> set (ot_log s)))"

definition client_inv :: "(bytes \<Rightarrow> (bytes \<times> int) option) \<Rightarrow> 'a client_thread \<times> pink_item list \<times> bytes list \<Rightarrow> bool" where
  "client_inv parse cf \<longleftrightarrow> tables_ok (fst cf) \<and> names_ok parse cf \<and> msgs_ok cf"

lemma will_write_simps [simp]:
  "\<not> will_write n []" "will_write n (ti # its) \<longleftrightarrow> it_notify_type ti = kNotiWrite \<and> it_ip_port ti = n \<or> will_write n its"
  "will_write n (its @ its') \<longleftrightarrow> will_write n its \<or> will_write n its'"
  by (auto simp: will_write_def)

lemma client_inv_new: "client_inv parse (ClientThread_new ci ka h p, [], [])"
  by (simp add: client_inv_def names_ok_def msgs_ok_def)
    (simp add: ClientThread_new_def out_thread.defs OutThread_new_def thread.defs)

lemma client_inv_calms:
  assumes "client_inv parse (s, b, w)" "tables_ok s'" "calms s s'"
  shows "client_inv parse (s', b, w)"
  using assms unfolding client_inv_def names_ok_def msgs_ok_def calms_def by (simp add: subset_iff) metis

lemma client_inv_written:
  assumes "client_inv parse (s, ti # b, w)" "it_notify_type ti = kNotiWrite" "written (it_ip_port ti) s s'"
  shows "client_inv parse (s', b, w)"
  using assms unfolding client_inv_def names_ok_def msgs_ok_def written_def attempted_def by (simp add: subset_iff) (metis option.distinct(1))

lemma client_inv_skip:
  assumes "client_inv parse (s, ti # b, w)" "it_notify_type ti \<noteq> kNotiWrite"
  shows "client_inv parse (s, b, w)"
  using assms by (simp add: client_inv_def names_ok_def msgs_ok_def)

lemma client_inv_noti:
  assumes "client_inv parse (s, b, w)" "it_notify_type ti = kNotiWrite \<Longrightarrow> peer_name parse (it_ip_port ti)"
  shows "client_inv parse (s\<lparr>ot_epoll := snd (Register ti True (ot_epoll s))\<rparr>, b, w)"
  using assms by (auto simp: client_inv_def names_ok_def msgs_ok_def Register_def)

lemma PinkItem_new_frame: "PinkItem_new fd ip t = Some ti \<Longrightarrow> it_ip_port ti = ip \<and> it_notify_type ti = t \<and> it_fd ti = fd"
  by (auto simp: PinkItem_new_def split: if_splits)

lemma queue_msg_inv:
  assumes inv: "client_inv parse (s, b, w)" and q: "queue_msg ip port msg s = Some (st, n, s')"
  shows "st = OK \<Longrightarrow> peer_name parse n \<Longrightarrow> client_inv parse (s', b, n # w)" and "st \<noteq> OK \<Longrightarrow> client_inv parse (s', b, w)"
proof -
  obtain h where "ot_handle s = Some h" using q by (auto simp: queue_msg_def)
  moreover obtain ok n' where "h (peer ip port) = (ok, n')" by fastforce
  moreover from this have "n' = n" using q \<open>ot_handle s = Some h\<close> by (auto simp: queue_msg_def Let_def split: if_splits)
  ultimately have h: "ot_handle s = Some h" "h (peer ip port) = (ok, n)" by simp_all
  let ?msgs = "case om_get (ct_to_send s) n of Some ms \<Rightarrow> ms | None \<Rightarrow> []"
  have ts: "om_ok (ct_to_send s)" using inv by (simp add: client_inv_def msgs_ok_def)
  let ?s = "\<lambda>m. s\<lparr>ct_to_send := om_ins n m (om_ins n ?msgs (ct_to_send s))\<rparr>"
  have grow: "client_inv parse (?s m, b, n # w)" if "peer_name parse n" for m
    using inv ts that by (auto simp: client_inv_def names_ok_def msgs_ok_def om.get_ins om.ok_ins split: if_splits)
  have same: "client_inv parse (s\<lparr>ct_to_send := om_ins n ?msgs (ct_to_send s)\<rparr>, b, w)"
    using inv ts by (auto simp: client_inv_def names_ok_def msgs_ok_def om.get_ins om.ok_ins split: if_splits option.splits)
  show "client_inv parse (s', b, n # w)" if "st = OK" "peer_name parse n"
    using q h that grow by (auto simp: queue_msg_def Let_def split: if_splits)
  show "client_inv parse (s', b, w)" if "st \<noteq> OK"
    using q h that same inv by (auto simp: queue_msg_def Let_def split: if_splits)
qed

section \<open>Steps keep the tables\<close>

text \<open>A factory that always makes a connection, with the descriptor and the peer it is given.\<close>

locale out_server = conn_server ops fac for ops :: "'a conn_ops" and fac +
  assumes fac_some: "\<exists>c. fac fd ip = Some c \<and> pc_ip_port c = ip"
begin

lemma WriteResps_same: "same_conn c (fold (co_WriteResp ops) msgs c)"
proof (induction msgs arbitrary: c)
  case (Cons m msgs)
  from Cons.IH [of "co_WriteResp ops m c"] WriteResp_same [of c m] show ?case by (auto intro: same_conn_trans)
qed simp

lemma NewConnection_ok:
  assumes ok: "tables_ok s" and new: "fd \<notin> keys (ct_fd_conns s)" "peer ip port \<notin> keys (ct_ipport_conns s)"
  shows "\<exists>s'. NewConnection fac nb ip port fd s = Some s' \<and> tables_ok s' \<and> keys (ct_fd_conns s') = insert fd (keys (ct_fd_conns s)) \<and>
    keys (ct_ipport_conns s') = insert (peer ip port) (keys (ct_ipport_conns s)) \<and> ct_to_send s' = ct_to_send s \<and> set (ot_log s) \<subseteq> set (ot_log s') \<and>
    ep_pipe (ot_epoll s') = ep_pipe (ot_epoll s) \<and> ot_connecting_fds s' = ot_connecting_fds s"
proof -
  obtain tc where tc: "fac fd (peer ip port) = Some tc" "pc_ip_port tc = peer ip port" "pc_fd tc = fd"
    using fac_some [of fd "peer ip port"] fac_fd by blast
  let ?c = "snd (SetNonblock (nb fd) tc)"
  have c: "pc_ip_port ?c = peer ip port" "pc_fd ?c = fd" using tc by (simp_all add: SetNonblock_def)
  let ?s = "(out_nonblock (nb fd) fd s)\<lparr>ct_objs := (ct_objs s)(ct_next s \<mapsto> ?c), ct_next := Suc (ct_next s), ct_fd_conns := om_ins fd (ct_next s) (ct_fd_conns s),
      ct_ipport_conns := om_ins (peer ip port) (ct_next s) (ct_ipport_conns s)\<rparr>"
  have none: "om_get (ct_fd_conns s) fd = None" "om_get (ct_ipport_conns s) (peer ip port) = None" using new by (simp_all add: om_get_keys)
  have used: "r \<noteq> ct_next s" if "ct_objs s r \<noteq> None" for r using tables_ok_rest(4) [OF ok, of r] that by auto
  note gets = om.get_ins [OF tables_ok_rest(1) [OF ok]] om.get_ins [OF tables_ok_rest(2) [OF ok]]
  have "tables_ok ?s"
  proof (rule tables_okI)
    fix fd' r assume "om_get (ct_fd_conns ?s) fd' = Some r"
    then consider "fd' = fd" "r = ct_next s" | "fd' \<noteq> fd" "om_get (ct_fd_conns s) fd' = Some r" by (auto simp: gets split: if_splits)
    then show "\<exists>d. ct_objs ?s r = Some d \<and> pc_fd d = fd' \<and> om_get (ct_ipport_conns ?s) (pc_ip_port d) = Some r"
    proof cases
      case 1
      then show ?thesis using c by (simp add: gets)
    next
      case 2
      from tables_ok_fd [OF ok 2(2)] obtain d where d: "ct_objs s r = Some d" "pc_fd d = fd'" "om_get (ct_ipport_conns s) (pc_ip_port d) = Some r"
        by blast
      have "pc_ip_port d \<noteq> peer ip port" "r \<noteq> ct_next s" using d none(2) used [of r] by auto
      with d show ?thesis by (simp add: gets)
    qed
  next
    fix ip' r assume "om_get (ct_ipport_conns ?s) ip' = Some r"
    then consider "ip' = peer ip port" "r = ct_next s" | "ip' \<noteq> peer ip port" "om_get (ct_ipport_conns s) ip' = Some r"
      by (auto simp: gets split: if_splits)
    then show "\<exists>d. ct_objs ?s r = Some d \<and> pc_ip_port d = ip' \<and> om_get (ct_fd_conns ?s) (pc_fd d) = Some r"
    proof cases
      case 1
      then show ?thesis using c by (simp add: gets)
    next
      case 2
      from tables_ok_ip [OF ok 2(2)] obtain d where d: "ct_objs s r = Some d" "pc_ip_port d = ip'" "om_get (ct_fd_conns s) (pc_fd d) = Some r"
        by blast
      have "pc_fd d \<noteq> fd" "r \<noteq> ct_next s" using d none(1) used [of r] by auto
      with d show ?thesis by (simp add: gets)
    qed
  qed (use tables_ok_rest [OF ok] in \<open>auto simp: om.ok_ins\<close>)
  moreover have "NewConnection fac nb ip port fd s = Some ?s" using tc none by (simp add: NewConnection_def om_add_fresh Let_def)
  ultimately show ?thesis by simp
qed

lemma tables_ok_wait: "tables_ok s \<Longrightarrow> fd \<in> keys (ct_fd_conns s) \<Longrightarrow> tables_ok (SetWaitConnectOnEpoll a fd s)"
  by (rule tables_okI) (auto simp: SetWaitConnectOnEpoll_def dest: tables_ok_fd tables_ok_ip tables_ok_rest)

lemma connect_addrs_ok:
  assumes "tables_ok s" "\<forall>a \<in> set as. \<forall>fd. aa_socket a = Some fd \<longrightarrow> fd \<notin> keys (ct_fd_conns s)" "peer ip port \<notin> keys (ct_ipport_conns s)"
  shows "\<exists>st s'. connect_addrs fac nb ip port as s = Some (st, s') \<and> attempted (peer ip port) s st s'"
  using assms
proof (induction as arbitrary: s)
  case Nil
  then show ?case by (auto simp: attempted_def)
next
  case (Cons a as)
  show ?case
  proof (cases "aa_socket a")
    case None
    with Cons show ?thesis by simp
  next
    case (Some fd)
    with Cons.prems have fd: "fd \<notin> keys (ct_fd_conns s)" by simp
    obtain s1 where s1: "NewConnection fac nb ip port fd s = Some s1" "tables_ok s1" "fd \<in> keys (ct_fd_conns s1)"
      "keys (ct_ipport_conns s1) = insert (peer ip port) (keys (ct_ipport_conns s))" "ct_to_send s1 = ct_to_send s" "set (ot_log s) \<subseteq> set (ot_log s1)"
      "ep_pipe (ot_epoll s1) = ep_pipe (ot_epoll s)"
      using NewConnection_ok [OF Cons.prems(1) fd Cons.prems(3), where nb = nb] by auto
    show ?thesis
    proof (cases "aa_connect a")
      case Connected
      with Some s1 show ?thesis by (simp add: attempted_def)
    next
      case InProgress
      with Some s1 tables_ok_wait [OF s1(2,3)] show ?thesis by (simp add: attempted_def)
    next
      case HostUnreachable
      obtain st s' where "connect_addrs fac nb ip port as (client_CloseFd fd (peer ip port) s) = Some (st, s')"
        "attempted (peer ip port) (client_CloseFd fd (peer ip port) s) st s'"
        using Cons.IH [of "client_CloseFd fd (peer ip port) s"] Cons.prems by auto
      with Some HostUnreachable show ?thesis by (auto simp: attempted_def om.ok_del dest: om_get_del_Some)
    next
      case ConnectError
      with Some Cons.prems(1) show ?thesis by (auto simp: attempted_def om.ok_del dest: om_get_del_Some)
    qed
  qed
qed

lemma hand_over_ok:
  assumes "tables_ok s" "om_ok (ct_to_send s)" "ip \<in> keys (ct_ipport_conns s)"
  shows "\<exists>s'. hand_over ops ip s = Some s' \<and> tables_ok s' \<and> calms s s' \<and> om_get (ct_to_send s') ip = None"
proof (cases "om_get (ct_to_send s) ip")
  case None
  with assms show ?thesis by (simp add: hand_over_def)
next
  case (Some msgs)
  obtain r where r: "om_get (ct_ipport_conns s) ip = Some r" using assms(3) keys_get by fast
  obtain c where c: "ct_objs s r = Some c" using tables_ok_ip [OF assms(1) r] by blast
  let ?s = "\<lambda>f. s\<lparr>ct_to_send := om_del ip (ct_to_send s), ct_objs := f\<rparr>"
  have "tables_ok (?s ((ct_objs s)(r \<mapsto> fold (co_WriteResp ops) msgs c)))"
    using tables_ok_obj [of "s\<lparr>ct_to_send := om_del ip (ct_to_send s)\<rparr>" r c, OF _ _ WriteResps_same] assms(1) c by simp
  moreover have "calms s (s\<lparr>ct_to_send := om_del ip (ct_to_send s)\<rparr>)" "calms s (?s f)" for f
    by (auto simp: calms_def om.ok_del dest: om_get_del_Some)
  ultimately show ?thesis using Some r c assms(1)
    by (cases "msgs = []") (simp_all add: hand_over_def om_get_del Let_def)
qed

lemma write_item_ok:
  assumes "tables_ok s" "om_ok (ct_to_send s)" "fresh_sockets addrs s" "peer_name parse n"
  shows "\<exists>s'. write_item ops fac nb parse addrs n s = Some s' \<and> written n s s'"
proof (cases "om_get (ct_ipport_conns s) n")
  case None
  obtain ip port where p: "parse n = Some (ip, port)" "peer ip port = n" using assms(4) by (auto simp: peer_name_def)
  have "peer ip port \<notin> keys (ct_ipport_conns s)" using None p(2) by (simp add: om_get_keys)
  then have "\<exists>st s1. ScheduleConnect fac nb ip port addrs s = Some (st, s1) \<and> attempted n s st s1"
    using connect_addrs_ok [OF assms(1), where ip = ip and port = port] assms(1,3) p(2)
    by (cases addrs) (auto simp: ScheduleConnect_def fresh_sockets_def attempted_def)
  then obtain st s1 where s1: "ScheduleConnect fac nb ip port addrs s = Some (st, s1)" "attempted n s st s1" by blast
  show ?thesis
  proof (cases "st = OK")
    case False
    with None p s1 show ?thesis by (auto simp: write_item_def written_def attempted_def)
  next
    case True
    with s1(2) assms(2) obtain s2 where "hand_over ops n s1 = Some s2" "tables_ok s2" "calms s1 s2" "om_get (ct_to_send s2) n = None"
      using hand_over_ok [of s1 n] by (auto simp: attempted_def)
    with True None p s1 assms(2) show ?thesis by (auto simp: write_item_def written_def attempted_def calms_def)
  qed
next
  case (Some r)
  then obtain c where c: "ct_objs s r = Some c" using tables_ok_ip [OF assms(1)] by blast
  let ?s = "s\<lparr>ot_epoll := snd (PinkModEvent (pc_fd c) 0 (EPOLLOUT OR EPOLLIN) (ot_epoll s))\<rparr>"
  have "n \<in> keys (ct_ipport_conns ?s)" using Some by (simp add: om_get_in_keys)
  then obtain s2 where "hand_over ops n ?s = Some s2" "tables_ok s2" "calms ?s s2" "om_get (ct_to_send s2) n = None"
    using hand_over_ok [of ?s n] assms(1,2) by auto
  with Some c assms(2) show ?thesis by (auto simp: write_item_def written_def attempted_def calms_def)
qed

lemma conn_event_ok:
  assumes ok: "tables_ok s" and ev: "client_conn_event ops now fd oe s = Some s'"
  shows "tables_ok s' \<and> calms s s'"
proof (cases "om_get (ct_fd_conns s) fd")
  case None
  with ok ev show ?thesis by (auto simp: client_conn_event_def calms_upd)
next
  case (Some r)
  obtain c where c: "ct_objs s r = Some c" "pc_fd c = fd" using tables_ok_fd [OF ok Some] by blast
  obtain sc s1 where s1: "connect_outcome oe fd c s = (sc, s1)" by fastforce
  have t1: "tables_ok s1" "calms s s1" "ct_objs s1 = ct_objs s" "ct_fd_conns s1 = ct_fd_conns s"
    using s1 ok by (auto simp: connect_outcome_def Let_def calms_def tables_ok_connected split: prod.splits if_splits)
  obtain res c2 e where sv: "out_serve ops oe now fd sc c (ot_epoll s1) = Some (res, c2, e)"
    using ev Some c(1) s1 by (auto simp: client_conn_event_def split: option.splits)
  note same = out_serve_same [OF sv]
  let ?s2 = "s1\<lparr>ct_objs := (ct_objs s1)(r \<mapsto> c2), ot_epoll := e\<rparr>"
  have t2: "tables_ok ?s2" "calms s1 ?s2" using tables_ok_obj [OF t1(1), of r c c2] t1(3) c same by (simp_all add: calms_upd)
  have fd2: "pc_fd c2 = fd" using same c(2) by (simp add: same_conn_def)
  have "tables_ok (forget fd (pc_ip_port c2) fd (client_CloseFd fd (pc_ip_port c2) (unwatch fd ?s2)))"
    by (rule tables_ok_forget [of _ fd r]) (use t2(1) Some t1(4) in simp_all)
  then show ?thesis
    using ev Some c(1) s1 sv t2 t1(2) fd2 calms_close [of ?s2 fd "pc_ip_port c2" fd fd "pc_ip_port c2" fd]
    by (auto simp: client_conn_event_def Let_def split: option.splits if_splits intro: calms_trans)
qed

lemma cron_conn_ok:
  assumes "tables_ok s" "om_get (ct_fd_conns s) fd = Some r"
  shows "\<exists>s'. cron_conn ops i now fd r s = Some s' \<and> tables_ok s' \<and> calms s s' \<and>
    (\<forall>fd'. fd' \<noteq> fd \<longrightarrow> om_get (ct_fd_conns s') fd' = om_get (ct_fd_conns s) fd')"
proof -
  obtain c where c: "ct_objs s r = Some c" "pc_fd c = fd" using tables_ok_fd [OF assms] by blast
  have "tables_ok (forget fd (pc_ip_port c) fd (out_call [OutFdTimeout fd (pc_ip_port c)] (out_close fd (unwatch fd s))))"
    by (rule tables_ok_forget [of _ fd r]) (use assms c in simp_all)
  with c tables_ok_obj [OF assms(1) c(1) TryResizeBuffer_same] show ?thesis
    by (simp add: cron_conn_def calms_upd calms_timeout om_get_del)
qed

lemma cron_conns_ok:
  assumes "tables_ok s" "distinct (map fst m)" "\<forall>(fd, r) \<in> set m. om_get (ct_fd_conns s) fd = Some r"
  shows "\<exists>s'. cron_conns ops i now m s = Some s' \<and> tables_ok s' \<and> calms s s'"
  using assms
proof (induction m arbitrary: s)
  case (Cons p m)
  obtain fd r where p: "p = (fd, r)" by fastforce
  obtain s1 where s1: "cron_conn ops i now fd r s = Some s1" "tables_ok s1" "calms s s1"
    "\<forall>fd'. fd' \<noteq> fd \<longrightarrow> om_get (ct_fd_conns s1) fd' = om_get (ct_fd_conns s) fd'"
    using cron_conn_ok [OF Cons.prems(1), of fd r i now] Cons.prems(3) p by auto
  have "\<forall>(fd', r') \<in> set m. om_get (ct_fd_conns s1) fd' = Some r'" using s1(4) Cons.prems(2,3) p by force
  with Cons.IH [OF s1(2)] Cons.prems(2) s1 p show ?case by (auto intro: calms_trans)
qed simp

lemma delete_conns_ok:
  assumes "tables_ok s"
  shows "\<exists>s'. delete_conns ns s = Some s' \<and> tables_ok s' \<and> calms s s'"
  using assms
proof (induction ns arbitrary: s)
  case (Cons n ns)
  have "\<exists>s1. delete_conn n s = Some s1 \<and> tables_ok s1 \<and> calms s s1"
  proof (cases "om_get (ct_ipport_conns s) n")
    case (Some r)
    with tables_ok_ip [OF Cons.prems] obtain c where c: "ct_objs s r = Some c" "pc_ip_port c = n" "om_get (ct_fd_conns s) (pc_fd c) = Some r" by blast
    have "tables_ok (forget (pc_fd c) (pc_ip_port c) (pc_fd c) (client_CloseFd (pc_fd c) n (unwatch (pc_fd c) s)))"
      by (rule tables_ok_forget [of _ "pc_fd c" r]) (use Cons.prems c in simp_all)
    with Some c show ?thesis by (simp add: delete_conn_def calms_close)
  qed (use Cons.prems in \<open>simp add: delete_conn_def\<close>)
  with Cons.IH show ?case by (fastforce intro: calms_trans)
qed simp

lemma DoCronTask_ok:
  assumes "tables_ok s"
  shows "\<exists>s'. client_DoCronTask ops i now s = Some s' \<and> tables_ok s' \<and> calms s s'"
proof -
  have "\<forall>(fd, r) \<in> set (ct_fd_conns s). om_get (ct_fd_conns s) fd = Some r" "distinct (map fst (ct_fd_conns s))"
    using tables_ok_rest(1) [OF assms] by (auto simp: om_get_iff om_ok_distinct)
  with cron_conns_ok [OF assms] obtain s1 where s1: "cron_conns ops i now (ct_fd_conns s) s = Some s1" "tables_ok s1" "calms s s1" by blast
  then obtain s2 where "delete_conns (ct_to_del s1) (s1\<lparr>ct_to_del := []\<rparr>) = Some s2" "tables_ok s2" "calms (s1\<lparr>ct_to_del := []\<rparr>) s2"
    using delete_conns_ok [of "s1\<lparr>ct_to_del := []\<rparr>"] by auto
  with s1 calms_upd(3) [of s1 "[]"] show ?thesis by (auto simp: client_DoCronTask_def intro: calms_trans)
qed

lemma client_item_ok:
  assumes inv: "client_inv parse (s, ti # b, w)" and env: "fresh_sockets addrs s" "close_current ti s"
  shows "\<exists>s'. client_item ops fac nb parse addrs ti s = Some s' \<and> client_inv parse (s', b, w)"
proof -
  have ok: "tables_ok s" using inv by (simp add: client_inv_def)
  consider (msg) "it_notify_type ti = kNotiWrite" | (close) "it_notify_type ti = kNotiClose"
    | (other) "it_notify_type ti \<noteq> kNotiWrite" "it_notify_type ti \<noteq> kNotiClose" by blast
  then show ?thesis
  proof cases
    case msg
    then have "peer_name parse (it_ip_port ti)" using inv by (simp add: client_inv_def names_ok_def)
    from write_item_ok [OF ok _ env(1) this, where nb = nb] inv msg client_inv_written [OF inv msg] show ?thesis
      by (auto simp: client_item_def client_inv_def msgs_ok_def)
  next
    case close
    let ?s = "forget (it_fd ti) (it_ip_port ti) (it_fd ti) (client_CloseFd (it_fd ti) (it_ip_port ti) (unwatch (it_fd ti) s))"
    have same: "om_get (ct_fd_conns s) (it_fd ti) = om_get (ct_ipport_conns s) (it_ip_port ti)" using env(2) close by (simp add: close_current_def)
    have "tables_ok ?s"
    proof (cases "om_get (ct_fd_conns s) (it_fd ti)")
      case None
      with same have "it_fd ti \<notin> keys (ct_fd_conns s)" "it_ip_port ti \<notin> keys (ct_ipport_conns s)"
        by (simp_all only: om_get_keys [symmetric])
      with ok show ?thesis by (intro tables_ok_forget_none) simp_all
    next
      case (Some r)
      with same tables_ok_ip [OF ok] obtain c where c: "ct_objs s r = Some c" "pc_ip_port c = it_ip_port ti" by metis
      have "tables_ok (forget (it_fd ti) (pc_ip_port c) (it_fd ti) (client_CloseFd (it_fd ti) (it_ip_port ti) (unwatch (it_fd ti) s)))"
        by (rule tables_ok_forget [of _ _ r]) (use ok Some c in simp_all)
      with c show ?thesis by simp
    qed
    moreover have "client_inv parse (s, b, w)" by (rule client_inv_skip [OF inv]) (use close in simp)
    ultimately have "client_inv parse (?s, b, w)" using client_inv_calms calms_close by blast
    with close show ?thesis by (simp add: client_item_def)
  next
    case other
    with client_inv_skip [OF inv] show ?thesis by (simp add: client_item_def)
  qed
qed

lemma client_step_inv:
  assumes "client_step ops fac nb parse cf cf'" "client_inv parse cf"
  shows "client_inv parse cf'"
  using assms
proof (induction rule: client_step.induct)
  case (notify n w s s' b)
  have n: "peer_name parse n" using notify by (auto simp: client_inv_def names_ok_def)
  obtain ti where ti: "it_notify_type ti = kNotiWrite" "it_ip_port ti = n" "s' = s\<lparr>ot_epoll := snd (Register ti True (ot_epoll s))\<rparr>"
    using notify(2) by (auto simp: client_NotifyWrite_def dest: PinkItem_new_frame)
  have "client_inv parse (s', b, w)" using client_inv_noti [OF notify(3), of ti] n ti by simp
  moreover have "will_write n (b @ ep_pipe (ot_epoll s'))" using ti by (simp add: Register_def)
  moreover have "m \<in> set w \<Longrightarrow> m \<in> set (remove1 n w) \<or> m = n" for m by (cases "m = n") (simp_all add: in_set_remove1)
  moreover have "m \<in> set (remove1 n w) \<Longrightarrow> m \<in> set w" for m using set_remove1_subset by fast
  ultimately show ?case unfolding client_inv_def names_ok_def msgs_ok_def by simp metis
next
  case (conn_notifies s fd r c t ti b w)
  have "pc_ip_port c \<in> keys (ct_ipport_conns s)"
    using conn_notifies tables_ok_fd [of s fd r] by (auto simp: client_inv_def intro: om_get_in_keys)
  with conn_notifies have "peer_name parse (it_ip_port ti)" by (auto simp: client_inv_def names_ok_def dest: PinkItem_new_frame)
  with client_inv_noti [OF conn_notifies(4)] show ?case by blast
next
  case (read s its e w)
  then have "its @ ep_pipe e = ep_pipe (ot_epoll s)" by (auto simp: read_items_def)
  then have "will_write n its \<or> will_write n (ep_pipe e) \<longleftrightarrow> will_write n (ep_pipe (ot_epoll s))" for n by (metis will_write_simps(3))
  with read(2) show ?case by (auto simp: client_inv_def names_ok_def msgs_ok_def)
next
  case (item addrs s ti s' b w)
  from client_item_ok [OF item(4,1,2), where nb = nb] item(3) show ?case by simp
next
  case (event now fd oe s s' b w)
  have "tables_ok s" using event(2) by (simp add: client_inv_def)
  from conn_event_ok [OF this event(1)] client_inv_calms [OF event(2)] show ?case by blast
next
  case (cron i now s s' b w)
  have "tables_ok (out_call [OutCron] s)" using cron(2) by (simp add: client_inv_def)
  from DoCronTask_ok [OF this, of i now] cron(1) have "tables_ok s'" "calms (out_call [OutCron] s) s'" by auto
  then show ?case using client_inv_calms [OF cron(2)] calms_trans [OF calms_upd(5)] by blast
next
  case (request_close s b w ip port)
  then have "tables_ok (snd (client_Close ip port s))" "calms s (snd (client_Close ip port s))"
    by (simp_all add: client_Close_def client_inv_def calms_upd)
  then show ?case by (rule client_inv_calms [OF request_close])
qed (auto intro: queue_msg_inv)

lemma client_run_inv:
  assumes "(client_step ops fac nb parse)\<^sup>*\<^sup>* cf cf'" "client_inv parse cf"
  shows "client_inv parse cf'"
  using assms by (induction rule: rtranclp_induct) (auto intro: client_step_inv)

end

lemma hand_over_messages:
  assumes "om_get (ct_to_send s) n = Some msgs" "msgs \<noteq> []" "om_get (ct_ipport_conns s) n = Some r" "ct_objs s r = Some c"
  shows "\<exists>s'. write_item ops fac nb parse addrs n s = Some s' \<and> ct_objs s' r = Some (fold (co_WriteResp ops) msgs c) \<and> om_get (ct_to_send s') n = None"
  using assms by (simp add: write_item_def hand_over_def Let_def om_get_del)

section \<open>Where the code departs from its intent\<close>

text \<open>
  When the first address of a peer is unreachable, the messages that wait for the peer are dropped although the attempt goes
  on with the next address and may succeed.
\<close>

lemma unreachable_drops_messages:
  assumes "aa_socket a = Some fd" "aa_connect a = HostUnreachable"
  shows "\<exists>s'. connect_addrs fac nb ip port (a # as) s = connect_addrs fac nb ip port as s' \<and> om_get (ct_to_send s') (peer ip port) = None"
  using assms by (intro exI [of _ "client_CloseFd fd (peer ip port) s"]) (simp add: om_get_del)

text \<open>A connection to the thread itself is reported as failed but stays open and in the tables.\<close>

lemma self_connection_kept:
  assumes "aa_socket a = Some fd" "aa_connect a = Connected" "aa_local a = (ip, port)" "fac fd (peer ip port) = Some c"
  shows "\<exists>s'. connect_addrs fac nb ip port (a # as) s = Some (IOError, s') \<and> fd \<in> keys (ct_fd_conns s') \<and>
    (\<not> snd (Setnonblocking (nb fd)) \<longrightarrow> ot_log s' = ot_log s)"
  using assms by (auto simp: NewConnection_def Let_def om_add_def om_get_in_keys)

end
