(* ===== verification/BackendThread.thy ===== *)
theory BackendThread
  imports ClientThread
begin

text \<open>
  The backend thread (\<^verbatim>\<open>include/backend_thread.h\<close>, \<^verbatim>\<open>src/backend_thread.cc\<close>): like the client thread, but connections are
  opened by the calling thread and named by descriptor.

  The code locks \<^verbatim>\<open>mu_\<close> again while it holds it when it handles a close notification; \<open>relock\<close> says whether
  \<^verbatim>\<open>slash::Mutex\<close> allows that, otherwise the thread waits for ever.  \<open>None\<close> is a crash, undefined behaviour, or such a wait.

  The lemmas show that the operations keep the table well formed, what becomes of a message that is written, and where
  the code does not do what it means to: time-outs erase an element of the table twice, a connection made at once is not
  returned to the caller, and a message written while its connection is being closed outlives it.
\<close>

section \<open>State and calls of other threads\<close>

record 'a backend_thread = out_thread +
  bt_to_send :: "(fd, bytes list) omap"
  bt_conns :: "'a conns"

definition BackendThread_new :: "int \<Rightarrow> int \<Rightarrow> access_handle option \<Rightarrow> int option \<Rightarrow> 'a backend_thread" where
  "BackendThread_new cron_interval keepalive_timeout handle private =
     out_thread.extend (OutThread_new cron_interval keepalive_timeout handle private) \<lparr>bt_to_send = [], bt_conns = []\<rparr>"

definition backend_StartThread :: "int \<times> int option \<Rightarrow> int \<Rightarrow> 'a backend_thread \<Rightarrow> int \<times> 'a backend_thread" where
  "backend_StartThread data create s = out_StartThread data create s"

definition backend_StopThread :: "(int \<Rightarrow> int) \<Rightarrow> int \<Rightarrow> 'a backend_thread \<Rightarrow> int \<times> 'a backend_thread" where
  "backend_StopThread delete join s = out_StopThread delete join s"

definition queued_for :: "'a backend_thread \<Rightarrow> fd \<Rightarrow> bytes list" where
  "queued_for s fd = (case om_get (bt_to_send s) fd of Some ms \<Rightarrow> ms | None \<Rightarrow> [])"

definition backend_register :: "fd \<Rightarrow> bytes \<Rightarrow> NotifyType \<Rightarrow> 'a backend_thread \<Rightarrow> 'a backend_thread option" where
  "backend_register fd ip_port type s =
     map_option (\<lambda>ti. s\<lparr>ot_epoll := snd (Register ti True (ot_epoll s))\<rparr>) (PinkItem_new fd ip_port type)"

definition backend_NotifyWrite_ip :: "bytes \<Rightarrow> 'a backend_thread \<Rightarrow> 'a backend_thread option" where
  "backend_NotifyWrite_ip ip_port s = backend_register 0 ip_port kNotiWrite s"

definition backend_NotifyWrite :: "fd \<Rightarrow> 'a backend_thread \<Rightarrow> 'a backend_thread option" where
  "backend_NotifyWrite fd s = backend_register fd [] kNotiWrite s"

definition backend_NotifyClose :: "fd \<Rightarrow> 'a backend_thread \<Rightarrow> 'a backend_thread option" where
  "backend_NotifyClose fd s = backend_register fd [] kNotiClose s"

definition backend_queue :: "fd \<Rightarrow> bytes \<Rightarrow> 'a backend_thread \<Rightarrow> (slash_status \<times> 'a backend_thread) option" where
  "backend_queue fd msg s =
     (case om_get (bt_conns s) fd of
        None \<Rightarrow> Some (Corruption, s)
      | Some c \<Rightarrow>
          map_option (\<lambda>h.
            if \<not> fst (h (pc_ip_port c)) then (Corruption, s)
            else
              let msgs = queued_for s fd; s = s\<lparr>bt_to_send := om_ins fd msgs (bt_to_send s)\<rparr>
              in if sum_list (map length msgs) > kConnWriteBuf then (Corruption, s)
                 else (OK, s\<lparr>bt_to_send := om_ins fd (msgs @ [msg]) (bt_to_send s)\<rparr>)) (ot_handle s))"

definition backend_Write :: "fd \<Rightarrow> bytes \<Rightarrow> 'a backend_thread \<Rightarrow> (slash_status \<times> 'a backend_thread) option" where
  "backend_Write fd msg s =
     (case backend_queue fd msg s of
        None \<Rightarrow> None
      | Some (st, s) \<Rightarrow> if st = OK then map_option (Pair OK) (backend_NotifyWrite fd s) else Some (st, s))"

definition backend_Close :: "fd \<Rightarrow> 'a backend_thread \<Rightarrow> (slash_status \<times> 'a backend_thread) option" where
  "backend_Close fd s =
     (if om_get (bt_conns s) fd = None then Some (OK, s) else map_option (Pair OK) (backend_NotifyClose fd s))"

definition GetConn :: "fd \<Rightarrow> 'a backend_thread \<Rightarrow> 'a pink_conn_scheme option" where
  "GetConn fd s = om_get (bt_conns s) fd"

section \<open>Connecting and closing\<close>

definition backend_CleanUpConnRemaining :: "fd \<Rightarrow> 'a backend_thread \<Rightarrow> 'a backend_thread" where
  "backend_CleanUpConnRemaining fd s = s\<lparr>bt_to_send := om_del fd (bt_to_send s)\<rparr>"

definition backend_CloseConn :: "'a pink_conn_scheme \<Rightarrow> 'a backend_thread \<Rightarrow> 'a backend_thread" where
  "backend_CloseConn c s = out_call [OutFdClosed (pc_fd c) (pc_ip_port c)] (backend_CleanUpConnRemaining (pc_fd c) (out_close (pc_fd c) s))"

definition backend_CloseFd :: "fd \<Rightarrow> 'a backend_thread \<Rightarrow> 'a backend_thread" where
  "backend_CloseFd fd s = out_call [OutFdClosed fd []] (backend_CleanUpConnRemaining fd (out_close fd s))"

definition AddConnection :: "'a factory \<Rightarrow> (fd \<Rightarrow> fcntl_answers) \<Rightarrow> bytes \<Rightarrow> int \<Rightarrow> fd \<Rightarrow> 'a backend_thread \<Rightarrow> 'a backend_thread option" where
  "AddConnection fac nb peer_ip peer_port sockfd s =
     map_option (\<lambda>tc.
       let s = out_nonblock (nb sockfd) sockfd s
       in s\<lparr>bt_conns := om_add sockfd (snd (SetNonblock (nb sockfd) tc)) (bt_conns s)\<rparr>) (fac sockfd (peer peer_ip peer_port))"

text \<open>The descriptor that is stored for the caller, where one is.\<close>

fun backend_connect_addrs :: "'a factory \<Rightarrow> (fd \<Rightarrow> fcntl_answers) \<Rightarrow> bytes \<Rightarrow> int \<Rightarrow> addr_answer list \<Rightarrow> 'a backend_thread \<Rightarrow>
    (slash_status \<times> fd option \<times> 'a backend_thread) option" where
  "backend_connect_addrs fac nb ip port [] s = Some (IOError, None, s)"
| "backend_connect_addrs fac nb ip port (a # as) s =
     (case aa_socket a of
        None \<Rightarrow> backend_connect_addrs fac nb ip port as s
      | Some sockfd \<Rightarrow>
          (case aa_connect a of
             HostUnreachable \<Rightarrow> backend_connect_addrs fac nb ip port as (backend_CloseFd sockfd s)
           | InProgress \<Rightarrow>
               map_option (\<lambda>s. (OK, Some sockfd, SetWaitConnectOnEpoll (nb sockfd) sockfd s)) (AddConnection fac nb ip port sockfd s)
           | ConnectError \<Rightarrow> Some (IOError, None, backend_CloseFd sockfd s)
           | Connected \<Rightarrow>
               map_option (\<lambda>s. (if aa_local a = (ip, port) then IOError else OK, None,
                   s\<lparr>ot_epoll := snd (add_event_nb (nb sockfd) sockfd (EPOLLIN OR EPOLLOUT) (ot_epoll s))\<rparr>)) (AddConnection fac nb ip port sockfd s)))"

definition backend_Connect :: "'a factory \<Rightarrow> (fd \<Rightarrow> fcntl_answers) \<Rightarrow> bytes \<Rightarrow> int \<Rightarrow> bool \<Rightarrow> addr_answer list option \<Rightarrow> 'a backend_thread \<Rightarrow>
    (slash_status \<times> fd option \<times> 'a backend_thread) option" where
  "backend_Connect fac nb dst_ip dst_port fd_null addrs s =
     (if fd_null then Some (InvalidArgument, None, s)
      else case addrs of None \<Rightarrow> Some (IOError, None, s) | Some as \<Rightarrow> backend_connect_addrs fac nb dst_ip dst_port as s)"

section \<open>Cron task and notifications\<close>

text \<open>On a time-out the element is erased by key and then through the iterator, which is invalid by then.\<close>

fun backend_cron :: "'a conn_ops \<Rightarrow> io \<Rightarrow> timeval \<Rightarrow> int \<Rightarrow> 'a conns \<Rightarrow> 'a conns option" where
  "backend_cron ops i now ka [] = Some []"
| "backend_cron ops i now ka ((fd, c) # m) =
     (if idle_too_long ka now c then None
      else map_option (Cons (fd, co_TryResizeBuffer ops i c)) (backend_cron ops i now ka m))"

definition backend_DoCronTask :: "'a conn_ops \<Rightarrow> io \<Rightarrow> timeval \<Rightarrow> 'a backend_thread \<Rightarrow> 'a backend_thread option" where
  "backend_DoCronTask ops i now s =
     map_option (\<lambda>m. s\<lparr>bt_conns := m\<rparr>) (backend_cron ops i now (ot_keepalive_timeout s) (bt_conns s))"

definition backend_erase :: "fd \<Rightarrow> fd \<Rightarrow> 'a backend_thread \<Rightarrow> 'a backend_thread" where
  "backend_erase key fd s = s\<lparr>bt_conns := om_del key (bt_conns s), ot_connecting_fds := ot_connecting_fds s - {fd}\<rparr>"

definition backend_item :: "bool \<Rightarrow> 'a conn_ops \<Rightarrow> pink_item \<Rightarrow> 'a backend_thread \<Rightarrow> 'a backend_thread option" where
  "backend_item relock ops ti s =
     (let fd = it_fd ti
      in if it_notify_type ti = kNotiWrite then
           (case om_get (bt_conns s) fd of
              None \<Rightarrow> Some s
            | Some c \<Rightarrow>
                let s = s\<lparr>ot_epoll := snd (PinkModEvent fd 0 (EPOLLOUT OR EPOLLIN) (ot_epoll s))\<rparr>
                in (case om_get (bt_to_send s) fd of
                      None \<Rightarrow> Some s
                    | Some msgs \<Rightarrow>
                        Some (s\<lparr>bt_conns := om_ins fd (fold (co_WriteResp ops) msgs c) (bt_conns s), bt_to_send := om_del fd (bt_to_send s)\<rparr>)))
         else if it_notify_type ti = kNotiClose then
           if relock then Some (backend_erase fd fd (backend_CloseFd fd (unwatch fd s))) else None
         else Some s)"

fun backend_items :: "bool \<Rightarrow> 'a conn_ops \<Rightarrow> pink_item list \<Rightarrow> 'a backend_thread \<Rightarrow> 'a backend_thread option" where
  "backend_items relock ops [] s = Some s"
| "backend_items relock ops (ti # tis) s =
     (case backend_item relock ops ti s of None \<Rightarrow> None | Some s \<Rightarrow> backend_items relock ops tis s)"

definition backend_ProcessNotifyEvents :: "bool \<Rightarrow> 'a conn_ops \<Rightarrow> mask \<Rightarrow> 'a backend_thread \<Rightarrow> 'a backend_thread option" where
  "backend_ProcessNotifyEvents relock ops m s =
     (if has_flag m EPOLLIN then
        let (its, e) = read_items 64 (ot_epoll s) in backend_items relock ops its (s\<lparr>ot_epoll := e\<rparr>)
      else Some s)"

section \<open>The event loop\<close>

definition backend_conn_event :: "'a conn_ops \<Rightarrow> timeval \<Rightarrow> fd \<Rightarrow> out_event \<Rightarrow> 'a backend_thread \<Rightarrow> 'a backend_thread option" where
  "backend_conn_event ops now fd oe s =
     (case om_get (bt_conns s) fd of
        None \<Rightarrow> Some (unwatch fd s)
      | Some c \<Rightarrow>
          let (sc, s) = connect_outcome oe fd c s
          in (case out_serve ops oe now fd sc c (ot_epoll s) of
                None \<Rightarrow> None
              | Some (res, c, e) \<Rightarrow>
                  let s = s\<lparr>bt_conns := om_ins fd c (bt_conns s), ot_epoll := e\<rparr>
                  in (case res of
                        None \<Rightarrow> Some s
                      | Some should_close \<Rightarrow>
                          if has_flag (oe_mask oe) EPOLLERR \<or> has_flag (oe_mask oe) EPOLLHUP \<or> should_close then
                            Some (backend_erase fd (pc_fd c) (backend_CloseConn c (unwatch fd s)))
                          else Some s)))"

definition backend_event :: "bool \<Rightarrow> 'a conn_ops \<Rightarrow> timeval \<Rightarrow> out_event \<Rightarrow> 'a backend_thread \<Rightarrow> 'a backend_thread option" where
  "backend_event relock ops now oe s =
     (case oe_fd oe of
        None \<Rightarrow> backend_ProcessNotifyEvents relock ops (oe_mask oe) s
      | Some fd \<Rightarrow> backend_conn_event ops now fd oe s)"

fun backend_events :: "bool \<Rightarrow> 'a conn_ops \<Rightarrow> timeval \<Rightarrow> out_event list \<Rightarrow> 'a backend_thread \<Rightarrow> 'a backend_thread option" where
  "backend_events relock ops now [] s = Some s"
| "backend_events relock ops now (oe # oes) s =
     (case backend_event relock ops now oe s of None \<Rightarrow> None | Some s \<Rightarrow> backend_events relock ops now oes s)"

definition backend_turn :: "bool \<Rightarrow> 'a conn_ops \<Rightarrow> out_turn \<Rightarrow> timer \<times> 'a backend_thread \<Rightarrow> (timer \<times> 'a backend_thread) option" where
  "backend_turn relock ops tu = (\<lambda>(tm, s).
     let (due, tm) = timer_tick (ot_cron_interval s) (otu_now tu) tm
     in (case (if due then backend_DoCronTask ops (otu_cron_io tu) (otu_cron_now tu) (out_call [OutCron] s) else Some s) of
           None \<Rightarrow> None
         | Some s \<Rightarrow> map_option (Pair tm) (backend_events relock ops (tm_now tm) (otu_fired tu) s)))"

fun backend_loop :: "bool \<Rightarrow> 'a conn_ops \<Rightarrow> out_turn list \<Rightarrow> timer \<times> 'a backend_thread \<Rightarrow> (timer \<times> 'a backend_thread) option" where
  "backend_loop relock ops [] ts = Some ts"
| "backend_loop relock ops (tu # tus) ts =
     (case backend_turn relock ops tu ts of None \<Rightarrow> None | Some ts \<Rightarrow> backend_loop relock ops tus ts)"

definition backend_ThreadMain :: "bool \<Rightarrow> 'a conn_ops \<Rightarrow> timeval \<Rightarrow> out_turn list \<Rightarrow> 'a backend_thread \<Rightarrow> 'a backend_thread option" where
  "backend_ThreadMain relock ops t0 tus s = map_option snd (backend_loop relock ops tus (timer_start (ot_cron_interval s) t0, s))"

section \<open>The table stays well formed\<close>

definition backend_ok :: "'a backend_thread \<Rightarrow> bool" where
  "backend_ok s \<longleftrightarrow> conns_ok (bt_conns s) \<and> om_ok (bt_to_send s) \<and> ep_ok (ot_epoll s) \<and> ot_connecting_fds s \<subseteq> keys (bt_conns s)"

lemma backend_frame [simp]:
  "bt_conns (out_call cs s) = bt_conns s" "bt_to_send (out_call cs s) = bt_to_send s"
  "bt_conns (out_close fd s) = bt_conns s" "bt_to_send (out_close fd s) = bt_to_send s"
  "bt_conns (unwatch fd s) = bt_conns s" "bt_to_send (unwatch fd s) = bt_to_send s"
  "bt_conns (out_nonblock a fd s) = bt_conns s" "bt_to_send (out_nonblock a fd s) = bt_to_send s"
  "ep_ok (ot_epoll s) \<Longrightarrow> ep_ok (ot_epoll (out_nonblock a fd s))"
  "bt_conns (SetWaitConnectOnEpoll a fd s) = bt_conns s" "bt_to_send (SetWaitConnectOnEpoll a fd s) = bt_to_send s"
  by (simp_all add: out_call_def out_close_def out_nonblock_def unwatch_def SetWaitConnectOnEpoll_def)

lemma backend_CloseFd_ok [simp]: "backend_ok s \<Longrightarrow> backend_ok (backend_CloseFd fd s)"
  by (simp add: backend_ok_def backend_CloseFd_def backend_CleanUpConnRemaining_def om.ok_del)

lemma backend_new_ok [simp]: "backend_ok (BackendThread_new ci ka h p)"
  by (simp add: backend_ok_def BackendThread_new_def out_thread.defs OutThread_new_def thread.defs ep_ok_def)

lemma backend_register_ok:
  "backend_ok s \<Longrightarrow> backend_register fd ip t s = Some s' \<Longrightarrow> backend_ok s'"
  by (auto simp: backend_register_def backend_ok_def)

lemma backend_cron_map:
  "backend_cron ops i now ka m =
     (if \<exists>(fd, c) \<in> set m. idle_too_long ka now c then None else Some (map (\<lambda>(fd, c). (fd, co_TryResizeBuffer ops i c)) m))"
  by (induction ops i now ka m rule: backend_cron.induct) auto

context conn_server
begin

lemma WriteResps_fd: "pc_fd (fold (co_WriteResp ops) msgs c) = pc_fd c"
  by (induction msgs arbitrary: c) simp_all

lemma backend_item_ok:
  assumes "backend_ok s" "backend_item relock ops ti s = Some s'"
  shows "backend_ok s'"
  using assms conns_ok_get [of "bt_conns s" "it_fd ti"]
  by (auto simp: backend_item_def Let_def backend_ok_def backend_erase_def conns_ok_del om.ok_del WriteResps_fd
      backend_CloseFd_def backend_CleanUpConnRemaining_def split: if_splits option.splits intro!: conns_ok_ins)

lemma backend_items_ok: "backend_ok s \<Longrightarrow> backend_items relock ops its s = Some s' \<Longrightarrow> backend_ok s'"
  by (induction its arbitrary: s) (auto split: option.splits dest: backend_item_ok)

lemma backend_conn_event_ok:
  assumes ok: "backend_ok s" and ev: "backend_conn_event ops now fd oe s = Some s'"
  shows "backend_ok s'"
proof (cases "om_get (bt_conns s) fd")
  case None
  with ok ev show ?thesis by (auto simp: backend_conn_event_def backend_ok_def)
next
  case (Some c)
  obtain sc s1 where s1: "connect_outcome oe fd c s = (sc, s1)" by fastforce
  have t1: "backend_ok s1" "bt_conns s1 = bt_conns s"
    using s1 ok by (auto simp: connect_outcome_def Let_def backend_ok_def split: prod.splits if_splits)
  obtain res c2 e where sv: "out_serve ops oe now fd sc c (ot_epoll s1) = Some (res, c2, e)"
    using ev Some s1 by (auto simp: backend_conn_event_def split: option.splits)
  have c2: "pc_fd c2 = fd" using out_serve_same [OF sv] conns_ok_get [OF _ Some] ok by (simp add: same_conn_def backend_ok_def)
  have t2: "backend_ok (s1\<lparr>bt_conns := om_ins fd c2 (bt_conns s1), ot_epoll := e\<rparr>)"
    using t1(1) out_serve_same [OF sv] c2 by (auto simp: backend_ok_def conns_ok_ins)
  then have "backend_ok (backend_erase fd fd (backend_CloseConn c2 (unwatch fd (s1\<lparr>bt_conns := om_ins fd c2 (bt_conns s1), ot_epoll := e\<rparr>))))"
    by (auto simp: backend_ok_def backend_erase_def backend_CloseConn_def backend_CleanUpConnRemaining_def conns_ok_del om.ok_del)
  with t2 ev Some s1 sv c2 show ?thesis by (auto simp: backend_conn_event_def Let_def split: option.splits if_splits)
qed

lemma backend_event_ok:
  assumes "backend_ok s" "backend_event relock ops now oe s = Some s'"
  shows "backend_ok s'"
proof (cases "oe_fd oe")
  case None
  have "backend_ok (s\<lparr>ot_epoll := snd (read_items 64 (ot_epoll s))\<rparr>)" using assms(1) by (simp add: backend_ok_def read_items_def)
  with None assms show ?thesis
    by (auto simp: backend_event_def backend_ProcessNotifyEvents_def read_items_def split: if_splits dest: backend_items_ok)
next
  case (Some fd)
  with assms show ?thesis by (simp add: backend_event_def backend_conn_event_ok)
qed

lemma backend_events_ok: "backend_ok s \<Longrightarrow> backend_events relock ops now oes s = Some s' \<Longrightarrow> backend_ok s'"
  by (induction oes arbitrary: s) (auto split: option.splits dest: backend_event_ok)

lemma backend_DoCronTask_ok:
  assumes ok: "backend_ok s" and cron: "backend_DoCronTask ops i now s = Some s'"
  shows "backend_ok s'"
proof -
  let ?m = "map (\<lambda>(fd, c). (fd, co_TryResizeBuffer ops i c)) (bt_conns s)"
  have s': "s' = s\<lparr>bt_conns := ?m\<rparr>" using cron by (auto simp: backend_DoCronTask_def backend_cron_map split: if_splits)
  have "map fst ?m = map fst (bt_conns s)" by (simp add: split_beta)
  then have "keys ?m = keys (bt_conns s)" "om_ok ?m \<longleftrightarrow> om_ok (bt_conns s)" by (rule keys_eq) (metis om_ok_def \<open>map fst ?m = map fst (bt_conns s)\<close>)
  moreover have "\<forall>(fd, c) \<in> set ?m. pc_fd c = fd" using ok by (auto simp: backend_ok_def conns_ok_def)
  ultimately show ?thesis using ok s' by (simp add: backend_ok_def conns_ok_def)
qed

lemma backend_Connect_ok:
  assumes "backend_ok s" "\<forall>a \<in> set as. \<forall>fd. aa_socket a = Some fd \<longrightarrow> fd \<notin> keys (bt_conns s)"
    and "backend_connect_addrs fac nb ip port as s = Some (st, fdp, s')"
  shows "backend_ok s'"
  using assms
proof (induction as arbitrary: s)
  case (Cons a as)
  show ?case
  proof (cases "aa_socket a")
    case None
    with Cons show ?thesis by simp
  next
    case (Some fd)
    have add: "backend_ok s1 \<and> fd \<in> keys (bt_conns s1)" if "AddConnection fac nb ip port fd s = Some s1" for s1
      using that Cons.prems(1,2) Some fac_fd [of fd "peer ip port"]
      by (auto simp: AddConnection_def Let_def backend_ok_def om_add_fresh om_get_keys intro!: conns_ok_ins)
    show ?thesis
    proof (cases "aa_connect a")
      case HostUnreachable
      have "bt_conns (backend_CloseFd fd s) = bt_conns s" by (simp add: backend_CloseFd_def backend_CleanUpConnRemaining_def)
      with Cons.IH [of "backend_CloseFd fd s"] Cons.prems Some HostUnreachable show ?thesis by simp
    next
      case InProgress
      with Cons.prems(3) Some add show ?thesis by (auto simp: backend_ok_def) (auto simp: SetWaitConnectOnEpoll_def)
    next
      case Connected
      with Cons.prems(3) Some add show ?thesis by (auto simp: backend_ok_def)
    next
      case ConnectError
      with Cons.prems(1,3) Some show ?thesis by auto
    qed
  qed
qed simp

end

section \<open>What becomes of a message\<close>

lemma backend_queue_cases:
  assumes "om_ok (bt_to_send s)" "backend_queue fd msg s = Some (st, s')"
  shows "ot_epoll s' = ot_epoll s \<and> bt_conns s' = bt_conns s \<and> om_ok (bt_to_send s') \<and> ot_connecting_fds s' = ot_connecting_fds s \<and>
    (if st = OK then (\<exists>c. om_get (bt_conns s) fd = Some c) \<and> om_get (bt_to_send s') fd = Some (queued_for s fd @ [msg]) \<and>
       queued_for s' = (queued_for s)(fd := queued_for s fd @ [msg]) else queued_for s' = queued_for s)"
proof -
  let ?grown = "\<lambda>ms. s\<lparr>bt_to_send := om_ins fd ms (om_ins fd (queued_for s fd) (bt_to_send s))\<rparr>"
  have same: "queued_for (s\<lparr>bt_to_send := om_ins fd (queued_for s fd) (bt_to_send s)\<rparr>) = queued_for s"
    using assms(1) by (auto simp: queued_for_def om.get_ins fun_eq_iff)
  have grown: "om_get (bt_to_send (?grown ms)) fd = Some ms" "queued_for (?grown ms) = (queued_for s)(fd := ms)" "om_ok (bt_to_send (?grown ms))" for ms
    using assms(1) by (auto simp: queued_for_def om.get_ins om.ok_ins fun_eq_iff)
  show ?thesis
  proof (cases "om_get (bt_conns s) fd")
    case None
    with assms show ?thesis by (simp add: backend_queue_def)
  next
    case (Some c)
    then obtain h where "ot_handle s = Some h" using assms(2) by (auto simp: backend_queue_def)
    with Some have "backend_queue fd msg s = Some (if \<not> fst (h (pc_ip_port c)) then (Corruption, s)
        else if sum_list (map length (queued_for s fd)) > kConnWriteBuf
          then (Corruption, s\<lparr>bt_to_send := om_ins fd (queued_for s fd) (bt_to_send s)\<rparr>) else (OK, ?grown (queued_for s fd @ [msg])))"
      by (simp add: backend_queue_def Let_def)
    with assms(2) have "(st, s') \<in> {(Corruption, s), (Corruption, s\<lparr>bt_to_send := om_ins fd (queued_for s fd) (bt_to_send s)\<rparr>),
        (OK, ?grown (queued_for s fd @ [msg]))}"
      by (simp only: option.inject split: if_splits) simp_all
    then consider "st = Corruption" "s' = s" | "st = Corruption" "s' = s\<lparr>bt_to_send := om_ins fd (queued_for s fd) (bt_to_send s)\<rparr>"
      | "st = OK" "s' = ?grown (queued_for s fd @ [msg])" by blast
    then show ?thesis using assms(1) Some same grown by cases (simp_all add: om.ok_ins)
  qed
qed

lemma backend_NotifyWrite_pipe:
  "\<exists>ti. it_fd ti = fd \<and> it_notify_type ti = kNotiWrite \<and>
     backend_NotifyWrite fd s = Some (s\<lparr>ot_epoll := (ot_epoll s)\<lparr>ep_pipe := ep_pipe (ot_epoll s) @ [ti]\<rparr>\<rparr>)"
  by (rule exI [of _ "\<lparr>it_fd = fd, it_ip_port = [], it_notify_type = kNotiWrite, it_conn = None\<rparr>"])
    (simp add: backend_NotifyWrite_def backend_register_def PinkItem_new_def Register_def)

lemma backend_Write_ok:
  assumes ok: "backend_ok s" and wr: "backend_Write fd msg s = Some (st, s')"
  shows "backend_ok s'"
proof -
  obtain st1 s1 where q: "backend_queue fd msg s = Some (st1, s1)" using wr by (auto simp: backend_Write_def split: option.splits)
  have "backend_ok s1" using backend_queue_cases [OF _ q] ok by (simp add: backend_ok_def)
  with wr q show ?thesis
    by (auto simp: backend_Write_def backend_NotifyWrite_def split: if_splits dest: backend_register_ok)
qed

section \<open>Where the code departs from its intent\<close>

text \<open>A connection that is idle for too long makes the cron task use an invalid iterator.\<close>

lemma timeout_undefined:
  "(fd, c) \<in> set (bt_conns s) \<Longrightarrow> idle_too_long (ot_keepalive_timeout s) now c \<Longrightarrow> backend_DoCronTask ops i now s = None"
  by (auto simp: backend_DoCronTask_def backend_cron_map)

text \<open>With a mutex that cannot be locked twice, closing a connection stops the event thread for ever.\<close>

lemma close_waits_for_itself:
  assumes "om_get (bt_conns s) fd = Some c" "ep_pipe (ot_epoll s) = []"
  shows "\<exists>s'. backend_Close fd s = Some (OK, s') \<and> backend_ProcessNotifyEvents False ops EPOLLIN s' = None"
  using assms
  by (simp add: backend_Close_def backend_NotifyClose_def backend_register_def PinkItem_new_def Register_def
      backend_ProcessNotifyEvents_def read_items_def backend_item_def has_flag_def EPOLLIN_def)

text \<open>A connection that is established at once is reported as made, but its descriptor is not returned.\<close>

lemma connected_not_returned:
  assumes "aa_socket a = Some fd" "aa_connect a = Connected" "aa_local a \<noteq> (ip, port)" "fac fd (peer ip port) = Some c"
  shows "\<exists>s'. backend_Connect fac nb ip port False (Some (a # as)) s = Some (OK, None, s')"
  using assms by (simp add: backend_Connect_def AddConnection_def)

text \<open>
  A message written between the clean-up of a connection and its removal from the table stays queued under a descriptor
  that has no connection: a later connection with the same descriptor would send it to another peer.
\<close>

lemma late_write_outlives:
  assumes "backend_ok s" "om_get (bt_conns s) fd = Some c" "ot_handle s = Some (\<lambda>ip. (True, ip))"
  shows "\<exists>s'. backend_queue fd msg (backend_CloseConn c s) = Some (OK, s') \<and>
    queued_for (backend_erase fd fd s') fd = [msg] \<and> om_get (bt_conns (backend_erase fd fd s')) fd = None"
proof -
  have fd: "pc_fd c = fd" and ok: "om_ok (bt_to_send s)" using assms conns_ok_get by (auto simp: backend_ok_def)
  let ?s = "backend_CloseConn c s"
  have "om_get (bt_conns ?s) fd = Some c" "queued_for ?s fd = []" "ot_handle ?s = Some (\<lambda>ip. (True, ip))" "om_ok (bt_to_send ?s)"
    using assms fd ok by (simp_all add: backend_CloseConn_def backend_CleanUpConnRemaining_def out_call_def out_close_def queued_for_def om_get_del om.ok_del)
  then show ?thesis by (simp add: backend_queue_def backend_erase_def Let_def) (simp add: queued_for_def om.get_ins om.ok_ins om_get_del)
qed

end
