(* ===== verification/WorkerThread.thy ===== *)
theory WorkerThread
  imports ConnTable
begin

text \<open>
  A worker of the dispatching server (\<^verbatim>\<open>src/worker_thread.h\<close>, \<^verbatim>\<open>src/worker_thread.cc\<close>): the
  notification items, the events of connections, the cron task, kill requests and the clean-up.

  \<open>worker_step\<close> is one action of the worker or of a caller of its interface, labelled by what it does
  with descriptors.  The epoll events hold raw pointers to connections: an event of a connection
  that is not in the table any more is \<open>None\<close>, the access to an object that is gone.  The invariant
  \<open>worker_ok\<close> excludes it; \<open>held\<close> are the descriptors the worker answers for.

  The steps take a connection that was moved in as still present when its \<^verbatim>\<open>kNotiWait\<close> item is read.
  The measurement of times (\<^verbatim>\<open>metric_info\<close>) is left out.
\<close>

section \<open>The worker\<close>

record 'a worker = thread +
  wk_conns :: "'a conns"
  wk_epoll :: pink_epoll
  wk_cron_interval :: int
  wk_keepalive_timeout :: int
  wk_deleting_conn_ipport :: "bytes set"
  wk_log :: "server_call list"
  wk_private_data :: "int option"

definition WorkerThread_new :: "int \<Rightarrow> 'a worker" where
  "WorkerThread_new cron_interval = thread.extend Thread_new
     \<lparr>wk_conns = [], wk_epoll = \<lparr>ep_events = [], ep_pipe = []\<rparr>, wk_cron_interval = cron_interval,
      wk_keepalive_timeout = kDefaultKeepAliveTime, wk_deleting_conn_ipport = {}, wk_log = [],
      wk_private_data = None\<rparr>"

definition worker_set_keepalive_timeout :: "int \<Rightarrow> 'a worker \<Rightarrow> 'a worker" where
  "worker_set_keepalive_timeout timeout w = w\<lparr>wk_keepalive_timeout := timeout\<rparr>"

definition worker_conn_num :: "'a worker \<Rightarrow> nat" where
  "worker_conn_num w = length (wk_conns w)"

definition worker_conns_info :: "'a worker \<Rightarrow> conn_info list" where
  "worker_conns_info w = table_info (wk_conns w)"

definition worker_CloseFd :: "'a pink_conn_scheme \<Rightarrow> 'a worker \<Rightarrow> 'a worker" where
  "worker_CloseFd c w = w\<lparr>wk_epoll := sys_close (pc_fd c) (wk_epoll w),
     wk_log := wk_log w @ [Close (pc_fd c), FdClosedHandle (pc_fd c) (pc_ip_port c)]\<rparr>"

definition worker_MoveConnOut :: "fd \<Rightarrow> 'a worker \<Rightarrow> 'a pink_conn_scheme option \<times> 'a worker" where
  "worker_MoveConnOut fd w =
     (case om_get (wk_conns w) fd of
        None \<Rightarrow> (None, w)
      | Some c \<Rightarrow> (Some c, w\<lparr>wk_epoll := snd (PinkDelEvent fd (wk_epoll w)), wk_conns := om_del fd (wk_conns w)\<rparr>))"

definition worker_MoveItemIn :: "pink_item \<Rightarrow> bool \<Rightarrow> 'a worker \<Rightarrow> bool \<times> 'a worker" where
  "worker_MoveItemIn it force w =
     (let (ok, e) = Register it force (wk_epoll w) in (ok, w\<lparr>wk_epoll := e\<rparr>))"

definition worker_MoveConnIn :: "'a pink_conn_scheme \<Rightarrow> NotifyType \<Rightarrow> bool \<Rightarrow> 'a worker \<Rightarrow> (bool \<times> 'a worker) option" where
  "worker_MoveConnIn c notify_type force w =
     (case PinkItem_new (pc_fd c) (pc_ip_port c) notify_type of
        None \<Rightarrow> None
      | Some it \<Rightarrow>
          let (success, w) = worker_MoveItemIn (it\<lparr>it_conn := Some (pc_fd c)\<rparr>) force w
          in Some (success, if success then w\<lparr>wk_conns := om_ins (pc_fd c) c (wk_conns w)\<rparr> else w))"

section \<open>Notifications\<close>

text \<open>
  \<open>fac\<close> is the user's \<^verbatim>\<open>ConnFactory\<close>, which may return a null pointer; \<open>nb\<close> gives the answers of \<^verbatim>\<open>fcntl\<close> to
  \<^verbatim>\<open>Setnonblocking\<close>, which closes the descriptor when it fails.
  \<open>None\<close> is a failed assertion.
\<close>

definition worker_connect :: "'a factory \<Rightarrow> (fd \<Rightarrow> fcntl_answers) \<Rightarrow> pink_item \<Rightarrow> 'a worker \<Rightarrow> 'a worker" where
  "worker_connect fac nb it w =
     (case fac (it_fd it) (cstr (it_ip_port it)) of
        None \<Rightarrow> w
      | Some tc \<Rightarrow>
          let (ok, tc) = SetNonblock (nb (it_fd it)) tc;
              w = (if snd (Setnonblocking (nb (it_fd it)))
                   then w\<lparr>wk_epoll := sys_close (it_fd it) (wk_epoll w), wk_log := wk_log w @ [Close (it_fd it)]\<rparr> else w)
          in if \<not> ok then w
             else w\<lparr>wk_conns := om_ins (it_fd it) tc (wk_conns w),
                    wk_epoll := snd (PinkAddEvent (pc_fd tc) EPOLLIN (wk_epoll w))\<rparr>)"

definition worker_mod :: "pink_item \<Rightarrow> mask \<Rightarrow> 'a worker \<Rightarrow> 'a worker option" where
  "worker_mod it m w =
     map_option (\<lambda>fd. w\<lparr>wk_epoll := snd (PinkModEvent fd 0 m (wk_epoll w))\<rparr>) (it_conn it)"

definition worker_item :: "'a factory \<Rightarrow> (fd \<Rightarrow> fcntl_answers) \<Rightarrow> pink_item \<Rightarrow> 'a worker \<Rightarrow> 'a worker option" where
  "worker_item fac nb it w =
     (case it_notify_type it of
        kNotiConnect \<Rightarrow> Some (worker_connect fac nb it w)
      | kNotiClose \<Rightarrow> Some w
      | kNotiEpollout \<Rightarrow> worker_mod it EPOLLOUT w
      | kNotiEpollin \<Rightarrow> worker_mod it EPOLLIN w
      | kNotiEpolloutAndEpollin \<Rightarrow> worker_mod it (EPOLLOUT OR EPOLLIN) w
      | kNotiWrite \<Rightarrow> Some w
      | kNotiWait \<Rightarrow> map_option (\<lambda>fd. w\<lparr>wk_epoll := snd (PinkAddEvent fd 0 (wk_epoll w))\<rparr>) (it_conn it))"

fun worker_items :: "'a factory \<Rightarrow> (fd \<Rightarrow> fcntl_answers) \<Rightarrow> pink_item list \<Rightarrow> 'a worker \<Rightarrow> 'a worker option" where
  "worker_items fac nb [] w = Some w"
| "worker_items fac nb (it # its) w =
     (case worker_item fac nb it w of None \<Rightarrow> None | Some w' \<Rightarrow> worker_items fac nb its w')"

text \<open>At most 64 items are read from the pipe in one go.\<close>

definition worker_notify :: "'a factory \<Rightarrow> (fd \<Rightarrow> fcntl_answers) \<Rightarrow> mask \<Rightarrow> 'a worker \<Rightarrow> 'a worker option" where
  "worker_notify fac nb m w =
     (if \<not> has_flag m EPOLLIN then Some w
      else let (its, e) = read_items 64 (wk_epoll w) in worker_items fac nb its (w\<lparr>wk_epoll := e\<rparr>))"

section \<open>Events of connections\<close>

text \<open>
  The two halves of the handler.  The first component of the result is \<^verbatim>\<open>should_close\<close>, or \<open>None\<close> for
  \<^verbatim>\<open>continue\<close>: the rest of the handler is skipped.
\<close>

definition worker_write :: "'a conn_ops \<Rightarrow> io \<Rightarrow> mask \<Rightarrow> timeval \<Rightarrow> 'a pink_conn_scheme \<Rightarrow> pink_epoll \<Rightarrow>
    (bool option \<times> 'a pink_conn_scheme \<times> pink_epoll) option" where
  "worker_write ops i m now c e =
     (if has_flag m EPOLLOUT \<and> co_is_reply ops c then
        case co_SendReply ops i c of
          None \<Rightarrow> None
        | Some (write_status, c) \<Rightarrow>
            let c = set_last_interaction now c
            in (case write_status of
                  kWriteAll \<Rightarrow>
                    let c' = co_set_is_reply ops False c
                    in Some (Some (pc_is_quit c'), c', snd (PinkModEvent (pc_fd c) 0 EPOLLIN e))
                | kWriteHalf \<Rightarrow> Some (None, c, e)
                | kWriteError \<Rightarrow> Some (Some True, c, e))
      else Some (Some False, c, e))"

definition worker_read :: "'a conn_ops \<Rightarrow> io \<Rightarrow> mask \<Rightarrow> timeval \<Rightarrow> bool \<Rightarrow> 'a pink_conn_scheme \<Rightarrow> pink_epoll \<Rightarrow>
    (bool option \<times> 'a pink_conn_scheme \<times> pink_epoll) option" where
  "worker_read ops i m now should_close c e =
     (if \<not> should_close \<and> has_flag m EPOLLIN then
        let c = (if pc_is_partial_request c then c else set_is_partial_request True c)
        in (case co_GetRequest ops i c of
              None \<Rightarrow> None
            | Some (read_status, c) \<Rightarrow>
                let c = set_last_interaction now c
                in if read_status = kReadAll then
                     Some (Some False, set_is_partial_request False c, snd (PinkModEvent (pc_fd c) 0 0 e))
                   else if read_status = kReadHalf then Some (None, c, e)
                   else Some (Some True, c, e))
      else Some (Some should_close, c, e))"

definition worker_store :: "fd \<Rightarrow> 'a pink_conn_scheme \<Rightarrow> pink_epoll \<Rightarrow> 'a worker \<Rightarrow> 'a worker" where
  "worker_store fd c e w = w\<lparr>wk_conns := om_ins fd c (wk_conns w), wk_epoll := e\<rparr>"

definition worker_finish :: "fd \<Rightarrow> mask \<Rightarrow> bool \<Rightarrow> 'a pink_conn_scheme \<Rightarrow> pink_epoll \<Rightarrow> 'a worker \<Rightarrow> 'a worker" where
  "worker_finish fd m should_close c e w =
     (if has_flag m EPOLLERR \<or> has_flag m EPOLLHUP \<or> should_close then
        let w = worker_CloseFd c (worker_store fd c (snd (PinkDelEvent (pc_fd c) e)) w)
        in w\<lparr>wk_conns := om_del fd (wk_conns w)\<rparr>
      else worker_store fd c e w)"

definition worker_conn_event :: "'a conn_ops \<Rightarrow> io \<Rightarrow> mask \<Rightarrow> timeval \<Rightarrow> fd \<Rightarrow> 'a worker \<Rightarrow> 'a worker option" where
  "worker_conn_event ops i m now fd w =
     (case om_get (wk_conns w) fd of
        None \<Rightarrow> None
      | Some c \<Rightarrow>
          if pc_is_waiting_del c then
            Some (w\<lparr>wk_epoll := snd (PinkDelEvent fd (wk_epoll w)), wk_conns := om_del fd (wk_conns w)\<rparr>)
          else
            (case worker_write ops i m now c (wk_epoll w) of
               None \<Rightarrow> None
             | Some (None, c, e) \<Rightarrow> Some (worker_store fd c e w)
             | Some (Some sc, c, e) \<Rightarrow>
                 (case worker_read ops i m now sc c e of
                    None \<Rightarrow> None
                  | Some (None, c, e) \<Rightarrow> Some (worker_store fd c e w)
                  | Some (Some sc, c, e) \<Rightarrow> Some (worker_finish fd m sc c e w))))"

section \<open>Cron task, kill requests, clean-up\<close>

definition worker_FdTimeout :: "'a pink_conn_scheme \<Rightarrow> 'a worker \<Rightarrow> 'a worker" where
  "worker_FdTimeout c w = w\<lparr>wk_log := wk_log w @ [FdTimeoutHandle (pc_fd c) (pc_ip_port c)]\<rparr>"

definition worker_DoCronTask :: "'a conn_ops \<Rightarrow> io \<Rightarrow> timeval \<Rightarrow> 'a worker \<Rightarrow> 'a worker" where
  "worker_DoCronTask ops i now w =
     (if kKillAllConnsTask \<in> wk_deleting_conn_ipport w then
        w\<lparr>wk_conns := [], wk_deleting_conn_ipport := {}\<rparr>
      else
        let (del, keep, to_close, to_timeout) =
              cron_walk delayed_del (co_TryResizeBuffer ops i) (wk_keepalive_timeout w) now
                (wk_deleting_conn_ipport w) (wk_conns w);
            w = w\<lparr>wk_conns := keep, wk_deleting_conn_ipport := del\<rparr>
        in fold (\<lambda>c w. worker_FdTimeout c (worker_CloseFd c w)) to_timeout (fold worker_CloseFd to_close w))"

definition worker_TryKillConn :: "bytes \<Rightarrow> 'a worker \<Rightarrow> bool \<times> 'a worker" where
  "worker_TryKillConn ip_port w =
     (let (find, m) = (if ip_port \<noteq> kKillAllConnsTask then find_ip_port delayed_del ip_port (wk_conns w)
                       else (False, wk_conns w));
          w = w\<lparr>wk_conns := m\<rparr>
      in if find \<or> ip_port = kKillAllConnsTask then
           (True, w\<lparr>wk_deleting_conn_ipport := insert ip_port (wk_deleting_conn_ipport w)\<rparr>)
         else (False, w))"

definition worker_Cleanup :: "'a worker \<Rightarrow> 'a worker" where
  "worker_Cleanup w = fold (\<lambda>(fd, c). worker_CloseFd c) (wk_conns w) (w\<lparr>wk_conns := []\<rparr>)"

section \<open>The loop\<close>

definition worker_event :: "'a conn_ops \<Rightarrow> 'a factory \<Rightarrow> (fd \<Rightarrow> fcntl_answers) \<Rightarrow> timeval \<Rightarrow> fired_event \<Rightarrow> 'a worker \<Rightarrow> 'a worker option" where
  "worker_event ops fac nb now fe w =
     (case fe_fd fe of
        None \<Rightarrow> worker_notify fac nb (fe_mask fe) w
      | Some fd \<Rightarrow> worker_conn_event ops (fe_io fe) (fe_mask fe) now fd w)"

fun worker_events :: "'a conn_ops \<Rightarrow> 'a factory \<Rightarrow> (fd \<Rightarrow> fcntl_answers) \<Rightarrow> timeval \<Rightarrow> fired_event list \<Rightarrow> 'a worker \<Rightarrow> 'a worker option" where
  "worker_events ops fac nb now [] w = Some w"
| "worker_events ops fac nb now (fe # fes) w =
     (case worker_event ops fac nb now fe w of None \<Rightarrow> None | Some w' \<Rightarrow> worker_events ops fac nb now fes w')"

definition worker_turn :: "'a conn_ops \<Rightarrow> 'a factory \<Rightarrow> (fd \<Rightarrow> fcntl_answers) \<Rightarrow> turn \<Rightarrow> timer \<times> 'a worker \<Rightarrow> (timer \<times> 'a worker) option" where
  "worker_turn ops fac nb tu = (\<lambda>(tm, w).
     let (due, tm) = timer_tick (wk_cron_interval w) (tu_now tu) tm;
         w = (if due then worker_DoCronTask ops (tu_cron_io tu) (tu_cron_now tu) w else w)
     in map_option (Pair tm) (worker_events ops fac nb (tm_now tm) (tu_fired tu) w))"

fun worker_loop :: "'a conn_ops \<Rightarrow> 'a factory \<Rightarrow> (fd \<Rightarrow> fcntl_answers) \<Rightarrow> turn list \<Rightarrow> timer \<times> 'a worker \<Rightarrow> (timer \<times> 'a worker) option" where
  "worker_loop ops fac nb [] tw = Some tw"
| "worker_loop ops fac nb (tu # tus) tw =
     (case worker_turn ops fac nb tu tw of None \<Rightarrow> None | Some tw' \<Rightarrow> worker_loop ops fac nb tus tw')"

definition worker_ThreadMain :: "'a conn_ops \<Rightarrow> 'a factory \<Rightarrow> (fd \<Rightarrow> fcntl_answers) \<Rightarrow> timeval \<Rightarrow> turn list \<Rightarrow> 'a worker \<Rightarrow> 'a worker option" where
  "worker_ThreadMain ops fac nb t0 tus w =
     map_option (\<lambda>(tm, w). worker_Cleanup w) (worker_loop ops fac nb tus (timer_start (wk_cron_interval w) t0, w))"

section \<open>Invariant and ownership\<close>

definition worker_ok :: "'a worker \<Rightarrow> bool" where
  "worker_ok w \<longleftrightarrow> conns_ok (wk_conns w) \<and> ep_ok (wk_epoll w) \<and>
     watched (wk_epoll w) \<subseteq> keys (wk_conns w)"

definition awaiting :: "'a worker \<Rightarrow> fd set" where
  "awaiting w = it_fd ` {it \<in> set (ep_pipe (wk_epoll w)). it_notify_type it = kNotiConnect}"

definition held :: "'a worker \<Rightarrow> fd set" where
  "held w = keys (wk_conns w) \<union> awaiting w"

text \<open>Going from \<open>w\<close> to \<open>w'\<close>, what is held and not given away is still held, or closed and reported.\<close>

definition accounts :: "fd set \<Rightarrow> 'a worker \<Rightarrow> 'a worker \<Rightarrow> bool" where
  "accounts given w w' \<longleftrightarrow> (\<exists>L. wk_log w' = wk_log w @ L \<and> held w \<subseteq> held w' \<union> closed_in L \<union> given \<and>
     closed_in L \<subseteq> reported_in L)"

text \<open>
  Labels: \<open>Dropping\<close> is a step on which the code gives up a descriptor without closing it, \<open>KillAll\<close>
  the cron task that answers \<^verbatim>\<open>KillAllConns\<close>; \<open>Given\<close> and \<open>MovedOut\<close> are steps of the callers that hand a
  descriptor to the worker or take one away.
\<close>

datatype wk_label = Run | Dropping | KillAll | Given fd | MovedOut fd

definition connects_ok :: "'a factory \<Rightarrow> (fd \<Rightarrow> fcntl_answers) \<Rightarrow> pink_item list \<Rightarrow> bool" where
  "connects_ok fac nb its \<longleftrightarrow>
     (\<forall>it \<in> set its. it_notify_type it = kNotiConnect \<longrightarrow> fac (it_fd it) (cstr (it_ip_port it)) \<noteq> None \<and> \<not> snd (Setnonblocking (nb (it_fd it))))"

definition waits_present :: "pink_item list \<Rightarrow> 'a worker \<Rightarrow> bool" where
  "waits_present its w \<longleftrightarrow>
     (\<forall>it \<in> set its. it_notify_type it = kNotiWait \<longrightarrow> set_option (it_conn it) \<subseteq> keys (wk_conns w))"

definition marked :: "fd \<Rightarrow> 'a worker \<Rightarrow> bool" where
  "marked fd w \<longleftrightarrow> (case om_get (wk_conns w) fd of None \<Rightarrow> False | Some c \<Rightarrow> pc_is_waiting_del c)"

inductive worker_step :: "'a conn_ops \<Rightarrow> 'a factory \<Rightarrow> wk_label \<Rightarrow> 'a worker \<Rightarrow> 'a worker \<Rightarrow> bool" for ops fac where
  step_notify: "worker_notify fac nb m w = Some w' \<Longrightarrow> waits_present (take 64 (ep_pipe (wk_epoll w))) w \<Longrightarrow>
    worker_step ops fac (if connects_ok fac nb (take 64 (ep_pipe (wk_epoll w))) then Run else Dropping) w w'"
| step_event: "fd \<in> watched (wk_epoll w) \<Longrightarrow> worker_conn_event ops i m now fd w = Some w' \<Longrightarrow>
    worker_step ops fac (if marked fd w then Dropping else Run) w w'"
| step_cron: "worker_step ops fac (if kKillAllConnsTask \<in> wk_deleting_conn_ipport w then KillAll else Run) w
    (worker_DoCronTask ops i now w)"
| step_kill: "worker_step ops fac Run w (snd (worker_TryKillConn ip_port w))"
| step_item: "worker_step ops fac (if it_notify_type it = kNotiConnect then Given (it_fd it) else Run) w
    (snd (worker_MoveItemIn it force w))"
| step_move_in: "worker_MoveConnIn c notify_type force w = Some (ok, w') \<Longrightarrow> worker_step ops fac (Given (pc_fd c)) w w'"
| step_move_out: "worker_step ops fac (MovedOut fd) w (snd (worker_MoveConnOut fd w))"
| step_keepalive: "worker_step ops fac Run w (worker_set_keepalive_timeout timeout w)"
| step_cleanup: "worker_step ops fac Run w (worker_Cleanup w)"

inductive worker_run :: "'a conn_ops \<Rightarrow> 'a factory \<Rightarrow> wk_label list \<Rightarrow> 'a worker \<Rightarrow> 'a worker \<Rightarrow> bool" for ops fac where
  run_none: "worker_run ops fac [] w w"
| run_step: "worker_step ops fac l w w' \<Longrightarrow> worker_run ops fac ls w' w'' \<Longrightarrow> worker_run ops fac (l # ls) w w''"

inductive_cases worker_run_ConsE: "worker_run ops fac (l # ls) w w''"
inductive_cases worker_run_NilE: "worker_run ops fac [] w w''"

definition moved_out :: "wk_label list \<Rightarrow> fd set" where
  "moved_out ls = {fd. MovedOut fd \<in> set ls}"

subsection \<open>Frames\<close>

lemma accounts_refl [simp]: "accounts G w w"
  unfolding accounts_def by (rule exI [of _ "[]"]) auto

lemma accounts_trans:
  assumes "accounts G w w'" "accounts G' w' w''"
  shows "accounts (G \<union> G') w w''"
proof -
  obtain L where L: "wk_log w' = wk_log w @ L" "held w \<subseteq> held w' \<union> closed_in L \<union> G" "closed_in L \<subseteq> reported_in L"
    using assms(1) by (auto simp: accounts_def)
  obtain L' where L': "wk_log w'' = wk_log w' @ L'" "held w' \<subseteq> held w'' \<union> closed_in L' \<union> G'" "closed_in L' \<subseteq> reported_in L'"
    using assms(2) by (auto simp: accounts_def)
  show ?thesis unfolding accounts_def
    by (rule exI [of _ "L @ L'"]) (use L L' in auto)
qed

lemma accounts_same_log: "wk_log w' = wk_log w \<Longrightarrow> held w \<subseteq> held w' \<union> G \<Longrightarrow> accounts G w w'"
  unfolding accounts_def by (rule exI [of _ "[]"]) auto

lemma CloseFd_frame [simp]:
  "wk_conns (worker_CloseFd c w) = wk_conns w"
  "ep_pipe (wk_epoll (worker_CloseFd c w)) = ep_pipe (wk_epoll w)"
  "ep_ok (wk_epoll w) \<Longrightarrow> ep_ok (wk_epoll (worker_CloseFd c w))"
  "wk_log (worker_CloseFd c w) = wk_log w @ [Close (pc_fd c), FdClosedHandle (pc_fd c) (pc_ip_port c)]"
  "wk_deleting_conn_ipport (worker_CloseFd c w) = wk_deleting_conn_ipport w"
  by (simp_all add: worker_CloseFd_def)

lemma CloseFd_events:
  "watched (wk_epoll (worker_CloseFd c w)) = watched (wk_epoll w) - {pc_fd c}"
  by (simp add: worker_CloseFd_def)

lemma FdTimeout_frame [simp]:
  "wk_conns (worker_FdTimeout c w) = wk_conns w" "wk_epoll (worker_FdTimeout c w) = wk_epoll w"
  "wk_log (worker_FdTimeout c w) = wk_log w @ [FdTimeoutHandle (pc_fd c) (pc_ip_port c)]"
  "wk_deleting_conn_ipport (worker_FdTimeout c w) = wk_deleting_conn_ipport w"
  by (simp_all add: worker_FdTimeout_def)

text \<open>Closing a list of connections, one after the other, with or without the time-out report.\<close>

lemma fold_close:
  assumes "\<And>c w. wk_conns (f c w) = wk_conns w" "\<And>c w. ep_pipe (wk_epoll (f c w)) = ep_pipe (wk_epoll w)"
    "\<And>c w. ep_ok (wk_epoll w) \<Longrightarrow> ep_ok (wk_epoll (f c w))" "\<And>c w. wk_log (f c w) = wk_log w @ g c"
    "\<And>c w. watched (wk_epoll (f c w)) = watched (wk_epoll w) - {h c}"
  shows "wk_conns (fold f cs w) = wk_conns w \<and> ep_pipe (wk_epoll (fold f cs w)) = ep_pipe (wk_epoll w) \<and>
    (ep_ok (wk_epoll w) \<longrightarrow> ep_ok (wk_epoll (fold f cs w))) \<and> wk_log (fold f cs w) = wk_log w @ concat (map g cs) \<and>
    watched (wk_epoll (fold f cs w)) = watched (wk_epoll w) - h ` set cs"
  by (induction cs arbitrary: w) (auto simp: assms)

lemma fold_CloseFd:
  "wk_conns (fold worker_CloseFd cs w) = wk_conns w \<and> ep_pipe (wk_epoll (fold worker_CloseFd cs w)) = ep_pipe (wk_epoll w) \<and>
   (ep_ok (wk_epoll w) \<longrightarrow> ep_ok (wk_epoll (fold worker_CloseFd cs w))) \<and>
   wk_log (fold worker_CloseFd cs w) = wk_log w @ concat (map close_calls cs) \<and>
   watched (wk_epoll (fold worker_CloseFd cs w)) =
     watched (wk_epoll w) - pc_fd ` set cs"
  by (rule fold_close) (simp_all add: close_calls_def CloseFd_events)

lemma fold_timeout:
  "wk_conns (fold (\<lambda>c w. worker_FdTimeout c (worker_CloseFd c w)) cs w) = wk_conns w \<and>
   ep_pipe (wk_epoll (fold (\<lambda>c w. worker_FdTimeout c (worker_CloseFd c w)) cs w)) = ep_pipe (wk_epoll w) \<and>
   (ep_ok (wk_epoll w) \<longrightarrow> ep_ok (wk_epoll (fold (\<lambda>c w. worker_FdTimeout c (worker_CloseFd c w)) cs w))) \<and>
   wk_log (fold (\<lambda>c w. worker_FdTimeout c (worker_CloseFd c w)) cs w) = wk_log w @ concat (map timeout_calls cs) \<and>
   watched (wk_epoll (fold (\<lambda>c w. worker_FdTimeout c (worker_CloseFd c w)) cs w)) =
     watched (wk_epoll w) - pc_fd ` set cs"
  by (rule fold_close) (simp_all add: close_calls_def timeout_calls_def CloseFd_events)

lemma fold_cleanup:
  "wk_conns (fold (\<lambda>(fd, c). worker_CloseFd c) m w) = wk_conns w \<and>
   ep_pipe (wk_epoll (fold (\<lambda>(fd, c). worker_CloseFd c) m w)) = ep_pipe (wk_epoll w) \<and>
   (ep_ok (wk_epoll w) \<longrightarrow> ep_ok (wk_epoll (fold (\<lambda>(fd, c). worker_CloseFd c) m w))) \<and>
   wk_log (fold (\<lambda>(fd, c). worker_CloseFd c) m w) = wk_log w @ concat (map (\<lambda>p. close_calls (snd p)) m) \<and>
   watched (wk_epoll (fold (\<lambda>(fd, c). worker_CloseFd c) m w)) =
     watched (wk_epoll w) - (\<lambda>p. pc_fd (snd p)) ` set m"
  by (rule fold_close) (auto simp: close_calls_def CloseFd_events)

subsection \<open>The operations of the interface\<close>

lemma Cleanup_ok: "worker_ok w \<Longrightarrow> worker_ok (worker_Cleanup w)"
  using fold_cleanup [of "wk_conns w" "w\<lparr>wk_conns := []\<rparr>"]
  by (auto simp: worker_ok_def worker_Cleanup_def keys_fds)

lemma Cleanup_accounts: "worker_ok w \<Longrightarrow> accounts G w (worker_Cleanup w)"
  using fold_cleanup [of "wk_conns w" "w\<lparr>wk_conns := []\<rparr>"] keys_fds [of "wk_conns w"]
  unfolding accounts_def
  by (intro exI [of _ "concat (map (\<lambda>p. close_calls (snd p)) (wk_conns w))"])
    (auto simp: worker_ok_def worker_Cleanup_def held_def awaiting_def)

lemma TryKillConn_ok: "worker_ok w \<Longrightarrow> worker_ok (snd (worker_TryKillConn ip w))"
  by (auto simp: worker_ok_def worker_TryKillConn_def Let_def split_beta intro: find_ip_port_conns_ok)

lemma TryKillConn_accounts: "accounts G w (snd (worker_TryKillConn ip w))"
  by (rule accounts_same_log)
    (auto simp: worker_TryKillConn_def held_def awaiting_def Let_def split_beta)

lemma MoveItemIn_ok: "worker_ok w \<Longrightarrow> worker_ok (snd (worker_MoveItemIn it force w))"
  by (simp add: worker_ok_def worker_MoveItemIn_def Register_def)

lemma MoveItemIn_accounts: "accounts G w (snd (worker_MoveItemIn it force w))"
  by (rule accounts_same_log) (auto simp: worker_MoveItemIn_def Register_def held_def awaiting_def)

lemma MoveConnIn_ok: "worker_ok w \<Longrightarrow> worker_MoveConnIn c t force w = Some (ok, w') \<Longrightarrow> worker_ok w'"
  by (auto simp: worker_ok_def worker_MoveConnIn_def worker_MoveItemIn_def Register_def 
      conns_ok_ins split: option.splits)

lemma MoveConnIn_accounts:
  "worker_ok w \<Longrightarrow> worker_MoveConnIn c t force w = Some (ok, w') \<Longrightarrow> accounts G w w'"
  by (rule accounts_same_log)
    (auto simp: worker_ok_def worker_MoveConnIn_def worker_MoveItemIn_def Register_def held_def awaiting_def 
      split: option.splits)

lemma MoveConnOut_ok: "worker_ok w \<Longrightarrow> worker_ok (snd (worker_MoveConnOut fd w))"
  by (auto simp: worker_ok_def worker_MoveConnOut_def conns_ok_del split: option.splits)

lemma MoveConnOut_accounts: "worker_ok w \<Longrightarrow> accounts {fd} w (snd (worker_MoveConnOut fd w))"
  by (rule accounts_same_log)
    (auto simp: worker_ok_def worker_MoveConnOut_def held_def awaiting_def split: option.splits)

lemma keepalive_ok: "worker_ok w \<Longrightarrow> worker_ok (worker_set_keepalive_timeout t w)"
  by (simp add: worker_ok_def worker_set_keepalive_timeout_def)

lemma keepalive_accounts: "accounts G w (worker_set_keepalive_timeout t w)"
  by (rule accounts_same_log) (auto simp: worker_set_keepalive_timeout_def held_def awaiting_def)

lemma Cleanup_held: "held (worker_Cleanup w) \<subseteq> held w"
  using fold_cleanup [of "wk_conns w" "w\<lparr>wk_conns := []\<rparr>"] by (auto simp: worker_Cleanup_def held_def awaiting_def)

lemma TryKillConn_held: "held (snd (worker_TryKillConn ip w)) = held w"
  by (auto simp: worker_TryKillConn_def held_def awaiting_def Let_def split_beta)

lemma MoveItemIn_held:
  "held (snd (worker_MoveItemIn it force w)) = held w \<union> (if it_notify_type it = kNotiConnect then {it_fd it} else {})"
  by (auto simp: worker_MoveItemIn_def Register_def held_def awaiting_def)

lemma MoveConnIn_held:
  "worker_MoveConnIn c t force w = Some (ok, w') \<Longrightarrow> held w' \<subseteq> insert (pc_fd c) (held w)"
  by (auto simp: worker_MoveConnIn_def worker_MoveItemIn_def Register_def held_def awaiting_def PinkItem_new_def
      split: if_splits)

lemma MoveConnOut_held: "held (snd (worker_MoveConnOut fd w)) \<subseteq> held w"
  by (auto simp: worker_MoveConnOut_def held_def awaiting_def split: option.splits)

subsection \<open>The worker with a connection class and a factory\<close>

context conn_server
begin

lemma connect_ok: "worker_ok w \<Longrightarrow> worker_ok (worker_connect fac nb it w)"
  using fac_fd by (auto simp: worker_ok_def worker_connect_def SetNonblock_def Setnonblocking_closes Let_def conns_ok_ins split: option.splits)

lemma connect_keys: "keys (wk_conns w) \<subseteq> keys (wk_conns (worker_connect fac nb it w))"
  by (auto simp: worker_connect_def SetNonblock_def Setnonblocking_closes Let_def split: option.splits)

lemma connect_frame [simp]:
  "\<not> snd (Setnonblocking (nb (it_fd it))) \<Longrightarrow> wk_log (worker_connect fac nb it w) = wk_log w"
  "ep_pipe (wk_epoll (worker_connect fac nb it w)) = ep_pipe (wk_epoll w)"
  by (auto simp: worker_connect_def SetNonblock_def Setnonblocking_closes Let_def split: option.splits)

lemma connect_done:
  "fac (it_fd it) (cstr (it_ip_port it)) \<noteq> None \<Longrightarrow> \<not> snd (Setnonblocking (nb (it_fd it))) \<Longrightarrow>
   it_fd it \<in> keys (wk_conns (worker_connect fac nb it w))"
  by (auto simp: worker_connect_def SetNonblock_def Setnonblocking_closes Let_def)

lemma item_ok:
  assumes "worker_item fac nb it w = Some w'" "worker_ok w" "waits_present [it] w"
  shows "worker_ok w' \<and> keys (wk_conns w) \<subseteq> keys (wk_conns w') \<and> (connects_ok fac nb [it] \<longrightarrow> wk_log w' = wk_log w) \<and>
    ep_pipe (wk_epoll w') = ep_pipe (wk_epoll w) \<and>
    (connects_ok fac nb [it] \<and> it_notify_type it = kNotiConnect \<longrightarrow> it_fd it \<in> keys (wk_conns w'))"
  using assms connect_ok [of w nb it] connect_keys [of w nb it] connect_done [of it nb w]
  by (cases "it_notify_type it")
    (auto simp: worker_item_def worker_mod_def connects_ok_def waits_present_def worker_ok_def)

lemma items_ok:
  assumes "worker_items fac nb its w = Some w'" "worker_ok w" "waits_present its w"
  shows "worker_ok w' \<and> keys (wk_conns w) \<subseteq> keys (wk_conns w') \<and> (connects_ok fac nb its \<longrightarrow> wk_log w' = wk_log w) \<and>
    ep_pipe (wk_epoll w') = ep_pipe (wk_epoll w) \<and>
    (connects_ok fac nb its \<longrightarrow> it_fd ` {it \<in> set its. it_notify_type it = kNotiConnect} \<subseteq> keys (wk_conns w'))"
  using assms
proof (induction its arbitrary: w)
  case (Cons it its)
  from Cons.prems(1) obtain w1 where w1: "worker_item fac nb it w = Some w1" and rest: "worker_items fac nb its w1 = Some w'"
    by (auto split: option.splits)
  have "waits_present [it] w" using Cons.prems(3) by (simp add: waits_present_def)
  note one = item_ok [OF w1 Cons.prems(2) this]
  have "waits_present its w1" using Cons.prems(3) one by (fastforce simp: waits_present_def)
  with Cons.IH [OF rest] one show ?case by (auto simp: connects_ok_def)
qed simp

lemma notify_ok:
  assumes "worker_notify fac nb m w = Some w'" "worker_ok w" "waits_present (take 64 (ep_pipe (wk_epoll w))) w"
  shows "worker_ok w'" and "connects_ok fac nb (take 64 (ep_pipe (wk_epoll w))) \<Longrightarrow> accounts G w w'"
proof -
  let ?its = "take 64 (ep_pipe (wk_epoll w))" and ?w = "w\<lparr>wk_epoll := (wk_epoll w)\<lparr>ep_pipe := drop 64 (ep_pipe (wk_epoll w))\<rparr>\<rparr>"
  have pre: "worker_ok ?w" "waits_present ?its ?w" using assms by (simp_all add: worker_ok_def waits_present_def)
  have run: "has_flag m EPOLLIN \<Longrightarrow> worker_items fac nb ?its ?w = Some w'"
    using assms(1) by (simp add: worker_notify_def read_items_def)
  show "worker_ok w'"
    using items_ok [OF run pre] assms by (cases "has_flag m EPOLLIN") (auto simp: worker_notify_def)
  have split: "set (ep_pipe (wk_epoll w)) = set ?its \<union> set (drop 64 (ep_pipe (wk_epoll w)))"
    by (metis append_take_drop_id set_append)
  show "accounts G w w'" if "connects_ok fac nb ?its"
  proof (cases "has_flag m EPOLLIN")
    case True
    from items_ok [OF run [OF True] pre] that show ?thesis
      by (intro accounts_same_log) (auto simp: held_def awaiting_def split)
  next
    case False
    with assms(1) show ?thesis by (simp add: worker_notify_def)
  qed
qed

subsubsection \<open>Events\<close>

lemma write_frame:
  assumes "worker_write ops i m now c e = Some (r, c', e')"
  shows "pc_fd c' = pc_fd c \<and> (ep_ok e \<longrightarrow> ep_ok e') \<and> watched e' = watched e \<and> ep_pipe e' = ep_pipe e"
  using assms by (auto simp: worker_write_def set_last_interaction_def Let_def dest!: SendReply_fd
      split: if_splits option.splits WriteStatus.splits)

lemma read_frame:
  assumes "worker_read ops i m now sc c e = Some (r, c', e')"
  shows "pc_fd c' = pc_fd c \<and> (ep_ok e \<longrightarrow> ep_ok e') \<and> watched e' = watched e \<and> ep_pipe e' = ep_pipe e"
  using assms by (auto simp: worker_read_def set_last_interaction_def set_is_partial_request_def Let_def dest!: GetRequest_fd
      split: if_splits option.splits)

lemma store_ok:
  assumes "worker_ok w" "pc_fd c = fd" "ep_ok e" "watched e = watched (wk_epoll w)" "ep_pipe e = ep_pipe (wk_epoll w)"
  shows "worker_ok (worker_store fd c e w)" and "accounts G w (worker_store fd c e w)"
  using assms by (auto simp: worker_ok_def worker_store_def conns_ok_ins held_def awaiting_def intro!: accounts_same_log)

lemma finish_ok:
  assumes "worker_ok w" "pc_fd c = fd" "ep_ok e" "watched e = watched (wk_epoll w)" "ep_pipe e = ep_pipe (wk_epoll w)"
  shows "worker_ok (worker_finish fd m sc c e w)" and "accounts G w (worker_finish fd m sc c e w)"
proof -
  let ?w = "worker_CloseFd c (worker_store fd c (snd (PinkDelEvent (pc_fd c) e)) w)"
  have closed: "worker_ok (?w\<lparr>wk_conns := om_del fd (wk_conns ?w)\<rparr>)" "accounts G w (?w\<lparr>wk_conns := om_del fd (wk_conns ?w)\<rparr>)"
    using assms unfolding accounts_def
    by (auto simp: worker_ok_def worker_store_def worker_CloseFd_def conns_ok_ins conns_ok_del held_def awaiting_def
        closed_in_def reported_in_def)
  then show "worker_ok (worker_finish fd m sc c e w)" "accounts G w (worker_finish fd m sc c e w)"
    using store_ok [OF assms] by (simp_all add: worker_finish_def Let_def)
qed

lemma event_ok:
  assumes ev: "worker_conn_event ops i m now fd w = Some w'" and ok: "worker_ok w"
  shows "worker_ok w'" and "\<not> marked fd w \<Longrightarrow> accounts G w w'"
proof -
  from ev obtain c where c: "om_get (wk_conns w) fd = Some c" by (auto simp: worker_conn_event_def split: option.splits)
  with ok have fd: "pc_fd c = fd" and ep: "ep_ok (wk_epoll w)" by (auto simp: worker_ok_def intro: conns_ok_get)
  have "worker_ok w' \<and> accounts G w w'" if "\<not> pc_is_waiting_del c"
  proof -
    from ev c that obtain r c1 e1 where wr: "worker_write ops i m now c (wk_epoll w) = Some (r, c1, e1)"
      by (auto simp: worker_conn_event_def split: option.splits)
    note f1 = write_frame [OF wr]
    show ?thesis
    proof (cases r)
      case None
      with ev c that wr f1 fd ep show ?thesis by (auto simp: worker_conn_event_def intro: store_ok ok)
    next
      case (Some sc)
      with ev c that wr obtain r2 c2 e2 where rd: "worker_read ops i m now sc c1 e1 = Some (r2, c2, e2)"
        by (auto simp: worker_conn_event_def split: option.splits)
      note f2 = read_frame [OF rd]
      show ?thesis
        using ev c that wr Some rd f1 f2 fd ep
        by (cases r2) (auto simp: worker_conn_event_def intro: store_ok finish_ok ok)
    qed
  qed
  moreover have "worker_ok w'" if "pc_is_waiting_del c"
    using ev c that ok by (auto simp: worker_conn_event_def worker_ok_def conns_ok_del)
  ultimately show "worker_ok w'" "\<not> marked fd w \<Longrightarrow> accounts G w w'"
    using c by (auto simp: marked_def)
qed

text \<open>An event of a watched connection finds the connection: it can only fail inside a handler.\<close>

lemma event_returns:
  assumes "worker_ok w" "fd \<in> watched (wk_epoll w)"
    and "\<And>c. co_SendReply ops i c \<noteq> None" "\<And>c. co_GetRequest ops i c \<noteq> None"
  shows "\<exists>w'. worker_conn_event ops i m now fd w = Some w'"
proof -
  obtain c where c: "om_get (wk_conns w) fd = Some c" using assms(1,2) keys_get by (fastforce simp: worker_ok_def)
  have wr: "worker_write ops i m now c e \<noteq> None" for c e
    using assms(3) [of c] by (auto simp: worker_write_def Let_def split: option.splits WriteStatus.splits)
  have rd: "worker_read ops i m now sc c e \<noteq> None" for sc c e
    using assms(4) [of c] assms(4) [of "set_is_partial_request True c"] by (auto simp: worker_read_def Let_def split: option.splits)
  show ?thesis using c by (auto simp: worker_conn_event_def wr rd simp del: not_None_eq split: option.splits)
qed


subsubsection \<open>Cron\<close>

lemma cron_ok:
  assumes ok: "worker_ok w" and no: "kKillAllConnsTask \<notin> wk_deleting_conn_ipport w"
  shows "worker_ok (worker_DoCronTask ops i now w)" and "accounts G w (worker_DoCronTask ops i now w)"
proof -
  obtain del keep cl tt where walk: "cron_walk delayed_del (co_TryResizeBuffer ops i) (wk_keepalive_timeout w) now
      (wk_deleting_conn_ipport w) (wk_conns w) = (del, keep, cl, tt)"
    using prod_cases4 by blast
  let ?w = "w\<lparr>wk_conns := keep, wk_deleting_conn_ipport := del\<rparr>"
  have cron: "worker_DoCronTask ops i now w =
      fold (\<lambda>c w. worker_FdTimeout c (worker_CloseFd c w)) tt (fold worker_CloseFd cl ?w)"
    using no walk by (simp add: worker_DoCronTask_def)
  have table: "conns_ok (wk_conns w)" using ok by (simp add: worker_ok_def)
  have keep: "conns_ok keep" by (rule cron_walk_keeps_ok [OF walk table]) simp
  have parts: "keys keep \<union> pc_fd ` set cl \<union> pc_fd ` set tt = keys (wk_conns w)"
    by (rule cron_walk_covers [OF walk table]) simp
  note folds = fold_CloseFd [of cl ?w] fold_timeout [of tt "fold worker_CloseFd cl ?w"]
  show "worker_ok (worker_DoCronTask ops i now w)"
    using ok folds keep parts by (auto simp: cron worker_ok_def)
  show "accounts G w (worker_DoCronTask ops i now w)"
    unfolding accounts_def
    by (rule exI [of _ "concat (map close_calls cl) @ concat (map timeout_calls tt)"])
      (use folds parts in \<open>auto simp: cron held_def awaiting_def\<close>)
qed

subsubsection \<open>A worker gains only what it is given\<close>

lemma items_held:
  "worker_items fac nb its w = Some w' \<Longrightarrow>
   keys (wk_conns w') \<subseteq> keys (wk_conns w) \<union> it_fd ` {it \<in> set its. it_notify_type it = kNotiConnect} \<and>
   ep_pipe (wk_epoll w') = ep_pipe (wk_epoll w)"
proof (induction its arbitrary: w)
  case (Cons it its)
  then obtain w1 where w1: "worker_item fac nb it w = Some w1" and rest: "worker_items fac nb its w1 = Some w'"
    by (auto split: option.splits)
  have "keys (wk_conns w1) \<subseteq> keys (wk_conns w) \<union> it_fd ` {it' \<in> {it}. it_notify_type it' = kNotiConnect} \<and>
      ep_pipe (wk_epoll w1) = ep_pipe (wk_epoll w)"
    using w1 by (cases "it_notify_type it")
      (auto simp: worker_item_def worker_mod_def worker_connect_def SetNonblock_def Setnonblocking_closes Let_def split: option.splits if_splits)
  with Cons.IH [OF rest] show ?case by auto
qed simp

lemma notify_held: "worker_notify fac nb m w = Some w' \<Longrightarrow> held w' \<subseteq> held w"
  using items_held [of nb "take 64 (ep_pipe (wk_epoll w))" "w\<lparr>wk_epoll := (wk_epoll w)\<lparr>ep_pipe := drop 64 (ep_pipe (wk_epoll w))\<rparr>\<rparr>" w']
  by (auto simp: worker_notify_def read_items_def held_def awaiting_def split: if_splits dest: in_set_takeD in_set_dropD)

lemma store_held:
  "fd \<in> keys (wk_conns w) \<Longrightarrow> ep_pipe e = ep_pipe (wk_epoll w) \<Longrightarrow> held (worker_store fd c e w) \<subseteq> held w"
  by (auto simp: held_def awaiting_def worker_store_def)

lemma finish_held:
  "fd \<in> keys (wk_conns w) \<Longrightarrow> ep_pipe e = ep_pipe (wk_epoll w) \<Longrightarrow> held (worker_finish fd m sc c e w) \<subseteq> held w"
  by (auto simp: held_def awaiting_def worker_finish_def worker_store_def Let_def split: if_splits)

lemma event_held:
  assumes ev: "worker_conn_event ops i m now fd w = Some w'"
  shows "held w' \<subseteq> held w"
proof -
  from ev obtain c where c: "om_get (wk_conns w) fd = Some c" by (auto simp: worker_conn_event_def split: option.splits)
  note key = om_get_in_keys [OF c]
  show ?thesis
  proof (cases "pc_is_waiting_del c")
    case True
    with ev c show ?thesis by (auto simp: worker_conn_event_def held_def awaiting_def)
  next
    case False
    with ev c obtain r c1 e1 where wr: "worker_write ops i m now c (wk_epoll w) = Some (r, c1, e1)"
      by (auto simp: worker_conn_event_def split: option.splits)
    note f1 = write_frame [OF wr]
    show ?thesis
    proof (cases r)
      case None
      with ev c False wr have "w' = worker_store fd c1 e1 w" by (simp add: worker_conn_event_def)
      with f1 key show ?thesis by (simp add: store_held)
    next
      case (Some sc)
      with ev c False wr obtain r2 c2 e2 where rd: "worker_read ops i m now sc c1 e1 = Some (r2, c2, e2)"
        by (auto simp: worker_conn_event_def split: option.splits)
      note f2 = read_frame [OF rd]
      show ?thesis
        using ev c False wr Some rd f1 f2 key
        by (cases r2) (auto simp: worker_conn_event_def dest: store_held [THEN subsetD, rotated 2] finish_held [THEN subsetD, rotated 2])
    qed
  qed
qed

lemma cron_held:
  assumes "worker_ok w"
  shows "held (worker_DoCronTask ops i now w) \<subseteq> held w"
proof (cases "kKillAllConnsTask \<in> wk_deleting_conn_ipport w")
  case True
  then show ?thesis by (auto simp: worker_DoCronTask_def held_def awaiting_def)
next
  case False
  obtain del keep cl tt where walk: "cron_walk delayed_del (co_TryResizeBuffer ops i) (wk_keepalive_timeout w) now
      (wk_deleting_conn_ipport w) (wk_conns w) = (del, keep, cl, tt)"
    using prod_cases4 by blast
  let ?w = "w\<lparr>wk_conns := keep, wk_deleting_conn_ipport := del\<rparr>"
  show ?thesis
    using False walk fold_CloseFd [of cl ?w] fold_timeout [of tt "fold worker_CloseFd cl ?w"] cron_walk_keep_subset [OF walk]
    by (auto simp: worker_DoCronTask_def held_def awaiting_def keys_def)
qed

lemma step_held: "worker_step ops fac l w w' \<Longrightarrow> worker_ok w \<Longrightarrow> held w' \<subseteq> held w \<union> {fd. l = Given fd}"
proof (induction rule: worker_step.induct)
  case step_notify
  then show ?case using notify_held by blast
next
  case step_event
  then show ?case using event_held by blast
next
  case step_cron
  then show ?case using cron_held by blast
next
  case step_cleanup
  then show ?case using Cleanup_held by blast
next
  case step_move_in
  then show ?case using MoveConnIn_held by blast
next
  case step_move_out
  then show ?case using MoveConnOut_held by blast
next
  case (step_keepalive w timeout)
  then show ?case by (auto simp: worker_set_keepalive_timeout_def held_def awaiting_def)
qed (auto simp: TryKillConn_held MoveItemIn_held)

subsubsection \<open>Runs\<close>

lemma step_keeps_ok: "worker_step ops fac l w w' \<Longrightarrow> worker_ok w \<Longrightarrow> l \<noteq> KillAll \<Longrightarrow> worker_ok w'"
proof (induction rule: worker_step.induct)
  case step_notify
  then show ?case by (blast intro: notify_ok(1))
next
  case step_event
  then show ?case by (blast intro: event_ok(1))
next
  case step_cron
  then show ?case by (auto intro: cron_ok(1) split: if_splits)
next
  case step_move_in
  then show ?case by (blast intro: MoveConnIn_ok)
qed (simp_all add: TryKillConn_ok MoveItemIn_ok MoveConnOut_ok keepalive_ok Cleanup_ok)

lemma step_accounts:
  "worker_step ops fac l w w' \<Longrightarrow> worker_ok w \<Longrightarrow> l \<noteq> Dropping \<Longrightarrow> l \<noteq> KillAll \<Longrightarrow> accounts {fd. l = MovedOut fd} w w'"
proof (induction rule: worker_step.induct)
  case (step_notify nb m w w')
  then show ?case by (intro notify_ok(2)) (auto split: if_splits)
next
  case (step_event fd w i m now w')
  then show ?case by (intro event_ok(2)) (auto split: if_splits)
next
  case step_cron
  then show ?case by (intro cron_ok(2)) (auto split: if_splits)
next
  case step_move_in
  then show ?case by (blast intro: MoveConnIn_accounts)
next
  case (step_move_out fd w)
  have "{fd'. MovedOut fd = MovedOut fd'} = {fd}" by blast
  with MoveConnOut_accounts [OF step_move_out(1), of fd] show ?case by simp
qed (simp_all add: TryKillConn_accounts MoveItemIn_accounts keepalive_accounts Cleanup_accounts)

lemma run_ok:
  "worker_run ops fac ls w w' \<Longrightarrow> worker_ok w \<Longrightarrow> KillAll \<notin> set ls \<Longrightarrow> worker_ok w'"
  by (induction rule: worker_run.induct) (auto dest: step_keeps_ok)

lemma run_accounts:
  "worker_run ops fac ls w w' \<Longrightarrow> worker_ok w \<Longrightarrow> set ls \<inter> {Dropping, KillAll} = {} \<Longrightarrow> accounts (moved_out ls) w w'"
proof (induction rule: worker_run.induct)
  case (run_step l w w' ls w'')
  from run_step have "accounts {fd. l = MovedOut fd} w w'" "accounts (moved_out ls) w' w''"
    by (auto intro: step_accounts step_keeps_ok)
  then have "accounts ({fd. l = MovedOut fd} \<union> moved_out ls) w w''" by (rule accounts_trans)
  moreover have "{fd. l = MovedOut fd} \<union> moved_out ls = moved_out (l # ls)" by (auto simp: moved_out_def)
  ultimately show ?case by simp
qed simp

end

lemma WorkerThread_new_ok: "worker_ok (WorkerThread_new ci)"
  by (simp add: worker_ok_def WorkerThread_new_def thread.defs Thread_new_def ep_ok_def watched_def)

end
