(* ===== verification/DispatchThread.thy ===== *)
theory DispatchThread
  imports WorkerThread
begin

text \<open>
  The dispatching server (\<^verbatim>\<open>src/dispatch_thread.h\<close>, \<^verbatim>\<open>src/dispatch_thread.cc\<close>): it accepts connections
  and hands them to its workers in turn.

  The lemmas show that its state stays well formed, that new connections are spread over the
  workers round robin, and what the operations on all workers (\<^verbatim>\<open>MoveConnOut\<close>, \<^verbatim>\<open>KillConn\<close>,
  \<^verbatim>\<open>conn_num\<close>) return.
\<close>

record 'a dispatch = server +
  di_last_thread :: nat
  di_work_num :: nat
  di_workers :: "'a worker list"
  di_queue_limit :: int

definition DispatchThread_new :: "bytes set \<Rightarrow> int \<Rightarrow> nat \<Rightarrow> int \<Rightarrow> int \<Rightarrow> server_handle option \<Rightarrow> 'a dispatch" where
  "DispatchThread_new ips port work_num cron_interval queue_limit handle =
     server.extend (ServerThread_new ips port cron_interval handle)
       \<lparr>di_last_thread = 0, di_work_num = work_num, di_workers = replicate work_num (WorkerThread_new cron_interval),
        di_queue_limit = queue_limit\<rparr>"

definition DispatchThread_new_any :: "int \<Rightarrow> nat \<Rightarrow> int \<Rightarrow> int \<Rightarrow> server_handle option \<Rightarrow> 'a dispatch" where
  "DispatchThread_new_any port work_num cron_interval queue_limit handle =
     server.extend (ServerThread_new_any port cron_interval handle)
       \<lparr>di_last_thread = 0, di_work_num = work_num, di_workers = replicate work_num (WorkerThread_new cron_interval),
        di_queue_limit = queue_limit\<rparr>"

definition DispatchThread_new_ip :: "bytes \<Rightarrow> int \<Rightarrow> nat \<Rightarrow> int \<Rightarrow> int \<Rightarrow> server_handle option \<Rightarrow> 'a dispatch" where
  "DispatchThread_new_ip ip port work_num cron_interval queue_limit handle =
     server.extend (ServerThread_new_ip ip port cron_interval handle)
       \<lparr>di_last_thread = 0, di_work_num = work_num, di_workers = replicate work_num (WorkerThread_new cron_interval),
        di_queue_limit = queue_limit\<rparr>"

section \<open>Starting and stopping\<close>

text \<open>
  \<open>data i\<close> answers \<^verbatim>\<open>CreateWorkerSpecificData\<close> for worker \<open>i\<close> (its result, and the pointer it stores),
  \<open>create i\<close> and \<open>join i\<close> are the results of \<^verbatim>\<open>pthread_create\<close> and \<^verbatim>\<open>pthread_join\<close>, \<open>delete\<close> that of
  \<^verbatim>\<open>DeleteWorkerSpecificData\<close>.
\<close>

fun start_workers :: "(nat \<Rightarrow> int \<times> int option) \<Rightarrow> (nat \<Rightarrow> int) \<Rightarrow> nat \<Rightarrow> 'a worker list \<Rightarrow> int \<times> 'a worker list" where
  "start_workers data create i [] = (0, [])"
| "start_workers data create i (w # ws) =
     (let (ret, p) = data i; w = w\<lparr>wk_private_data := p\<rparr>
      in if ret \<noteq> 0 then (ret, w # ws)
         else
           let (ret, w) = Thread_StartThread (create i) w
           in if ret \<noteq> 0 then (ret, w # ws)
              else let (ret, ws) = start_workers data create (Suc i) ws in (ret, w # ws))"

definition dispatch_StartThread :: "(nat \<Rightarrow> int \<times> int option) \<Rightarrow> (nat \<Rightarrow> int) \<Rightarrow> (bytes \<Rightarrow> socket_answers) \<Rightarrow> int \<Rightarrow>
    'a dispatch \<Rightarrow> (RetCode + int) \<times> 'a dispatch" where
  "dispatch_StartThread data create sockets own_create d =
     (let (ret, ws) = start_workers data create 0 (di_workers d); d = d\<lparr>di_workers := ws\<rparr>
      in if ret \<noteq> 0 then (Inr ret, d) else ServerThread_StartThread sockets own_create d)"

fun stop_workers :: "(nat \<Rightarrow> int) \<Rightarrow> (int \<Rightarrow> int) \<Rightarrow> nat \<Rightarrow> 'a worker list \<Rightarrow> int \<times> 'a worker list" where
  "stop_workers join delete i [] = (0, [])"
| "stop_workers join delete i (w # ws) =
     (let (ret, w) = Thread_StopThread (join i) w
      in if ret \<noteq> 0 then (ret, w # ws)
         else
           let (ret, w) = (case wk_private_data w of
                             None \<Rightarrow> (0, w)
                           | Some p \<Rightarrow> if delete p \<noteq> 0 then (delete p, w) else (0, w\<lparr>wk_private_data := None\<rparr>))
           in if ret \<noteq> 0 then (ret, w # ws)
              else let (ret, ws) = stop_workers join delete (Suc i) ws in (ret, w # ws))"

definition dispatch_StopThread :: "(nat \<Rightarrow> int) \<Rightarrow> (int \<Rightarrow> int) \<Rightarrow> int \<Rightarrow> 'a dispatch \<Rightarrow> int \<times> 'a dispatch" where
  "dispatch_StopThread join delete own_join d =
     (let (ret, ws) = stop_workers join delete 0 (map set_should_stop (di_workers d)); d = d\<lparr>di_workers := ws\<rparr>
      in if ret \<noteq> 0 then (ret, d) else Thread_StopThread own_join d)"

section \<open>Operations on all workers\<close>

definition dispatch_set_keepalive_timeout :: "int \<Rightarrow> 'a dispatch \<Rightarrow> 'a dispatch" where
  "dispatch_set_keepalive_timeout timeout d =
     d\<lparr>di_workers := map (worker_set_keepalive_timeout timeout) (di_workers d)\<rparr>"

definition dispatch_conn_num :: "'a dispatch \<Rightarrow> nat" where
  "dispatch_conn_num d = fold (\<lambda>w n. n + worker_conn_num w) (di_workers d) 0"

definition dispatch_conns_info :: "'a dispatch \<Rightarrow> conn_info list" where
  "dispatch_conns_info d = fold (\<lambda>w result. result @ worker_conns_info w) (di_workers d) []"

fun move_out_of :: "fd \<Rightarrow> 'a worker list \<Rightarrow> 'a pink_conn_scheme option \<times> 'a worker list" where
  "move_out_of fd [] = (None, [])"
| "move_out_of fd (w # ws) =
     (case worker_MoveConnOut fd w of
        (Some c, w') \<Rightarrow> (Some c, w' # ws)
      | (None, w') \<Rightarrow> (let (r, ws') = move_out_of fd ws in (r, w' # ws')))"

definition dispatch_MoveConnOut :: "fd \<Rightarrow> 'a dispatch \<Rightarrow> 'a pink_conn_scheme option \<times> 'a dispatch" where
  "dispatch_MoveConnOut fd d = (let (r, ws) = move_out_of fd (di_workers d) in (r, d\<lparr>di_workers := ws\<rparr>))"

text \<open>With no worker \<^verbatim>\<open>worker_thread_[last_thread_]\<close> is out of bounds: \<open>None\<close>.\<close>

definition dispatch_MoveConnIn :: "'a pink_conn_scheme \<Rightarrow> NotifyType \<Rightarrow> 'a dispatch \<Rightarrow> 'a dispatch option" where
  "dispatch_MoveConnIn c type d =
     (if di_last_thread d < length (di_workers d) then
        case worker_MoveConnIn c type True (di_workers d ! di_last_thread d) of
          None \<Rightarrow> None
        | Some (success, w) \<Rightarrow>
            let d' = d\<lparr>di_workers := (di_workers d)[di_last_thread d := w]\<rparr>
            in Some (if success then d'\<lparr>di_last_thread := (di_last_thread d + 1) mod di_work_num d\<rparr> else d')
      else None)"

fun kill_in :: "bytes \<Rightarrow> 'a worker list \<Rightarrow> bool \<times> 'a worker list" where
  "kill_in ip_port [] = (False, [])"
| "kill_in ip_port (w # ws) =
     (let (r, w') = worker_TryKillConn ip_port w; (result, ws') = kill_in ip_port ws in (r \<or> result, w' # ws'))"

definition dispatch_KillConn :: "bytes \<Rightarrow> 'a dispatch \<Rightarrow> bool \<times> 'a dispatch" where
  "dispatch_KillConn ip_port d = (let (r, ws) = kill_in ip_port (di_workers d) in (r, d\<lparr>di_workers := ws\<rparr>))"

definition dispatch_KillAllConns :: "'a dispatch \<Rightarrow> 'a dispatch" where
  "dispatch_KillAllConns d = snd (dispatch_KillConn kKillAllConnsTask d)"

definition SetQueueLimit :: "int \<Rightarrow> 'a dispatch \<Rightarrow> 'a dispatch" where
  "SetQueueLimit queue_limit d = d\<lparr>di_queue_limit := queue_limit\<rparr>"

section \<open>New connections\<close>

text \<open>The search for a worker that takes the item, from \<open>next\<close> on, at most \<open>cnt\<close> of them.\<close>

fun find_worker :: "nat \<Rightarrow> pink_item \<Rightarrow> nat \<Rightarrow> 'a dispatch \<Rightarrow> bool \<times> 'a dispatch" where
  "find_worker 0 ti next d = (False, d)"
| "find_worker (Suc cnt) ti next d =
     (let (find, w) = worker_MoveItemIn ti False (di_workers d ! next);
          d' = d\<lparr>di_workers := (di_workers d)[next := w]\<rparr>
      in if find then (True, d'\<lparr>di_last_thread := (next + 1) mod di_work_num d\<rparr>)
         else find_worker cnt ti ((next + 1) mod di_work_num d) d')"

definition dispatch_HandleNewConn :: "fd \<Rightarrow> bytes \<Rightarrow> 'a dispatch \<Rightarrow> 'a dispatch option" where
  "dispatch_HandleNewConn connfd ip_port d =
     (case PinkItem_new connfd ip_port kNotiConnect of
        None \<Rightarrow> None
      | Some ti \<Rightarrow>
          let (find, d') = find_worker (di_work_num d) ti (di_last_thread d) d
          in Some (if find then d' else sv_close connfd d'))"

definition dispatch_ops :: "('a, unit) dispatch_ext server_ops" where
  "dispatch_ops =
     \<lparr>sp_DoCronTask = (\<lambda>i now d. d), sp_ProcessNotifyEvents = (\<lambda>m d. Some d),
      sp_HandleNewConn = dispatch_HandleNewConn, sp_HandleConnEvent = (\<lambda>fe d. Some d)\<rparr>"

section \<open>Well-formedness\<close>

definition one_owner :: "'a worker list \<Rightarrow> bool" where
  "one_owner ws \<longleftrightarrow> (\<forall>i < length ws. \<forall>j < length ws. i \<noteq> j \<longrightarrow> held (ws ! i) \<inter> held (ws ! j) = {})"

definition dispatch_ok :: "'a dispatch \<Rightarrow> bool" where
  "dispatch_ok d \<longleftrightarrow> di_last_thread d < di_work_num d \<and> length (di_workers d) = di_work_num d \<and>
     (\<forall>w \<in> set (di_workers d). worker_ok w) \<and> one_owner (di_workers d)"

definition unheld :: "fd \<Rightarrow> 'a dispatch \<Rightarrow> bool" where
  "unheld fd d \<longleftrightarrow> (\<forall>w \<in> set (di_workers d). fd \<notin> held w)"

text \<open>
  The server as a system: the thread of a worker, the dispatcher taking a new connection, and calls of
  the interface.  A new descriptor is one that no worker holds.
\<close>

inductive dispatch_step :: "'a conn_ops \<Rightarrow> 'a factory \<Rightarrow> wk_label \<Rightarrow> 'a dispatch \<Rightarrow> 'a dispatch \<Rightarrow> bool" for ops fac where
  disp_worker: "i < length (di_workers d) \<Longrightarrow> worker_step ops fac l (di_workers d ! i) w \<Longrightarrow> l \<in> {Run, Dropping, KillAll} \<Longrightarrow>
    dispatch_step ops fac l d (d\<lparr>di_workers := (di_workers d)[i := w]\<rparr>)"
| disp_new: "unheld fd d \<Longrightarrow> dispatch_HandleNewConn fd ip d = Some d' \<Longrightarrow> dispatch_step ops fac (Given fd) d d'"
| disp_in: "unheld (pc_fd c) d \<Longrightarrow> dispatch_MoveConnIn c type d = Some d' \<Longrightarrow> dispatch_step ops fac (Given (pc_fd c)) d d'"
| disp_out: "dispatch_step ops fac (MovedOut fd) d (snd (dispatch_MoveConnOut fd d))"
| disp_kill: "dispatch_step ops fac Run d (snd (dispatch_KillConn ip d))"
| disp_keepalive: "dispatch_step ops fac Run d (dispatch_set_keepalive_timeout t d)"
| disp_limit: "dispatch_step ops fac Run d (SetQueueLimit q d)"

inductive dispatch_run :: "'a conn_ops \<Rightarrow> 'a factory \<Rightarrow> wk_label list \<Rightarrow> 'a dispatch \<Rightarrow> 'a dispatch \<Rightarrow> bool" for ops fac where
  "dispatch_run ops fac [] d d"
| "dispatch_step ops fac l d d' \<Longrightarrow> dispatch_run ops fac ls d' d'' \<Longrightarrow> dispatch_run ops fac (l # ls) d d''"

text \<open>Replacing one worker by one that holds no more, except a descriptor nobody held.\<close>

lemma one_ownerD: "one_owner ws \<Longrightarrow> i < length ws \<Longrightarrow> j < length ws \<Longrightarrow> i \<noteq> j \<Longrightarrow> x \<in> held (ws ! i) \<Longrightarrow> x \<notin> held (ws ! j)"
  by (auto simp: one_owner_def)

lemma one_ownerI:
  "(\<And>i j x. i < length ws \<Longrightarrow> j < length ws \<Longrightarrow> i \<noteq> j \<Longrightarrow> x \<in> held (ws ! i) \<Longrightarrow> x \<in> held (ws ! j) \<Longrightarrow> False) \<Longrightarrow> one_owner ws"
  by (auto simp: one_owner_def)

lemma one_owner_update:
  assumes "one_owner ws" "i < length ws" "held w \<subseteq> held (ws ! i) \<union> F" "\<And>v. v \<in> set ws \<Longrightarrow> held v \<inter> F = {}"
  shows "one_owner (ws[i := w])"
proof (rule one_ownerI)
  fix a b x
  assume ab: "a < length (ws[i := w])" "b < length (ws[i := w])" "a \<noteq> b"
    and x: "x \<in> held (ws[i := w] ! a)" "x \<in> held (ws[i := w] ! b)"
  have new: "x \<notin> held (ws ! j)" if "j < length ws" "j \<noteq> i" "x \<in> held w" for j
    using assms(3) assms(4) [of "ws ! j"] one_ownerD [OF assms(1) assms(2) that(1), of x] that by auto
  show False
    using ab x new [of a] new [of b] one_ownerD [OF assms(1), of a b x]
    by (cases "a = i"; cases "b = i") auto
qed

definition shrunk :: "'a worker list \<Rightarrow> 'a worker list \<Rightarrow> bool" where
  "shrunk ws' ws \<longleftrightarrow> list_all2 (\<lambda>v w. (worker_ok w \<longrightarrow> worker_ok v) \<and> held v \<subseteq> held w) ws' ws"

lemma shrunk_refl: "shrunk ws ws"
  by (simp add: shrunk_def list_all2_refl)

lemma shrunk_Cons: "shrunk (v # vs) (w # ws) \<longleftrightarrow> (worker_ok w \<longrightarrow> worker_ok v) \<and> held v \<subseteq> held w \<and> shrunk vs ws"
  by (simp add: shrunk_def)

lemma one_owner_shrink: "one_owner ws \<Longrightarrow> shrunk ws' ws \<Longrightarrow> one_owner ws'"
  unfolding shrunk_def list_all2_conv_all_nth by (rule one_ownerI) (metis one_ownerD subsetD)

lemma dispatch_ok_frame: "dispatch_ok d \<Longrightarrow> shrunk ws (di_workers d) \<Longrightarrow> dispatch_ok (d\<lparr>di_workers := ws\<rparr>)"
  using one_owner_shrink [of "di_workers d" ws]
  by (auto simp: dispatch_ok_def shrunk_def list_all2_conv_all_nth all_set_conv_all_nth)

lemma dispatch_ok_update:
  assumes "dispatch_ok d" "i < length (di_workers d)" "worker_ok w" "held w \<subseteq> held (di_workers d ! i) \<union> F"
    "\<And>v. v \<in> set (di_workers d) \<Longrightarrow> held v \<inter> F = {}" "l < di_work_num d"
  shows "dispatch_ok (d\<lparr>di_workers := (di_workers d)[i := w], di_last_thread := l\<rparr>)"
  using assms one_owner_update [of "di_workers d" i w F]
  by (auto simp: dispatch_ok_def dest: set_update_subset_insert [THEN subsetD])

text \<open>Since \<^verbatim>\<open>Register\<close> always succeeds, the worker next in turn takes the connection.\<close>

lemma HandleNewConn_next:
  assumes "di_last_thread d < di_work_num d" "length ip < 43"
  shows "dispatch_HandleNewConn fd ip d = Some (d\<lparr>di_workers := (di_workers d)[di_last_thread d :=
      snd (worker_MoveItemIn \<lparr>it_fd = fd, it_ip_port = ip, it_notify_type = kNotiConnect, it_conn = None\<rparr> False
        (di_workers d ! di_last_thread d))], di_last_thread := (di_last_thread d + 1) mod di_work_num d\<rparr>)"
  using assms by (cases "di_work_num d")
    (simp_all add: dispatch_HandleNewConn_def PinkItem_new_def worker_MoveItemIn_def Register_def)

lemma HandleNewConn_short: "dispatch_HandleNewConn fd ip d = Some d' \<Longrightarrow> length ip < 43"
  by (auto simp: dispatch_HandleNewConn_def PinkItem_new_def split: if_splits)

lemma move_out_of_frame: "shrunk (snd (move_out_of fd ws)) ws"
proof (induction ws)
  case (Cons w ws)
  then show ?case
    using MoveConnOut_ok [of w fd] MoveConnOut_held [of fd w]
    by (cases "worker_MoveConnOut fd w"; cases "fst (worker_MoveConnOut fd w)")
      (auto simp: shrunk_Cons shrunk_refl split: prod.splits)
qed (simp add: shrunk_def)

lemma kill_in_frame: "shrunk (snd (kill_in ip ws)) ws"
proof (induction ws)
  case (Cons w ws)
  then show ?case
    using TryKillConn_ok [of w ip] TryKillConn_held [of ip w]
    by (cases "worker_TryKillConn ip w") (auto simp: shrunk_Cons split: prod.splits)
qed (simp add: shrunk_def)

lemma keepalive_frame: "shrunk (map (worker_set_keepalive_timeout t) ws) ws"
  by (induction ws)
    (auto simp: shrunk_def worker_set_keepalive_timeout_def held_def awaiting_def worker_ok_def)

lemma HandleNewConn_ok:
  assumes "dispatch_ok d" "unheld fd d" "dispatch_HandleNewConn fd ip d = Some d'"
  shows "dispatch_ok d'"
proof -
  let ?w = "di_workers d ! di_last_thread d"
  have ok: "worker_ok ?w" and l: "di_last_thread d < length (di_workers d)" "di_last_thread d < di_work_num d"
    using assms(1) by (auto simp: dispatch_ok_def)
  show ?thesis
    using assms HandleNewConn_next [OF _ HandleNewConn_short [OF assms(3)], of d fd] l MoveItemIn_ok [OF ok]
    by (auto intro!: dispatch_ok_update [where F = "{fd}"] simp: MoveItemIn_held unheld_def)
qed

lemma MoveConnIn_dispatch_ok:
  assumes "dispatch_ok d" "unheld (pc_fd c) d" "dispatch_MoveConnIn c t d = Some d'"
  shows "dispatch_ok d'"
proof -
  let ?w = "di_workers d ! di_last_thread d"
  have ok: "worker_ok ?w" and l: "di_last_thread d < length (di_workers d)" "0 < di_work_num d"
    using assms(1) by (auto simp: dispatch_ok_def)
  from assms(3) l obtain s w where w: "worker_MoveConnIn c t True ?w = Some (s, w)"
    by (auto simp: dispatch_MoveConnIn_def split: option.splits)
  then have s: "s" by (auto simp: worker_MoveConnIn_def worker_MoveItemIn_def Register_def split: option.splits)
  have "d' = d\<lparr>di_workers := (di_workers d)[di_last_thread d := w], di_last_thread := (di_last_thread d + 1) mod di_work_num d\<rparr>"
    using assms(3) l w s by (simp add: dispatch_MoveConnIn_def)
  with assms(1,2) l MoveConnIn_ok [OF ok w] MoveConnIn_held [OF w] show ?thesis
    by (auto intro!: dispatch_ok_update [where F = "{pc_fd c}"] simp: unheld_def)
qed

context conn_server
begin

lemma dispatch_step_ok:
  "dispatch_step ops fac l d d' \<Longrightarrow> dispatch_ok d \<Longrightarrow> l \<noteq> KillAll \<Longrightarrow> dispatch_ok d'"
proof (induction rule: dispatch_step.induct)
  case (disp_worker i d l w)
  then have ok: "worker_ok (di_workers d ! i)" by (simp add: dispatch_ok_def)
  have "dispatch_ok (d\<lparr>di_workers := (di_workers d)[i := w], di_last_thread := di_last_thread d\<rparr>)"
    using disp_worker step_keeps_ok [OF disp_worker(2) ok] step_held [OF disp_worker(2) ok]
    by (intro dispatch_ok_update [where F = "{}"]) (auto simp: dispatch_ok_def)
  then show ?case by simp
next
  case disp_new
  then show ?case by (blast intro: HandleNewConn_ok)
next
  case disp_in
  then show ?case by (blast intro: MoveConnIn_dispatch_ok)
next
  case disp_out
  then show ?case by (simp add: dispatch_MoveConnOut_def split_beta dispatch_ok_frame move_out_of_frame)
next
  case disp_kill
  then show ?case by (simp add: dispatch_KillConn_def split_beta dispatch_ok_frame kill_in_frame)
next
  case disp_keepalive
  then show ?case by (simp add: dispatch_set_keepalive_timeout_def dispatch_ok_frame keepalive_frame)
next
  case (disp_limit d q)
  then show ?case by (simp add: SetQueueLimit_def dispatch_ok_def)
qed

lemma dispatch_run_ok:
  "dispatch_run ops fac ls d d' \<Longrightarrow> dispatch_ok d \<Longrightarrow> KillAll \<notin> set ls \<Longrightarrow> dispatch_ok d'"
  by (induction rule: dispatch_run.induct) (auto dest: dispatch_step_ok)

end

lemma DispatchThread_new_ok: "0 < n \<Longrightarrow> dispatch_ok (DispatchThread_new ips port n ci q h)"
  by (auto simp: DispatchThread_new_def server.defs dispatch_ok_def one_owner_def WorkerThread_new_ok)
    (auto simp: held_def awaiting_def WorkerThread_new_def thread.defs)

section \<open>What the operations return\<close>

definition connect_item :: "fd \<times> bytes \<Rightarrow> pink_item" where
  "connect_item c = \<lparr>it_fd = fst c, it_ip_port = snd c, it_notify_type = kNotiConnect, it_conn = None\<rparr>"

fun handle_conns :: "(fd \<times> bytes) list \<Rightarrow> 'a dispatch \<Rightarrow> 'a dispatch option" where
  "handle_conns [] d = Some d"
| "handle_conns ((fd, ip) # cs) d =
     (case dispatch_HandleNewConn fd ip d of None \<Rightarrow> None | Some d' \<Rightarrow> handle_conns cs d')"

definition worker_pipe :: "nat \<Rightarrow> 'a dispatch \<Rightarrow> pink_item list" where
  "worker_pipe i d = ep_pipe (wk_epoll (di_workers d ! i))"

text \<open>C18: New connections go to the workers round robin: the dispatcher takes any sequence of connections (peer
  names fit an item), the j-th of them lands in the pipe of worker (last + j) mod n behind what was there, in order,
  and none is closed by the dispatcher.\<close>

theorem dispatch_round_robin:
  assumes "di_last_thread d < di_work_num d" "length (di_workers d) = di_work_num d"
    and "\<forall>c \<in> set cs. length (snd c) < 43"
  shows "\<exists>d'. handle_conns cs d = Some d' \<and> di_last_thread d' = (di_last_thread d + length cs) mod di_work_num d \<and>
    sv_log d' = sv_log d \<and>
    (\<forall>i < di_work_num d. worker_pipe i d' =
       worker_pipe i d @ map connect_item (nths cs {j. (di_last_thread d + j) mod di_work_num d = i}))"
  using assms
proof (induction cs arbitrary: d)
  case (Cons c cs)
  let ?n = "di_work_num d" and ?l = "di_last_thread d"
  let ?d = "d\<lparr>di_workers := (di_workers d)[?l := snd (worker_MoveItemIn (connect_item c) False (di_workers d ! ?l))],
    di_last_thread := (?l + 1) mod ?n\<rparr>"
  have step: "dispatch_HandleNewConn (fst c) (snd c) d = Some ?d"
    using HandleNewConn_next [of d "snd c" "fst c"] Cons.prems by (simp add: connect_item_def)
  have one: "worker_pipe i ?d = worker_pipe i d @ (if i = ?l then [connect_item c] else [])" if "i < ?n" for i
    using that Cons.prems by (auto simp: worker_pipe_def nth_list_update worker_MoveItemIn_def Register_def)
  have shift: "(Suc ?l mod ?n + j) mod ?n = Suc (?l + j) mod ?n" for j
    using mod_add_left_eq [of "Suc ?l" ?n j] by simp
  from Cons.IH [of ?d] Cons.prems obtain d' where d': "handle_conns cs ?d = Some d'"
      "di_last_thread d' = ((?l + 1) mod ?n + length cs) mod ?n" "sv_log d' = sv_log d"
      "\<forall>i < ?n. worker_pipe i d' = worker_pipe i ?d @ map connect_item (nths cs {j. ((?l + 1) mod ?n + j) mod ?n = i})"
    by auto
  have "worker_pipe i d' = worker_pipe i d @ map connect_item (nths (c # cs) {j. (?l + j) mod ?n = i})" if "i < ?n" for i
    using d'(4) that one [OF that] Cons.prems(1) by (auto simp: nths_Cons shift)
  with step d'(1-3) show ?case
    by (cases c) (auto simp: shift)
qed (simp add: worker_pipe_def)

theorem dispatch_round_robin_witness:
  "\<exists>d'. handle_conns [(5, ''a''), (6, ''b''), (7, ''c'')] (DispatchThread_new {} 80 2 0 10 None :: unit dispatch) = Some d' \<and>
     worker_pipe 0 d' = [connect_item (5, ''a''), connect_item (7, ''c'')] \<and> worker_pipe 1 d' = [connect_item (6, ''b'')]"
proof -
  let ?d = "DispatchThread_new {} 80 2 0 10 None :: unit dispatch"
  have d: "di_last_thread ?d = 0" "di_work_num ?d = 2" "length (di_workers ?d) = 2"
    "worker_pipe 0 ?d = []" "worker_pipe 1 ?d = []"
    by (simp_all add: DispatchThread_new_def server.defs worker_pipe_def WorkerThread_new_def thread.defs nth_Cons' numeral_2_eq_2)
  obtain d' where d': "handle_conns [(5, ''a''), (6, ''b''), (7, ''c'')] ?d = Some d'"
    "\<forall>i < 2. worker_pipe i d' = worker_pipe i ?d @ map connect_item (nths [(5, ''a''), (6, ''b''), (7, ''c'')] {j. (0 + j) mod 2 = i})"
    using dispatch_round_robin [of ?d "[(5, ''a''), (6, ''b''), (7, ''c'')]"] d by auto
  show ?thesis
    using d'(1) d'(2) [rule_format, of 0] d'(2) [rule_format, of 1] d by (auto simp: nths_Cons)
qed

text \<open>Statistics: the number of connections is the number of entries listed.\<close>

lemma dispatch_conn_num_info: "dispatch_conn_num d = length (dispatch_conns_info d)"
proof -
  have "fold (\<lambda>w n. n + worker_conn_num w) ws n = n + length (concat (map worker_conns_info ws))" for ws :: "'a worker list" and n
    by (induction ws arbitrary: n) (simp_all add: worker_conn_num_def worker_conns_info_def table_info_def)
  moreover have "fold (\<lambda>w r. r @ worker_conns_info w) ws r = r @ concat (map worker_conns_info ws)" for ws :: "'a worker list" and r
    by (induction ws arbitrary: r) simp_all
  ultimately show ?thesis by (simp add: dispatch_conn_num_def dispatch_conns_info_def)
qed

lemma move_out_of_found:
  assumes "i < length ws" "om_get (wk_conns (ws ! i)) fd = Some c" "\<And>j. j < i \<Longrightarrow> fd \<notin> keys (wk_conns (ws ! j))"
  shows "move_out_of fd ws = (Some c, ws[i := snd (worker_MoveConnOut fd (ws ! i))])"
  using assms
proof (induction ws arbitrary: i)
  case (Cons w ws)
  show ?case
  proof (cases i)
    case 0
    with Cons.prems show ?thesis by (simp add: worker_MoveConnOut_def)
  next
    case (Suc k)
    with Cons.prems(3) [of 0] have "worker_MoveConnOut fd w = (None, w)"
      by (simp add: worker_MoveConnOut_def om_get_keys [symmetric])
    with Cons.IH [of k] Cons.prems Suc show ?thesis by (fastforce simp: split: prod.splits)
  qed
qed simp

text \<open>MoveConnOut finds a connection wherever it is served and takes it out for good: it returns the connection,
  and then no worker has it in its table or watches its descriptor, while every other connection stays where it was.\<close>

lemma dispatch_MoveConnOut_takes:
  assumes ok: "dispatch_ok d" and i: "i < di_work_num d" and c: "om_get (wk_conns (di_workers d ! i)) fd = Some c"
  shows "\<exists>d'. dispatch_MoveConnOut fd d = (Some c, d') \<and> dispatch_ok d' \<and>
    (\<forall>j < di_work_num d. fd \<notin> keys (wk_conns (di_workers d' ! j)) \<and> fd \<notin> watched (wk_epoll (di_workers d' ! j)) \<and>
       (\<forall>fd'. fd' \<noteq> fd \<longrightarrow> om_get (wk_conns (di_workers d' ! j)) fd' = om_get (wk_conns (di_workers d ! j)) fd'))"
proof -
  let ?ws = "di_workers d"
  have len: "length ?ws = di_work_num d" and wok: "\<And>j. j < di_work_num d \<Longrightarrow> worker_ok (?ws ! j)" and one: "one_owner ?ws"
    using ok by (auto simp: dispatch_ok_def)
  have only: "fd \<notin> keys (wk_conns (?ws ! j))" if "j < di_work_num d" "j \<noteq> i" for j
    using one_ownerD [OF one, of i j fd] that i len om_get_in_keys [OF c] by (auto simp: held_def)
  let ?w = "snd (worker_MoveConnOut fd (?ws ! i))" and ?d = "snd (dispatch_MoveConnOut fd d)"
  have found: "move_out_of fd ?ws = (Some c, ?ws[i := ?w])"
    using i len c only by (intro move_out_of_found) auto
  then have d': "dispatch_MoveConnOut fd d = (Some c, d\<lparr>di_workers := ?ws[i := ?w]\<rparr>)"
    by (simp add: dispatch_MoveConnOut_def)
  have frame: "shrunk (?ws[i := ?w]) ?ws"
    using found move_out_of_frame [of fd ?ws] by simp
  have w: "wk_conns ?w = om_del fd (wk_conns (?ws ! i))" "fd \<notin> watched (wk_epoll ?w)"
    using c by (simp_all add: worker_MoveConnOut_def)
  have "fd \<notin> keys (wk_conns (?ws[i := ?w] ! j)) \<and> fd \<notin> watched (wk_epoll (?ws[i := ?w] ! j)) \<and>
      (\<forall>fd'. fd' \<noteq> fd \<longrightarrow> om_get (wk_conns (?ws[i := ?w] ! j)) fd' = om_get (wk_conns (?ws ! j)) fd')" if j: "j < di_work_num d" for j
  proof (cases "j = i")
    case True
    with w i len wok [OF i] show ?thesis by (simp add: om_get_del)
  next
    case False
    with only [OF j] wok [OF j] len show ?thesis by (auto simp: worker_ok_def)
  qed
  with d' dispatch_ok_frame [OF ok frame] show ?thesis by simp
qed

end
