(* ===== verification/HolyThread.thy ===== *)
theory HolyThread
  imports ConnTable
begin

text \<open>
  The single-threaded server (\<^verbatim>\<open>src/holy_thread.h\<close>, \<^verbatim>\<open>src/holy_thread.cc\<close>): one thread accepts
  connections and serves them, synchronously or asynchronously.

  The invariant \<open>holy_ok\<close> is kept by the server loop (an interpretation of \<open>server_class\<close>), and so is
  the account of descriptors: a connection in the table stays there until it is closed and reported.
  Its events find connections by descriptor, so an event for one that is gone is only unregistered.
\<close>

section \<open>The server\<close>

record 'a holy = server +
  ho_conns :: "'a conns"
  ho_private_data :: "int option"
  ho_keepalive_timeout :: int
  ho_async :: bool
  ho_deleting_conn_ipport :: "bytes set"

text \<open>Only the constructor without an address sets the keepalive time; \<open>ka\<close> is what it is otherwise.\<close>

definition HolyThread_new_any :: "int \<Rightarrow> int \<Rightarrow> server_handle option \<Rightarrow> bool \<Rightarrow> 'a holy" where
  "HolyThread_new_any port cron_interval handle async =
     server.extend (ServerThread_new_any port cron_interval handle)
       \<lparr>ho_conns = [], ho_private_data = None, ho_keepalive_timeout = kDefaultKeepAliveTime, ho_async = async,
        ho_deleting_conn_ipport = {}\<rparr>"

definition HolyThread_new_ips :: "int \<Rightarrow> int option \<Rightarrow> bytes set \<Rightarrow> int \<Rightarrow> int \<Rightarrow> server_handle option \<Rightarrow> bool \<Rightarrow> 'a holy" where
  "HolyThread_new_ips ka private bind_ips port cron_interval handle async =
     server.extend (ServerThread_new bind_ips port cron_interval handle)
       \<lparr>ho_conns = [], ho_private_data = private, ho_keepalive_timeout = ka, ho_async = async,
        ho_deleting_conn_ipport = {}\<rparr>"

definition holy_set_keepalive_timeout :: "int \<Rightarrow> 'a holy \<Rightarrow> 'a holy" where
  "holy_set_keepalive_timeout timeout h = h\<lparr>ho_keepalive_timeout := timeout\<rparr>"

definition holy_conn_num :: "'a holy \<Rightarrow> nat" where
  "holy_conn_num h = length (ho_conns h)"

definition holy_conns_info :: "'a holy \<Rightarrow> conn_info list" where
  "holy_conns_info h = table_info (ho_conns h)"

definition holy_get_conn :: "fd \<Rightarrow> 'a holy \<Rightarrow> 'a pink_conn_scheme option" where
  "holy_get_conn fd h = om_get (ho_conns h) fd"

definition holy_MoveConnOut :: "fd \<Rightarrow> 'a holy \<Rightarrow> 'a pink_conn_scheme option \<times> 'a holy" where
  "holy_MoveConnOut fd h =
     (case om_get (ho_conns h) fd of
        None \<Rightarrow> (None, h)
      | Some c \<Rightarrow> (Some c, h\<lparr>sv_epoll := snd (PinkDelEvent fd (sv_epoll h)), ho_conns := om_del fd (ho_conns h)\<rparr>))"

text \<open>\<open>data\<close> answers \<^verbatim>\<open>CreateWorkerSpecificData\<close>, \<open>delete\<close> answers \<^verbatim>\<open>DeleteWorkerSpecificData\<close>.\<close>

definition holy_StartThread :: "int \<times> int option \<Rightarrow> (bytes \<Rightarrow> socket_answers) \<Rightarrow> int \<Rightarrow> 'a holy \<Rightarrow> (RetCode + int) \<times> 'a holy" where
  "holy_StartThread data sockets create h =
     (let h = h\<lparr>ho_private_data := snd data\<rparr>
      in if fst data \<noteq> 0 then (Inr (fst data), h) else ServerThread_StartThread sockets create h)"

definition holy_StopThread :: "(int \<Rightarrow> int) \<Rightarrow> int \<Rightarrow> 'a holy \<Rightarrow> int \<times> 'a holy" where
  "holy_StopThread delete join h =
     (case ho_private_data h of
        None \<Rightarrow> Thread_StopThread join h
      | Some p \<Rightarrow> if delete p \<noteq> 0 then (delete p, h) else Thread_StopThread join (h\<lparr>ho_private_data := None\<rparr>))"

definition holy_CloseFd :: "'a pink_conn_scheme \<Rightarrow> 'a holy \<Rightarrow> 'a holy" where
  "holy_CloseFd c h = sv_call [FdClosedHandle (pc_fd c) (pc_ip_port c)] (sv_close (pc_fd c) h)"

section \<open>Events\<close>

text \<open>A factory that returns a null pointer crashes the server: \<open>None\<close>.  A failure of \<^verbatim>\<open>SetNonblock\<close> is not looked at.\<close>

definition holy_HandleNewConn :: "'a factory \<Rightarrow> (fd \<Rightarrow> fcntl_answers) \<Rightarrow> fd \<Rightarrow> bytes \<Rightarrow> 'a holy \<Rightarrow> 'a holy option" where
  "holy_HandleNewConn fac nb connfd ip_port h =
     map_option (\<lambda>tc.
       let h = sv_nonblock (nb connfd) connfd h
       in h\<lparr>ho_conns := om_ins connfd (snd (SetNonblock (nb connfd) tc)) (ho_conns h),
            sv_epoll := snd (add_event_nb (nb connfd) connfd EPOLLIN (sv_epoll h))\<rparr>) (fac connfd ip_port)"

text \<open>
  The halves of the handler give \<^verbatim>\<open>should_close\<close>, or \<open>None\<close> where the handler returns.
\<close>

definition holy_read_async :: "'a conn_ops \<Rightarrow> io \<Rightarrow> mask \<Rightarrow> timeval \<Rightarrow> 'a pink_conn_scheme \<Rightarrow> (bool option \<times> 'a pink_conn_scheme) option" where
  "holy_read_async ops i m now c =
     (if has_flag m EPOLLIN then
        map_option (\<lambda>(read_status, c).
          let c = set_last_interaction now c
          in if read_status = kReadAll then (Some False, c)
             else if read_status = kReadHalf then (None, c)
             else (Some True, c)) (co_GetRequest ops i c)
      else Some (Some False, c))"

definition holy_read_sync :: "'a conn_ops \<Rightarrow> io \<Rightarrow> mask \<Rightarrow> timeval \<Rightarrow> 'a pink_conn_scheme \<Rightarrow> pink_epoll \<Rightarrow>
    (bool option \<times> 'a pink_conn_scheme \<times> pink_epoll) option" where
  "holy_read_sync ops i m now c e =
     (if has_flag m EPOLLIN then
        map_option (\<lambda>(getRes, c).
          let c = set_last_interaction now c
          in if getRes \<noteq> kReadAll \<and> getRes \<noteq> kReadHalf then (Some True, c, e)
             else if co_is_reply ops c then (Some False, c, snd (PinkModEvent (pc_fd c) 0 EPOLLOUT e))
             else (None, c, e)) (co_GetRequest ops i c)
      else Some (Some False, c, e))"

definition holy_write :: "'a conn_ops \<Rightarrow> io \<Rightarrow> bool \<Rightarrow> fd \<Rightarrow> bool \<Rightarrow> 'a pink_conn_scheme \<Rightarrow> pink_epoll \<Rightarrow>
    (bool option \<times> 'a pink_conn_scheme \<times> pink_epoll) option" where
  "holy_write ops i enabled fd should_close c e =
     (if enabled then
        map_option (\<lambda>(write_status, c).
          (case write_status of
             kWriteAll \<Rightarrow> (Some should_close, co_set_is_reply ops False c, snd (PinkModEvent fd 0 EPOLLIN e))
           | kWriteHalf \<Rightarrow> (None, c, e)
           | kWriteError \<Rightarrow> (Some True, c, e))) (co_SendReply ops i c)
      else Some (Some should_close, c, e))"

definition holy_serve :: "'a conn_ops \<Rightarrow> fired_event \<Rightarrow> fd \<Rightarrow> bool \<Rightarrow> 'a pink_conn_scheme \<Rightarrow> pink_epoll \<Rightarrow>
    (bool option \<times> 'a pink_conn_scheme \<times> pink_epoll) option" where
  "holy_serve ops fe fd async c e =
     (if async then
        case holy_read_async ops (fe_io fe) (fe_mask fe) (fe_now fe) c of
          None \<Rightarrow> None
        | Some (None, c) \<Rightarrow> Some (None, c, e)
        | Some (Some sc, c) \<Rightarrow> holy_write ops (fe_io fe) (has_flag (fe_mask fe) EPOLLOUT \<and> co_is_reply ops c) fd sc c e
      else
        case holy_read_sync ops (fe_io fe) (fe_mask fe) (fe_now fe) c e of
          None \<Rightarrow> None
        | Some (None, c, e) \<Rightarrow> Some (None, c, e)
        | Some (Some sc, c, e) \<Rightarrow> holy_write ops (fe_io fe) (has_flag (fe_mask fe) EPOLLOUT) fd sc c e)"

definition holy_store :: "fd \<Rightarrow> 'a pink_conn_scheme \<Rightarrow> pink_epoll \<Rightarrow> 'a holy \<Rightarrow> 'a holy" where
  "holy_store fd c e h = h\<lparr>ho_conns := om_ins fd c (ho_conns h), sv_epoll := e\<rparr>"

definition holy_HandleConnEvent :: "'a conn_ops \<Rightarrow> fired_event \<Rightarrow> 'a holy \<Rightarrow> 'a holy option" where
  "holy_HandleConnEvent ops fe h =
     (case fe_fd fe of
        None \<Rightarrow> Some h
      | Some fd \<Rightarrow>
          (case om_get (ho_conns h) fd of
             None \<Rightarrow> Some (h\<lparr>sv_epoll := snd (PinkDelEvent fd (sv_epoll h))\<rparr>)
           | Some c \<Rightarrow>
               (case holy_serve ops fe fd (ho_async h) c (sv_epoll h) of
                  None \<Rightarrow> None
                | Some (None, c, e) \<Rightarrow> Some (holy_store fd c e h)
                | Some (Some should_close, c, e) \<Rightarrow>
                    if has_flag (fe_mask fe) EPOLLERR \<or> has_flag (fe_mask fe) EPOLLHUP \<or> should_close then
                      let h = holy_CloseFd c (holy_store fd c (snd (PinkDelEvent fd e)) h)
                      in Some (h\<lparr>ho_conns := om_del fd (ho_conns h)\<rparr>)
                    else Some (holy_store fd c e h))))"

definition holy_item :: "pink_item \<Rightarrow> 'a holy \<Rightarrow> 'a holy" where
  "holy_item ti h =
     (if it_notify_type ti = kNotiWrite then
        h\<lparr>sv_epoll := snd (PinkModEvent (it_fd ti) 0 (EPOLLOUT OR EPOLLIN) (sv_epoll h))\<rparr>
      else if it_notify_type ti = kNotiClose then
        case holy_get_conn (it_fd ti) h of
          None \<Rightarrow> h
        | Some c \<Rightarrow> let h = holy_CloseFd c h in h\<lparr>ho_conns := om_del (it_fd ti) (ho_conns h)\<rparr>
      else h)"

definition holy_ProcessNotifyEvents :: "mask \<Rightarrow> 'a holy \<Rightarrow> 'a holy" where
  "holy_ProcessNotifyEvents m h =
     (if has_flag m EPOLLIN then
        let (its, e) = read_items 64 (sv_epoll h) in fold holy_item its (h\<lparr>sv_epoll := e\<rparr>)
      else h)"

section \<open>Cron task, kill requests, clean-up\<close>

definition holy_timeout :: "'a pink_conn_scheme \<Rightarrow> 'a holy \<Rightarrow> 'a holy" where
  "holy_timeout c h = sv_call [FdTimeoutHandle (pc_fd c) (pc_ip_port c)] (holy_CloseFd c h)"

definition holy_DoCronTask :: "'a conn_ops \<Rightarrow> io \<Rightarrow> timeval \<Rightarrow> 'a holy \<Rightarrow> 'a holy" where
  "holy_DoCronTask ops i now h =
     (if kKillAllConnsTask \<in> ho_deleting_conn_ipport h then
        h\<lparr>ho_conns := [], ho_deleting_conn_ipport := {}\<rparr>
      else
        let (del, keep, to_close, to_timeout) =
              cron_walk (\<lambda>c. c) (co_TryResizeBuffer ops i) (ho_keepalive_timeout h) now
                (ho_deleting_conn_ipport h) (ho_conns h);
            h = h\<lparr>ho_conns := keep, ho_deleting_conn_ipport := del\<rparr>
        in fold holy_timeout to_timeout (fold holy_CloseFd to_close h))"

definition holy_Cleanup :: "'a holy \<Rightarrow> 'a holy" where
  "holy_Cleanup h = fold (\<lambda>(fd, c). holy_CloseFd c) (ho_conns h) (h\<lparr>ho_conns := []\<rparr>)"

definition holy_KillConn :: "bytes \<Rightarrow> 'a holy \<Rightarrow> bool \<times> 'a holy" where
  "holy_KillConn ip_port h =
     (let find = (if ip_port \<noteq> kKillAllConnsTask then fst (find_ip_port (\<lambda>c. c) ip_port (ho_conns h)) else False)
      in if find \<or> ip_port = kKillAllConnsTask then
           (True, h\<lparr>ho_deleting_conn_ipport := insert ip_port (ho_deleting_conn_ipport h)\<rparr>)
         else (False, h))"

definition holy_KillAllConns :: "'a holy \<Rightarrow> 'a holy" where
  "holy_KillAllConns h = snd (holy_KillConn kKillAllConnsTask h)"

definition holy_ops :: "'a conn_ops \<Rightarrow> 'a factory \<Rightarrow> (fd \<Rightarrow> fcntl_answers) \<Rightarrow> ('a, unit) holy_ext server_ops" where
  "holy_ops ops fac nb =
     \<lparr>sp_DoCronTask = holy_DoCronTask ops, sp_ProcessNotifyEvents = (\<lambda>m h. Some (holy_ProcessNotifyEvents m h)),
      sp_HandleNewConn = holy_HandleNewConn fac nb, sp_HandleConnEvent = holy_HandleConnEvent ops\<rparr>"

section \<open>Invariant and account of descriptors\<close>

text \<open>
  \<open>holy_inv H L\<close>: the table is well formed and apart from the listening sockets, no \<^verbatim>\<open>KillAllConns\<close> is
  outstanding, and every descriptor of \<open>H\<close> is still in the table or was closed and reported since the
  log was \<open>L\<close>.
\<close>

definition gone_in :: "server_call list \<Rightarrow> fd set" where
  "gone_in L = closed_in L \<inter> reported_in L"

definition holy_ok :: "'a holy \<Rightarrow> bool" where
  "holy_ok h \<longleftrightarrow> conns_ok (ho_conns h) \<and> ep_ok (sv_epoll h) \<and> keys (ho_conns h) \<inter> sv_server_fds h = {} \<and>
     kKillAllConnsTask \<notin> ho_deleting_conn_ipport h"

definition holy_inv :: "fd set \<Rightarrow> server_call list \<Rightarrow> 'a holy \<Rightarrow> bool" where
  "holy_inv H L h \<longleftrightarrow> holy_ok h \<and> (\<exists>L'. sv_log h = L @ L' \<and> H \<subseteq> keys (ho_conns h) \<union> gone_in L')"

definition holy_fresh :: "fd \<Rightarrow> 'a holy \<Rightarrow> bool" where
  "holy_fresh fd h \<longleftrightarrow> fd \<notin> keys (ho_conns h) \<and> fd \<notin> sv_server_fds h"

lemma gone_in_simps [simp]: "gone_in [] = {}" "gone_in L \<union> gone_in L' \<subseteq> gone_in (L @ L')"
  "gone_in (close_calls c) = {pc_fd c}" "gone_in (timeout_calls c) = {pc_fd c}"
  by (auto simp: gone_in_def)

lemma gone_in_append: "fd \<in> gone_in L \<or> fd \<in> gone_in L' \<Longrightarrow> fd \<in> gone_in (L @ L')"
  by (auto simp: gone_in_def)

lemma gone_in_concat: "L \<in> set Ls \<Longrightarrow> gone_in L \<subseteq> gone_in (concat Ls)"
  by (auto simp: gone_in_def)

text \<open>One step: the log grows by \<open>K\<close>, and what leaves the table is closed and reported in \<open>K\<close>.\<close>

lemma holy_inv_step:
  assumes "holy_inv H L h" "holy_ok h'" "sv_log h' = sv_log h @ K" "keys (ho_conns h) \<subseteq> keys (ho_conns h') \<union> gone_in K"
  shows "holy_inv H L h'"
proof -
  obtain L' where L': "sv_log h = L @ L'" "H \<subseteq> keys (ho_conns h) \<union> gone_in L'"
    using assms(1) by (auto simp: holy_inv_def)
  have "sv_log h' = L @ L' @ K" using L'(1) assms(3) by simp
  moreover have "H \<subseteq> keys (ho_conns h') \<union> gone_in (L' @ K)"
    using L'(2) assms(4) gone_in_simps(2) [of L' K] by blast
  ultimately show ?thesis using assms(2) by (auto simp: holy_inv_def)
qed

lemma sv_call_frame [simp]:
  "sv_epoll (sv_call cs s) = sv_epoll s" "sv_server_fds (sv_call cs s) = sv_server_fds s" "sv_log (sv_call cs s) = sv_log s @ cs"
  "ho_conns (sv_call cs h) = ho_conns h" "ho_deleting_conn_ipport (sv_call cs h) = ho_deleting_conn_ipport h"
  by (simp_all add: sv_call_def)

lemma sv_close_frame [simp]:
  "sv_epoll (sv_close fd s) = sys_close fd (sv_epoll s)" "sv_server_fds (sv_close fd s) = sv_server_fds s"
  "sv_log (sv_close fd s) = sv_log s @ [Close fd]"
  "ho_conns (sv_close fd h) = ho_conns h" "ho_deleting_conn_ipport (sv_close fd h) = ho_deleting_conn_ipport h"
  by (simp_all add: sv_close_def sv_call_def)

lemma holy_CloseFd_frame [simp]:
  "ho_conns (holy_CloseFd c h) = ho_conns h" "sv_server_fds (holy_CloseFd c h) = sv_server_fds h"
  "ho_deleting_conn_ipport (holy_CloseFd c h) = ho_deleting_conn_ipport h"
  "sv_epoll (holy_CloseFd c h) = sys_close (pc_fd c) (sv_epoll h)"
  "sv_log (holy_CloseFd c h) = sv_log h @ close_calls c"
  by (simp_all add: holy_CloseFd_def close_calls_def)

lemma holy_timeout_frame [simp]:
  "ho_conns (holy_timeout c h) = ho_conns h" "sv_server_fds (holy_timeout c h) = sv_server_fds h"
  "ho_deleting_conn_ipport (holy_timeout c h) = ho_deleting_conn_ipport h"
  "sv_epoll (holy_timeout c h) = sys_close (pc_fd c) (sv_epoll h)"
  "sv_log (holy_timeout c h) = sv_log h @ timeout_calls c"
  by (simp_all add: holy_timeout_def timeout_calls_def)

lemma fold_holy_frame:
  assumes "\<And>c h. ho_conns (f c h) = ho_conns h" "\<And>c h. sv_server_fds (f c h) = sv_server_fds h"
    "\<And>c h. ho_deleting_conn_ipport (f c h) = ho_deleting_conn_ipport h"
    "\<And>c h. ep_ok (sv_epoll h) \<Longrightarrow> ep_ok (sv_epoll (f c h))" "\<And>c h. sv_log (f c h) = sv_log h @ g c"
  shows "ho_conns (fold f cs h) = ho_conns h \<and> sv_server_fds (fold f cs h) = sv_server_fds h \<and>
    ho_deleting_conn_ipport (fold f cs h) = ho_deleting_conn_ipport h \<and>
    (ep_ok (sv_epoll h) \<longrightarrow> ep_ok (sv_epoll (fold f cs h))) \<and> sv_log (fold f cs h) = sv_log h @ concat (map g cs)"
  by (induction cs arbitrary: h) (auto simp: assms)

lemma fold_holy_CloseFd:
  "ho_conns (fold holy_CloseFd cs h) = ho_conns h \<and> sv_server_fds (fold holy_CloseFd cs h) = sv_server_fds h \<and>
   ho_deleting_conn_ipport (fold holy_CloseFd cs h) = ho_deleting_conn_ipport h \<and>
   (ep_ok (sv_epoll h) \<longrightarrow> ep_ok (sv_epoll (fold holy_CloseFd cs h))) \<and>
   sv_log (fold holy_CloseFd cs h) = sv_log h @ concat (map close_calls cs)"
  by (rule fold_holy_frame) simp_all

lemma fold_holy_timeout:
  "ho_conns (fold holy_timeout cs h) = ho_conns h \<and> sv_server_fds (fold holy_timeout cs h) = sv_server_fds h \<and>
   ho_deleting_conn_ipport (fold holy_timeout cs h) = ho_deleting_conn_ipport h \<and>
   (ep_ok (sv_epoll h) \<longrightarrow> ep_ok (sv_epoll (fold holy_timeout cs h))) \<and>
   sv_log (fold holy_timeout cs h) = sv_log h @ concat (map timeout_calls cs)"
  by (rule fold_holy_frame) simp_all

lemma fold_holy_cleanup:
  "ho_conns (fold (\<lambda>(fd, c). holy_CloseFd c) m h) = ho_conns h \<and>
   sv_server_fds (fold (\<lambda>(fd, c). holy_CloseFd c) m h) = sv_server_fds h \<and>
   ho_deleting_conn_ipport (fold (\<lambda>(fd, c). holy_CloseFd c) m h) = ho_deleting_conn_ipport h \<and>
   (ep_ok (sv_epoll h) \<longrightarrow> ep_ok (sv_epoll (fold (\<lambda>(fd, c). holy_CloseFd c) m h))) \<and>
   sv_log (fold (\<lambda>(fd, c). holy_CloseFd c) m h) = sv_log h @ concat (map (\<lambda>p. close_calls (snd p)) m)"
  by (rule fold_holy_frame) auto

lemma gone_in_close_list:
  "gone_in (concat (map (\<lambda>p. close_calls (f p)) cs)) = (\<lambda>p. pc_fd (f p)) ` set cs"
  "gone_in (concat (map (\<lambda>p. timeout_calls (f p)) cs)) = (\<lambda>p. pc_fd (f p)) ` set cs"
  by (auto simp: gone_in_def)

text \<open>The clean-up closes and reports every connection of the table.\<close>

lemma holy_Cleanup_closes:
  assumes "holy_ok h"
  shows "ho_conns (holy_Cleanup h) = []" and
    "\<exists>K. sv_log (holy_Cleanup h) = sv_log h @ K \<and> gone_in K = keys (ho_conns h)"
  using assms fold_holy_cleanup [of "ho_conns h" "h\<lparr>ho_conns := []\<rparr>"] keys_fds [of "ho_conns h"]
    gone_in_close_list(1) [of snd "ho_conns h"]
  by (auto simp: holy_Cleanup_def holy_ok_def)

lemma holy_item_inv:
  assumes "holy_inv H L h"
  shows "holy_inv H L (holy_item ti h)"
proof -
  have ok: "holy_ok h" using assms by (simp add: holy_inv_def)
  consider (modify) "it_notify_type ti = kNotiWrite" | (close) c where "it_notify_type ti = kNotiClose" "om_get (ho_conns h) (it_fd ti) = Some c"
    | (other) "holy_item ti h = h"
    by (cases "it_notify_type ti"; cases "om_get (ho_conns h) (it_fd ti)") (auto simp: holy_item_def holy_get_conn_def)
  then show ?thesis
  proof cases
    case modify
    show ?thesis by (rule holy_inv_step [OF assms, of _ "[]"]) (use ok modify in \<open>auto simp: holy_item_def holy_ok_def\<close>)
  next
    case close
    with ok have "pc_fd c = it_fd ti" by (auto simp: holy_ok_def intro: conns_ok_get)
    then show ?thesis
      by (intro holy_inv_step [OF assms, of _ "close_calls c"])
        (use ok close in \<open>auto simp: holy_item_def holy_get_conn_def holy_ok_def conns_ok_del Let_def\<close>)
  qed (use assms in simp)
qed

lemma holy_notify_inv:
  assumes "holy_inv H L h"
  shows "holy_inv H L (holy_ProcessNotifyEvents m h)"
proof -
  let ?h = "h\<lparr>sv_epoll := (sv_epoll h)\<lparr>ep_pipe := drop 64 (ep_pipe (sv_epoll h))\<rparr>\<rparr>"
  have "holy_inv H L ?h" using assms by (auto simp: holy_inv_def holy_ok_def)
  then have "holy_inv H L (fold holy_item its ?h)" for its
    by (induction its arbitrary: h rule: rev_induct) (auto intro: holy_item_inv)
  with assms show ?thesis by (simp add: holy_ProcessNotifyEvents_def read_items_def)
qed

context conn_server
begin

lemma holy_write_frame:
  assumes "holy_write ops i en fd sc c e = Some (r, c', e')"
  shows "pc_fd c' = pc_fd c \<and> (ep_ok e \<longrightarrow> ep_ok e')"
proof (cases en)
  case True
  with assms obtain ws c1 where sr: "co_SendReply ops i c = Some (ws, c1)" by (auto simp: holy_write_def)
  from SendReply_fd [OF sr] True assms sr show ?thesis by (cases ws) (auto simp: holy_write_def)
qed (use assms in \<open>simp add: holy_write_def\<close>)

lemma holy_read_frames:
  "holy_read_async ops i m now c = Some (r, c') \<Longrightarrow> pc_fd c' = pc_fd c"
  "holy_read_sync ops i m now c e = Some (r, c', e') \<Longrightarrow> pc_fd c' = pc_fd c \<and> (ep_ok e \<longrightarrow> ep_ok e')"
  by (auto simp: holy_read_async_def holy_read_sync_def set_last_interaction_def Let_def dest!: GetRequest_fd
      split: if_splits)

lemma holy_serve_frame:
  assumes "holy_serve ops fe fd async c e = Some (r, c', e')"
  shows "pc_fd c' = pc_fd c \<and> (ep_ok e \<longrightarrow> ep_ok e')"
  using assms by (auto simp: holy_serve_def dest!: holy_read_frames holy_write_frame split: if_splits option.splits)

lemma holy_store_inv:
  assumes "holy_inv H L h" "pc_fd c = fd" "ep_ok e" "fd \<notin> sv_server_fds h"
  shows "holy_inv H L (holy_store fd c e h)"
  by (rule holy_inv_step [OF assms(1), of _ "[]"])
    (use assms in \<open>auto simp: holy_inv_def holy_ok_def holy_store_def conns_ok_ins\<close>)

lemma holy_conn_event_inv:
  assumes inv: "holy_inv H L h" and fd: "fe_fd fe = Some fd" and ev: "holy_HandleConnEvent ops fe h = Some h'"
  shows "holy_inv H L h'"
proof (cases "om_get (ho_conns h) fd")
  case None
  with ev fd have "h' = h\<lparr>sv_epoll := snd (PinkDelEvent fd (sv_epoll h))\<rparr>" by (simp add: holy_HandleConnEvent_def)
  with inv show ?thesis by (auto simp: holy_inv_def holy_ok_def)
next
  case (Some c)
  have ok: "holy_ok h" using inv by (simp add: holy_inv_def)
  then have c: "pc_fd c = fd" "ep_ok (sv_epoll h)" "fd \<notin> sv_server_fds h"
    using Some om_get_in_keys [OF Some] by (auto simp: holy_ok_def intro: conns_ok_get)
  from ev fd Some obtain r c' e where sv: "holy_serve ops fe fd (ho_async h) c (sv_epoll h) = Some (r, c', e)"
    by (auto simp: holy_HandleConnEvent_def split: option.splits)
  note frame = holy_serve_frame [OF sv]
  let ?k = "holy_CloseFd c' (holy_store fd c' (snd (PinkDelEvent fd e)) h)"
  have closed: "holy_inv H L (?k\<lparr>ho_conns := om_del fd (ho_conns ?k)\<rparr>)"
    by (rule holy_inv_step [OF inv, of _ "close_calls c'"])
      (use ok frame c in \<open>auto simp: holy_ok_def holy_store_def conns_ok_ins conns_ok_del\<close>)
  have stored: "holy_inv H L (holy_store fd c' e h)" using inv frame c by (intro holy_store_inv) auto
  show ?thesis
    using ev fd Some sv closed stored
    by (cases r) (auto simp: holy_HandleConnEvent_def Let_def split: if_splits)
qed

lemma nonblock_frame [simp]:
  "ho_conns (sv_nonblock a fd h) = ho_conns h" "sv_server_fds (sv_nonblock a fd h) = sv_server_fds h"
  "ho_deleting_conn_ipport (sv_nonblock a fd h) = ho_deleting_conn_ipport h" "ep_ok (sv_epoll h) \<Longrightarrow> ep_ok (sv_epoll (sv_nonblock a fd h))"
  "sv_log (sv_nonblock a fd h) = sv_log h @ (if snd (Setnonblocking a) then [Close fd] else [])"
  by (simp_all add: sv_nonblock_def sv_close_def sv_call_def)

lemma holy_new_conn_inv:
  assumes inv: "holy_inv H L h" and fresh: "holy_fresh fd h" and new: "holy_HandleNewConn fac nb fd ip h = Some h'"
  shows "holy_inv H L h'"
proof -
  obtain c where c: "fac fd ip = Some c" using new by (auto simp: holy_HandleNewConn_def)
  show ?thesis
    by (rule holy_inv_step [OF inv, of _ "if snd (Setnonblocking (nb fd)) then [Close fd] else []"])
      (use inv fresh new c new_conn_fd [OF c] in
        \<open>auto simp: holy_inv_def holy_ok_def holy_fresh_def holy_HandleNewConn_def conns_ok_ins Let_def\<close>)
qed

lemma cron_walk_del: "fst (cron_walk mark resize ka now del m) \<subseteq> del"
proof (induction mark resize ka now del m rule: cron_walk.induct)
  case (2 mark resize ka now del fd c m)
  then show ?case
    by (cases "pc_ip_port c \<in> del"; cases "idle_too_long ka now c") (auto split: prod.splits)
qed simp

lemma holy_cron_inv:
  assumes inv: "holy_inv H L h"
  shows "holy_inv H L (holy_DoCronTask ops i now h)"
proof -
  have ok: "holy_ok h" using inv by (simp add: holy_inv_def)
  obtain del keep cl tt where walk: "cron_walk (\<lambda>c. c) (co_TryResizeBuffer ops i) (ho_keepalive_timeout h) now
      (ho_deleting_conn_ipport h) (ho_conns h) = (del, keep, cl, tt)"
    using prod_cases4 by blast
  let ?h = "h\<lparr>ho_conns := keep, ho_deleting_conn_ipport := del\<rparr>"
  have cron: "holy_DoCronTask ops i now h = fold holy_timeout tt (fold holy_CloseFd cl ?h)"
    using ok walk by (simp add: holy_DoCronTask_def holy_ok_def)
  have table: "conns_ok (ho_conns h)" using ok by (simp add: holy_ok_def)
  have keep: "conns_ok keep" by (rule cron_walk_keeps_ok [OF walk table]) simp
  have parts: "keys keep \<union> pc_fd ` set cl \<union> pc_fd ` set tt = keys (ho_conns h)"
    by (rule cron_walk_covers [OF walk table]) simp
  have del: "del \<subseteq> ho_deleting_conn_ipport h"
    using cron_walk_del [of "\<lambda>c. c" "co_TryResizeBuffer ops i" "ho_keepalive_timeout h" now "ho_deleting_conn_ipport h" "ho_conns h"] walk by simp
  note folds = fold_holy_CloseFd [of cl ?h] fold_holy_timeout [of tt "fold holy_CloseFd cl ?h"]
  show ?thesis
  proof (rule holy_inv_step [OF inv, of _ "concat (map close_calls cl) @ concat (map timeout_calls tt)"])
    show "holy_ok (holy_DoCronTask ops i now h)"
      using ok folds keep parts del by (auto simp: cron holy_ok_def)
    show "sv_log (holy_DoCronTask ops i now h) = sv_log h @ concat (map close_calls cl) @ concat (map timeout_calls tt)"
      using folds by (simp add: cron)
    have "pc_fd ` set cl \<union> pc_fd ` set tt \<subseteq> gone_in (concat (map close_calls cl) @ concat (map timeout_calls tt))"
      using gone_in_simps(2) [of "concat (map close_calls cl)" "concat (map timeout_calls tt)"]
        gone_in_close_list [of "\<lambda>c. c" cl] gone_in_close_list [of "\<lambda>c. c" tt] by simp
    moreover have "ho_conns (holy_DoCronTask ops i now h) = keep" using folds by (simp add: cron)
    ultimately show "keys (ho_conns h) \<subseteq> keys (ho_conns (holy_DoCronTask ops i now h)) \<union>
        gone_in (concat (map close_calls cl) @ concat (map timeout_calls tt))"
      unfolding parts [symmetric] by blast
  qed
qed

lemma holy_base_inv:
  "holy_inv H L h \<Longrightarrow> holy_inv H L (sv_call [CronHandle] h)"
  "holy_inv H L h \<Longrightarrow> fd \<notin> keys (ho_conns h) \<Longrightarrow> holy_inv H L (sv_close fd h)"
proof -
  assume inv: "holy_inv H L h"
  then have ok: "holy_ok h" by (simp add: holy_inv_def)
  show "holy_inv H L (sv_call [CronHandle] h)"
    by (rule holy_inv_step [OF inv]) (use ok in \<open>auto simp: holy_ok_def\<close>)
  show "holy_inv H L (sv_close fd h)" if "fd \<notin> keys (ho_conns h)"
    by (rule holy_inv_step [OF inv]) (use ok in \<open>auto simp: holy_ok_def\<close>)
qed

end

sublocale conn_server \<subseteq> holy: server_class "holy_ops ops fac nb" "holy_inv H L" holy_fresh for nb H L
proof unfold_locales
  fix h :: "'a holy" and fd
  assume "holy_inv H L h" "holy_fresh fd h \<or> fd \<in> sv_server_fds h"
  then show "holy_inv H L (sv_close fd h)"
    by (intro holy_base_inv(2)) (auto simp: holy_inv_def holy_ok_def holy_fresh_def)
qed (simp_all add: holy_ops_def holy_cron_inv holy_conn_event_inv holy_base_inv, auto intro: holy_notify_inv holy_new_conn_inv)

context conn_server
begin

lemma holy_loop_inv:
  assumes "holy_inv H L h" "fresh_turns holy_fresh (holy_ops ops fac nb) tus (tm, h)"
    "server_loop (holy_ops ops fac nb) tus (tm, h) = Some (tm', h')"
  shows "holy_inv H L h'"
  using assms by (rule holy.loop_I)

end

end
