(* ===== verification/PubSub.thy ===== *)
theory PubSub
  imports ConnTable
begin

text \<open>
  The publish/subscribe thread (\<^verbatim>\<open>include/pink_pubsub.h\<close>, \<^verbatim>\<open>src/pink_pubsub.cc\<close>).

  Connections are named by their descriptors; \<open>ps_objs\<close> holds the objects.  \<^verbatim>\<open>MoveConnOut\<close> takes its
  connection by reference, and the publishing loop passes a reference into the very vector from which the
  connection is then erased: a reference is a value \<open>Val fd\<close> or a place \<open>Slot\<close> in a vector, read again at
  every use.  \<open>None\<close> is a read beyond the end of a vector, or a handler that does not return.

  Calls of \<^verbatim>\<open>Subscribe\<close> and \<^verbatim>\<open>UnSubscribe\<close> that an application makes from inside a handler are steps of their
  own here.  The matching function \<^verbatim>\<open>slash::stringmatchlen\<close> is a parameter.
\<close>

section \<open>State\<close>

datatype ReadyState = kNotReady | kReady

type_synonym subscriptions = "(bytes, fd list) omap"

record 'a pubsub = thread +
  ps_objs :: "'a conns"
  ps_conns :: "(fd, ReadyState) omap"
  ps_epoll :: pink_epoll
  ps_channel :: bytes
  ps_message :: bytes
  ps_receivers :: int
  ps_triggers :: nat
  ps_pubsub_channel :: subscriptions
  ps_pubsub_pattern :: subscriptions
  ps_log :: "server_call list"

definition PubSubThread_new :: "'a pubsub" where
  "PubSubThread_new = thread.extend Thread_new
     \<lparr>ps_objs = [], ps_conns = [], ps_epoll = \<lparr>ep_events = [], ep_pipe = []\<rparr>, ps_channel = [], ps_message = [],
      ps_receivers = -1, ps_triggers = 0, ps_pubsub_channel = [], ps_pubsub_pattern = [], ps_log = []\<rparr>"

definition bulk_string :: "bytes \<Rightarrow> bytes" where
  "bulk_string s = ''$'' @ to_string (length s) @ CRLF @ s @ CRLF"

definition ConstructPublishResp :: "bytes \<Rightarrow> bytes \<Rightarrow> bytes \<Rightarrow> bool \<Rightarrow> bytes" where
  "ConstructPublishResp subscribe_channel publish_channel msg pattern =
     (if pattern then
        ''*4'' @ CRLF @ bulk_string ''pmessage'' @ bulk_string subscribe_channel @ bulk_string publish_channel @ bulk_string msg
      else ''*3'' @ CRLF @ bulk_string ''message'' @ bulk_string publish_channel @ bulk_string msg)"

definition pubsub_CloseFd :: "fd \<Rightarrow> 'a pubsub \<Rightarrow> 'a pubsub" where
  "pubsub_CloseFd fd s = s\<lparr>ps_epoll := sys_close fd (ps_epoll s), ps_log := ps_log s @ [Close fd]\<rparr>"

definition UpdateConnReadyState :: "fd \<Rightarrow> ReadyState \<Rightarrow> 'a pubsub \<Rightarrow> 'a pubsub" where
  "UpdateConnReadyState fd state s =
     (case om_get (ps_conns s) fd of None \<Rightarrow> s | Some _ \<Rightarrow> s\<lparr>ps_conns := om_ins fd state (ps_conns s)\<rparr>)"

definition IsReady :: "fd \<Rightarrow> 'a pubsub \<Rightarrow> bool" where
  "IsReady fd s \<longleftrightarrow> om_get (ps_conns s) fd = Some kReady"

section \<open>Moving connections\<close>

datatype conn_ref = Val fd | Slot bool bytes nat

text \<open>The vectors of the channel map (\<open>False\<close>) or the pattern map (\<open>True\<close>).\<close>

definition subs :: "bool \<Rightarrow> 'a pubsub \<Rightarrow> subscriptions" where
  "subs pattern s = (if pattern then ps_pubsub_pattern s else ps_pubsub_channel s)"

definition set_subs :: "bool \<Rightarrow> subscriptions \<Rightarrow> 'a pubsub \<Rightarrow> 'a pubsub" where
  "set_subs pattern m s = (if pattern then s\<lparr>ps_pubsub_pattern := m\<rparr> else s\<lparr>ps_pubsub_channel := m\<rparr>)"

definition vec_of :: "subscriptions \<Rightarrow> bytes \<Rightarrow> fd list" where
  "vec_of m ch = (case om_get m ch of None \<Rightarrow> [] | Some v \<Rightarrow> v)"

fun deref :: "'a pubsub \<Rightarrow> conn_ref \<Rightarrow> fd option" where
  "deref s (Val fd) = Some fd"
| "deref s (Slot pattern ch i) =
     (let v = vec_of (subs pattern s) ch in if i < length v then Some (v ! i) else None)"

text \<open>Erasing the connection from each vector of a map, in order; an empty vector is not compared.\<close>

fun remove_from :: "bool \<Rightarrow> conn_ref \<Rightarrow> bytes list \<Rightarrow> 'a pubsub \<Rightarrow> 'a pubsub option" where
  "remove_from pattern r [] s = Some s"
| "remove_from pattern r (ch # chs) s =
     (let v = vec_of (subs pattern s) ch
      in if v = [] then remove_from pattern r chs s
         else case deref s r of
                None \<Rightarrow> None
              | Some fd \<Rightarrow> remove_from pattern r chs (set_subs pattern (om_ins ch (remove1 fd v) (subs pattern s)) s))"

definition RemoveConn :: "conn_ref \<Rightarrow> 'a pubsub \<Rightarrow> 'a pubsub option" where
  "RemoveConn r s =
     (case remove_from True r (map fst (ps_pubsub_pattern s)) s of
        None \<Rightarrow> None
      | Some s \<Rightarrow> remove_from False r (map fst (ps_pubsub_channel s)) s)"

definition pubsub_MoveConnOut :: "conn_ref \<Rightarrow> 'a pubsub \<Rightarrow> 'a pubsub option" where
  "pubsub_MoveConnOut r s =
     (case RemoveConn r s of
        None \<Rightarrow> None
      | Some s \<Rightarrow>
          (case deref s r of
             None \<Rightarrow> None
           | Some fd \<Rightarrow> Some (s\<lparr>ps_epoll := snd (PinkDelEvent fd (ps_epoll s)), ps_conns := om_del fd (ps_conns s)\<rparr>)))"

definition pubsub_MoveConnIn :: "'a pink_conn_scheme \<Rightarrow> NotifyType \<Rightarrow> 'a pubsub \<Rightarrow> 'a pubsub option" where
  "pubsub_MoveConnIn c notify_type s =
     map_option (\<lambda>it. s\<lparr>ps_epoll := snd (Register it True (ps_epoll s)), ps_conns := om_ins (pc_fd c) kNotReady (ps_conns s),
         ps_objs := om_ins (pc_fd c) c (ps_objs s)\<rparr>)
       (PinkItem_new (pc_fd c) (pc_ip_port c) notify_type)"

section \<open>Subscriptions\<close>

definition subscribed_in :: "fd \<Rightarrow> subscriptions \<Rightarrow> nat" where
  "subscribed_in fd m = length (filter (\<lambda>(ch, v). fd \<in> set v) m)"

definition ClientChannelSize :: "fd \<Rightarrow> 'a pubsub \<Rightarrow> nat" where
  "ClientChannelSize fd s = subscribed_in fd (ps_pubsub_channel s) + subscribed_in fd (ps_pubsub_pattern s)"

text \<open>One channel: both modes insert into the pattern map.\<close>

definition subscribe_one :: "fd \<Rightarrow> bytes \<Rightarrow> nat \<Rightarrow> 'a pubsub \<Rightarrow> nat \<times> 'a pubsub" where
  "subscribe_one fd ch subscribed s =
     (let v = vec_of (ps_pubsub_pattern s) ch
      in if fd \<in> set v then (subscribed, s)
         else (subscribed + 1, s\<lparr>ps_pubsub_pattern := om_ins ch (v @ [fd]) (ps_pubsub_pattern s)\<rparr>))"

fun subscribe_all :: "fd \<Rightarrow> bytes list \<Rightarrow> nat \<Rightarrow> 'a pubsub \<Rightarrow> (bytes \<times> nat) list \<times> 'a pubsub" where
  "subscribe_all fd [] subscribed s = ([], s)"
| "subscribe_all fd (ch # chs) subscribed s =
     (let (n, s) = subscribe_one fd ch subscribed s; (result, s) = subscribe_all fd chs n s
      in ((ch, n) # result, s))"

definition Subscribe :: "'a pink_conn_scheme \<Rightarrow> bytes list \<Rightarrow> bool \<Rightarrow> 'a pubsub \<Rightarrow> ((bytes \<times> nat) list \<times> 'a pubsub) option" where
  "Subscribe c channels pattern s =
     (let subscribed = ClientChannelSize (pc_fd c) s
      in map_option (subscribe_all (pc_fd c) channels subscribed)
           (if subscribed = 0 then pubsub_MoveConnIn c kNotiWait s else Some s))"

text \<open>The report of a client that leaves all channels of one mode: the counts go down one by one.\<close>

fun leave_all :: "fd \<Rightarrow> int \<Rightarrow> subscriptions \<Rightarrow> (bytes \<times> int) list" where
  "leave_all fd subscribed [] = []"
| "leave_all fd subscribed ((ch, v) # m) =
     (if fd \<in> set v then (ch, subscribed - 1) # leave_all fd (subscribed - 1) m else leave_all fd subscribed m)"

definition unsubscribe_one :: "fd \<Rightarrow> bool \<Rightarrow> bytes \<Rightarrow> int \<Rightarrow> 'a pubsub \<Rightarrow> (bytes \<times> int) \<times> int \<times> 'a pubsub" where
  "unsubscribe_one fd pattern ch subscribed s =
     (case om_get (subs pattern s) ch of
        None \<Rightarrow> ((ch, 0), subscribed, s)
      | Some v \<Rightarrow>
          if fd \<in> set v then
            ((ch, subscribed - 1), subscribed - 1, set_subs pattern (om_ins ch (removeAll fd v) (subs pattern s)) s)
          else ((ch, subscribed), subscribed, s))"

fun unsubscribe_list :: "fd \<Rightarrow> bool \<Rightarrow> bytes list \<Rightarrow> int \<Rightarrow> 'a pubsub \<Rightarrow> (bytes \<times> int) list \<times> 'a pubsub" where
  "unsubscribe_list fd pattern [] subscribed s = ([], s)"
| "unsubscribe_list fd pattern (ch # chs) subscribed s =
     (let (r, n, s) = unsubscribe_one fd pattern ch subscribed s; (result, s) = unsubscribe_list fd pattern chs n s
      in (r # result, s))"

definition UnSubscribe :: "fd \<Rightarrow> bytes list \<Rightarrow> bool \<Rightarrow> 'a pubsub \<Rightarrow> (int \<times> (bytes \<times> int) list \<times> 'a pubsub) option" where
  "UnSubscribe fd channels pattern s =
     (let subscribed = int (ClientChannelSize fd s); exist = (subscribed \<noteq> 0)
      in if channels = [] then
           let result = leave_all fd subscribed (subs pattern s)
           in map_option (\<lambda>s. (0, result, s)) (if exist then pubsub_MoveConnOut (Val fd) s else Some s)
         else
           let (result, s) = unsubscribe_list fd pattern channels subscribed s; n = int (ClientChannelSize fd s)
           in map_option (\<lambda>s. (n, result, s)) (if n = 0 \<and> exist then pubsub_MoveConnOut (Val fd) s else Some s))"

text \<open>\<open>match a b\<close> is \<^verbatim>\<open>stringmatchlen\<close> with \<open>a\<close> as its first and \<open>b\<close> as its second string.\<close>

definition PubSubChannels :: "(bytes \<Rightarrow> bytes \<Rightarrow> bool) \<Rightarrow> bytes \<Rightarrow> 'a pubsub \<Rightarrow> bytes list" where
  "PubSubChannels match pattern s =
     map fst (filter (\<lambda>(ch, v). (pattern = [] \<or> match ch pattern) \<and> v \<noteq> []) (ps_pubsub_channel s))"

definition PubSubNumSub :: "bytes list \<Rightarrow> 'a pubsub \<Rightarrow> (bytes \<times> nat) list" where
  "PubSubNumSub channels s = map (\<lambda>ch. (ch, length (vec_of (ps_pubsub_channel s) ch))) channels"

definition PubSubNumPat :: "'a pubsub \<Rightarrow> nat" where
  "PubSubNumPat s = sum_list (map (\<lambda>(ch, v). length v) (ps_pubsub_pattern s))"

section \<open>Publishing\<close>

text \<open>Writing a message to one subscriber; the result says whether it counts as a receiver.\<close>

definition publish_to :: "'a conn_ops \<Rightarrow> (fd \<Rightarrow> io) \<Rightarrow> bytes \<Rightarrow> conn_ref \<Rightarrow> fd \<Rightarrow> 'a pubsub \<Rightarrow> (nat \<times> 'a pubsub) option" where
  "publish_to ops ios resp r fd s =
     (case om_get (ps_objs s) fd of
        None \<Rightarrow> None
      | Some c \<Rightarrow>
          (case co_SendReply ops (ios fd) (co_WriteResp ops resp c) of
             None \<Rightarrow> None
           | Some (write_status, c) \<Rightarrow>
               let s = s\<lparr>ps_objs := om_ins fd c (ps_objs s)\<rparr>
               in (case write_status of
                     kWriteAll \<Rightarrow> Some (1, s)
                   | kWriteHalf \<Rightarrow> Some (0, s\<lparr>ps_epoll := snd (PinkModEvent fd EPOLLIN EPOLLOUT (ps_epoll s))\<rparr>)
                   | kWriteError \<Rightarrow>
                       (case pubsub_MoveConnOut r s of
                          None \<Rightarrow> None
                        | Some s \<Rightarrow> map_option (\<lambda>fd. (0, pubsub_CloseFd fd s)) (deref s r)))))"

text \<open>The loop over one vector; its size is read again at each turn, and only shrinks.\<close>

function publish_vec :: "'a conn_ops \<Rightarrow> (fd \<Rightarrow> io) \<Rightarrow> bool \<Rightarrow> bytes \<Rightarrow> bytes \<Rightarrow> nat \<Rightarrow> nat \<Rightarrow> 'a pubsub \<Rightarrow> (nat \<times> 'a pubsub) option" where
  "publish_vec ops ios pattern ch resp n i s =
     (let v = vec_of (subs pattern s) ch
      in if i < length v \<and> i < n then
           if \<not> IsReady (v ! i) s then publish_vec ops ios pattern ch resp n (Suc i) s
           else case publish_to ops ios resp (Slot pattern ch i) (v ! i) s of
                  None \<Rightarrow> None
                | Some (k, s) \<Rightarrow> map_option (\<lambda>(r, s). (k + r, s)) (publish_vec ops ios pattern ch resp n (Suc i) s)
         else Some (0, s))"
  by pat_completeness auto
termination
  by (relation "measure (\<lambda>(ops, ios, pattern, ch, resp, n, i, s). n - i)") auto

declare publish_vec.simps [simp del]

fun publish_map :: "'a conn_ops \<Rightarrow> (bytes \<Rightarrow> fd \<Rightarrow> io) \<Rightarrow> (bytes \<Rightarrow> bool) \<Rightarrow> bool \<Rightarrow> bytes \<Rightarrow> bytes \<Rightarrow> bytes list \<Rightarrow> 'a pubsub \<Rightarrow>
    (nat \<times> 'a pubsub) option" where
  "publish_map ops ios sel pattern channel msg [] s = Some (0, s)"
| "publish_map ops ios sel pattern channel msg (ch # chs) s =
     (if sel ch then
        case publish_vec ops (ios ch) pattern ch (ConstructPublishResp ch channel msg pattern) (length (vec_of (subs pattern s) ch)) 0 s of
          None \<Rightarrow> None
        | Some (k, s) \<Rightarrow> map_option (\<lambda>(r, s). (k + r, s)) (publish_map ops ios sel pattern channel msg chs s)
      else publish_map ops ios sel pattern channel msg chs s)"

text \<open>\<open>ios p ch fd\<close> answers the writes to \<open>fd\<close> as a subscriber of \<open>ch\<close> in the channel map or the pattern map.\<close>

type_synonym publish_ios = "bool \<Rightarrow> bytes \<Rightarrow> fd \<Rightarrow> io"

definition publish_event :: "'a conn_ops \<Rightarrow> (bytes \<Rightarrow> bytes \<Rightarrow> bool) \<Rightarrow> publish_ios \<Rightarrow> 'a pubsub \<Rightarrow> 'a pubsub option" where
  "publish_event ops match ios s =
     (let channel = ps_channel s; msg = ps_message s;
          s = s\<lparr>ps_triggers := ps_triggers s - 1, ps_channel := [], ps_message := []\<rparr>
      in case publish_map ops (ios False) (\<lambda>ch. channel = ch) False channel msg (map fst (ps_pubsub_channel s)) s of
           None \<Rightarrow> None
         | Some (r1, s) \<Rightarrow>
             map_option (\<lambda>(r2, s). s\<lparr>ps_receivers := int (r1 + r2)\<rparr>)
               (publish_map ops (ios True) (\<lambda>ch. match ch channel) True channel msg (map fst (ps_pubsub_pattern s)) s))"

text \<open>
  \<^verbatim>\<open>Publish\<close> posts the message and wakes the thread, and returns once \<^verbatim>\<open>receivers_\<close> is set; publishers
  exclude each other.
\<close>

definition publish_post :: "bytes \<Rightarrow> bytes \<Rightarrow> 'a pubsub \<Rightarrow> 'a pubsub" where
  "publish_post channel msg s = s\<lparr>ps_channel := channel, ps_message := msg, ps_triggers := ps_triggers s + 1\<rparr>"

definition publish_collect :: "'a pubsub \<Rightarrow> (int \<times> 'a pubsub) option" where
  "publish_collect s = (if ps_receivers s = -1 then None else Some (ps_receivers s, s\<lparr>ps_receivers := -1\<rparr>))"

definition Publish :: "'a conn_ops \<Rightarrow> (bytes \<Rightarrow> bytes \<Rightarrow> bool) \<Rightarrow> publish_ios \<Rightarrow> bytes \<Rightarrow> bytes \<Rightarrow> 'a pubsub \<Rightarrow> (int \<times> 'a pubsub) option" where
  "Publish ops match ios channel msg s =
     (case publish_event ops match ios (publish_post channel msg s) of None \<Rightarrow> None | Some s \<Rightarrow> publish_collect s)"

section \<open>Events\<close>

definition pubsub_item :: "pink_item \<Rightarrow> 'a pubsub \<Rightarrow> 'a pubsub" where
  "pubsub_item ti s =
     (case it_notify_type ti of
        kNotiEpollout \<Rightarrow> s\<lparr>ps_epoll := snd (PinkModEvent (it_fd ti) 0 EPOLLOUT (ps_epoll s))\<rparr>
      | kNotiEpollin \<Rightarrow> s\<lparr>ps_epoll := snd (PinkModEvent (it_fd ti) 0 EPOLLIN (ps_epoll s))\<rparr>
      | kNotiEpolloutAndEpollin \<Rightarrow> s\<lparr>ps_epoll := snd (PinkModEvent (it_fd ti) 0 (EPOLLOUT OR EPOLLIN) (ps_epoll s))\<rparr>
      | kNotiWait \<Rightarrow> s\<lparr>ps_epoll := snd (PinkAddEvent (it_fd ti) 0 (ps_epoll s))\<rparr>
      | _ \<Rightarrow> s)"

text \<open>One item per event.\<close>

definition pubsub_notify :: "'a pubsub \<Rightarrow> 'a pubsub" where
  "pubsub_notify s =
     (let (its, e) = read_items 1 (ps_epoll s) in fold pubsub_item its (s\<lparr>ps_epoll := e\<rparr>))"

definition ready_to_reply :: "'a conn_ops \<Rightarrow> 'a pink_conn_scheme \<Rightarrow> bool" where
  "ready_to_reply ops c \<longleftrightarrow> pc_is_writable c \<and> co_is_reply ops c"

definition pubsub_send :: "'a conn_ops \<Rightarrow> io \<Rightarrow> mask \<Rightarrow> fd \<Rightarrow> 'a pink_conn_scheme \<Rightarrow> pink_epoll \<Rightarrow>
    (bool option \<times> 'a pink_conn_scheme \<times> pink_epoll) option" where
  "pubsub_send ops i m fd c e =
     (if has_flag m EPOLLOUT \<and> ready_to_reply ops c then
        map_option (\<lambda>(write_status, c).
          (case write_status of
             kWriteAll \<Rightarrow> (Some False, co_set_is_reply ops False c, snd (PinkModEvent fd 0 EPOLLIN e))
           | kWriteHalf \<Rightarrow> (None, c, e)
           | kWriteError \<Rightarrow> (Some True, c, e))) (co_SendReply ops i c)
      else Some (Some False, c, e))"

definition pubsub_receive :: "'a conn_ops \<Rightarrow> io \<Rightarrow> mask \<Rightarrow> fd \<Rightarrow> bool \<Rightarrow> 'a pink_conn_scheme \<Rightarrow> pink_epoll \<Rightarrow>
    (bool option \<times> 'a pink_conn_scheme \<times> pink_epoll) option" where
  "pubsub_receive ops i m fd should_close c e =
     (if \<not> should_close \<and> has_flag m EPOLLIN then
        case co_GetRequest ops i c of
          None \<Rightarrow> None
        | Some (getRes, c) \<Rightarrow>
            if getRes \<noteq> kReadAll \<and> getRes \<noteq> kReadHalf then Some (Some True, c, e)
            else if ready_to_reply ops c then
              map_option (\<lambda>(write_status, c).
                (case write_status of
                   kWriteAll \<Rightarrow> (Some False, co_set_is_reply ops False c, e)
                 | kWriteHalf \<Rightarrow> (Some False, c, snd (PinkModEvent fd EPOLLIN EPOLLOUT e))
                 | kWriteError \<Rightarrow> (Some True, c, e))) (co_SendReply ops i c)
            else Some (None, c, e)
      else Some (Some should_close, c, e))"

definition pubsub_store :: "fd \<Rightarrow> 'a pink_conn_scheme \<Rightarrow> pink_epoll \<Rightarrow> 'a pubsub \<Rightarrow> 'a pubsub" where
  "pubsub_store fd c e s = s\<lparr>ps_objs := om_ins fd c (ps_objs s), ps_epoll := e\<rparr>"

definition pubsub_conn_event :: "'a conn_ops \<Rightarrow> io \<Rightarrow> mask \<Rightarrow> fd \<Rightarrow> 'a pubsub \<Rightarrow> 'a pubsub option" where
  "pubsub_conn_event ops i m fd s =
     (case om_get (ps_conns s) fd of
        None \<Rightarrow> Some (s\<lparr>ps_epoll := snd (PinkDelEvent fd (ps_epoll s))\<rparr>)
      | Some _ \<Rightarrow>
          (case om_get (ps_objs s) fd of
             None \<Rightarrow> None
           | Some c \<Rightarrow>
               (case pubsub_send ops i m fd c (ps_epoll s) of
                  None \<Rightarrow> None
                | Some (None, c, e) \<Rightarrow> Some (pubsub_store fd c e s)
                | Some (Some sc, c, e) \<Rightarrow>
                    (case pubsub_receive ops i m fd sc c e of
                       None \<Rightarrow> None
                     | Some (None, c, e) \<Rightarrow> Some (pubsub_store fd c e s)
                     | Some (Some sc, c, e) \<Rightarrow>
                         let s = pubsub_store fd c e s
                         in if has_flag m EPOLLERR \<or> has_flag m EPOLLHUP \<or> sc then
                              map_option (pubsub_CloseFd fd) (pubsub_MoveConnOut (Val fd) s)
                            else Some s))))"

definition pubsub_Cleanup :: "'a pubsub \<Rightarrow> 'a pubsub" where
  "pubsub_Cleanup s = (fold (\<lambda>(fd, _). pubsub_CloseFd fd) (ps_conns s) s)\<lparr>ps_conns := []\<rparr>"

datatype ps_target = Ps_notify | Ps_message publish_ios | Ps_conn fd io

definition pubsub_event :: "'a conn_ops \<Rightarrow> (bytes \<Rightarrow> bytes \<Rightarrow> bool) \<Rightarrow> ps_target \<Rightarrow> mask \<Rightarrow> 'a pubsub \<Rightarrow> 'a pubsub option" where
  "pubsub_event ops match t m s =
     (case t of
        Ps_notify \<Rightarrow> Some (if has_flag m EPOLLIN then pubsub_notify s else s)
      | Ps_message ios \<Rightarrow> if has_flag m EPOLLIN then publish_event ops match ios s else Some s
      | Ps_conn fd i \<Rightarrow> pubsub_conn_event ops i m fd s)"

fun pubsub_loop :: "'a conn_ops \<Rightarrow> (bytes \<Rightarrow> bytes \<Rightarrow> bool) \<Rightarrow> (ps_target \<times> mask) list \<Rightarrow> 'a pubsub \<Rightarrow> 'a pubsub option" where
  "pubsub_loop ops match [] s = Some s"
| "pubsub_loop ops match ((t, m) # evs) s =
     (case pubsub_event ops match t m s of None \<Rightarrow> None | Some s' \<Rightarrow> pubsub_loop ops match evs s')"

definition pubsub_ThreadMain :: "'a conn_ops \<Rightarrow> (bytes \<Rightarrow> bytes \<Rightarrow> bool) \<Rightarrow> (ps_target \<times> mask) list \<Rightarrow> 'a pubsub \<Rightarrow> 'a pubsub option" where
  "pubsub_ThreadMain ops match evs s = map_option pubsub_Cleanup (pubsub_loop ops match evs s)"

text \<open>No write of a publication fails.\<close>

definition no_write_error :: "'a conn_ops \<Rightarrow> (fd \<Rightarrow> io) \<Rightarrow> bool" where
  "no_write_error ops ios \<longleftrightarrow> (\<forall>fd c st c'. co_SendReply ops (ios fd) c = Some (st, c') \<longrightarrow> st \<noteq> kWriteError)"

section \<open>Invariant\<close>

text \<open>
  Subscribers of a pattern are distinct and known connections, known connections have an object under their
  own descriptor, and the channel map is empty: nothing ever inserts into it.
\<close>

definition ps_ok :: "'a pubsub \<Rightarrow> bool" where
  "ps_ok s \<longleftrightarrow> ps_pubsub_channel s = [] \<and> om_ok (ps_pubsub_pattern s) \<and>
     (\<forall>ch. distinct (vec_of (ps_pubsub_pattern s) ch) \<and> set (vec_of (ps_pubsub_pattern s) ch) \<subseteq> keys (ps_conns s)) \<and>
     om_ok (ps_conns s) \<and> conns_ok (ps_objs s) \<and> keys (ps_conns s) \<subseteq> keys (ps_objs s) \<and> ep_ok (ps_epoll s)"

definition patterns_of :: "fd \<Rightarrow> 'a pubsub \<Rightarrow> bytes set" where
  "patterns_of fd s = {ch. fd \<in> set (vec_of (ps_pubsub_pattern s) ch)}"

inductive pubsub_step :: "'a conn_ops \<Rightarrow> (bytes \<Rightarrow> bytes \<Rightarrow> bool) \<Rightarrow> 'a pubsub \<Rightarrow> 'a pubsub \<Rightarrow> bool" for ops match where
  ps_subscribe: "Subscribe c channels pattern s = Some (result, s') \<Longrightarrow> pubsub_step ops match s s'"
| ps_unsubscribe: "UnSubscribe fd channels pattern s = Some (n, result, s') \<Longrightarrow> pubsub_step ops match s s'"
| ps_ready: "pubsub_step ops match s (UpdateConnReadyState fd state s)"
| ps_post: "pubsub_step ops match s (publish_post channel msg s)"
| ps_collect: "publish_collect s = Some (n, s') \<Longrightarrow> pubsub_step ops match s s'"
| ps_publish: "publish_event ops match ios s = Some s' \<Longrightarrow>
    \<forall>p ch. no_write_error ops (ios p ch) \<Longrightarrow> pubsub_step ops match s s'"
| ps_notify: "pubsub_step ops match s (pubsub_notify s)"
| ps_event: "pubsub_conn_event ops i m fd s = Some s' \<Longrightarrow> pubsub_step ops match s s'"

inductive pubsub_run :: "'a conn_ops \<Rightarrow> (bytes \<Rightarrow> bytes \<Rightarrow> bool) \<Rightarrow> 'a pubsub \<Rightarrow> 'a pubsub \<Rightarrow> bool" for ops match where
  "pubsub_run ops match s s"
| "pubsub_step ops match s s' \<Longrightarrow> pubsub_run ops match s' s'' \<Longrightarrow> pubsub_run ops match s s''"

subsection \<open>Vectors of a map\<close>

lemma vec_of_ins: "om_ok m \<Longrightarrow> vec_of (om_ins ch v m) = (vec_of m)(ch := v)"
  by (auto simp: vec_of_def om.get_ins fun_eq_iff)

lemma vec_of_Nil [simp]: "vec_of [] ch = []"
  by (simp add: vec_of_def)

lemma vec_of_mem: "om_ok m \<Longrightarrow> fd \<in> set (vec_of m ch) \<longleftrightarrow> (\<exists>v. (ch, v) \<in> set m \<and> fd \<in> set v)"
  by (cases "om_get m ch") (auto simp: vec_of_def om_get_iff [symmetric])

lemma subscribed_in_card:
  assumes "om_ok m"
  shows "subscribed_in fd m = card {ch. fd \<in> set (vec_of m ch)}"
proof -
  let ?f = "filter (\<lambda>(ch, v). fd \<in> set v) m"
  have "distinct (map fst ?f)" using om_ok_distinct [OF om_ok_filter [OF assms]] by blast
  then have "card (fst ` set ?f) = length ?f"
    by (metis distinct_card length_map list.set_map)
  moreover have "fst ` set ?f = {ch. fd \<in> set (vec_of m ch)}"
    by (force simp: vec_of_mem [OF assms])
  ultimately show ?thesis by (simp add: subscribed_in_def)
qed

lemma finite_patterns: "om_ok m \<Longrightarrow> finite {ch. fd \<in> set (vec_of m ch)}"
  by (rule finite_subset [of _ "fst ` set m"]) (force simp: vec_of_mem)+

lemma ClientChannelSize_card: "ps_ok s \<Longrightarrow> ClientChannelSize fd s = card (patterns_of fd s)"
  by (simp add: ClientChannelSize_def ps_ok_def patterns_of_def subscribed_in_card)

lemma no_patterns: "ps_ok s \<Longrightarrow> ClientChannelSize fd s = 0 \<longleftrightarrow> patterns_of fd s = {}"
  by (simp add: ClientChannelSize_card patterns_of_def ps_ok_def finite_patterns)

subsection \<open>Removing a connection\<close>

fun erase_keys :: "fd \<Rightarrow> bytes list \<Rightarrow> subscriptions \<Rightarrow> subscriptions" where
  "erase_keys fd [] m = m"
| "erase_keys fd (ch # chs) m =
     erase_keys fd chs (if vec_of m ch = [] then m else om_ins ch (remove1 fd (vec_of m ch)) m)"

lemma subs_set_subs [simp]: "subs p (set_subs p m s) = m" "set_subs p m (set_subs p m' s) = set_subs p m s"
  "set_subs p (subs p s) s = s"
  by (simp_all add: subs_def set_subs_def)

lemma remove_from_Val: "remove_from p (Val fd) chs s = Some (set_subs p (erase_keys fd chs (subs p s)) s)"
  by (induction chs arbitrary: s) (simp_all add: Let_def)

lemma erase_keys_ok: "om_ok m \<Longrightarrow> om_ok (erase_keys fd chs m)"
  by (induction fd chs m rule: erase_keys.induct) (auto simp: om.ok_ins)

lemma erase_keys_vec:
  "om_ok m \<Longrightarrow> distinct chs \<Longrightarrow>
   vec_of (erase_keys fd chs m) ch = (if ch \<in> set chs then remove1 fd (vec_of m ch) else vec_of m ch)"
  by (induction fd chs m rule: erase_keys.induct) (auto simp: vec_of_ins om.ok_ins)

lemma RemoveConn_Val:
  assumes "ps_ok s"
  shows "RemoveConn (Val fd) s = Some (s\<lparr>ps_pubsub_pattern := erase_keys fd (map fst (ps_pubsub_pattern s)) (ps_pubsub_pattern s)\<rparr>)"
  using assms by (simp add: RemoveConn_def remove_from_Val ps_ok_def) (simp add: subs_def set_subs_def)

lemma RemoveConn_vec:
  assumes "ps_ok s"
  shows "vec_of (erase_keys fd (map fst (ps_pubsub_pattern s)) (ps_pubsub_pattern s)) ch = remove1 fd (vec_of (ps_pubsub_pattern s) ch)"
proof (cases "ch \<in> keys (ps_pubsub_pattern s)")
  case True
  with assms show ?thesis by (simp add: ps_ok_def erase_keys_vec om_ok_distinct keys_def)
next
  case False
  then have "vec_of (ps_pubsub_pattern s) ch = []" by (simp add: vec_of_def om_get_keys [symmetric])
  with assms False show ?thesis by (simp add: ps_ok_def erase_keys_vec om_ok_distinct keys_def)
qed

definition moved_away :: "fd \<Rightarrow> 'a pubsub \<Rightarrow> 'a pubsub" where
  "moved_away fd s = s\<lparr>ps_pubsub_pattern := erase_keys fd (map fst (ps_pubsub_pattern s)) (ps_pubsub_pattern s),
     ps_epoll := snd (PinkDelEvent fd (ps_epoll s)), ps_conns := om_del fd (ps_conns s)\<rparr>"

lemma MoveConnOut_Val: "ps_ok s \<Longrightarrow> pubsub_MoveConnOut (Val fd) s = Some (moved_away fd s)"
  by (simp add: pubsub_MoveConnOut_def RemoveConn_Val moved_away_def)

lemma moved_away_vec: "ps_ok s \<Longrightarrow> vec_of (ps_pubsub_pattern (moved_away fd s)) ch = remove1 fd (vec_of (ps_pubsub_pattern s) ch)"
  by (simp add: moved_away_def RemoveConn_vec)

lemma moved_away_ok:
  assumes "ps_ok s"
  shows "ps_ok (moved_away fd s)"
proof -
  have "distinct (vec_of (ps_pubsub_pattern (moved_away fd s)) ch) \<and>
      set (vec_of (ps_pubsub_pattern (moved_away fd s)) ch) \<subseteq> keys (ps_conns s) - {fd}" for ch
    using assms by (simp add: moved_away_vec) (auto simp: ps_ok_def)
  with assms show ?thesis
    by (auto simp: ps_ok_def moved_away_def erase_keys_ok om.ok_del)
qed

subsection \<open>Subscribing\<close>

lemma pubsub_MoveConnIn_ok:
  assumes "ps_ok s" "pubsub_MoveConnIn c t s = Some s'"
  shows "ps_ok s' \<and> ps_pubsub_pattern s' = ps_pubsub_pattern s \<and> keys (ps_conns s') = insert (pc_fd c) (keys (ps_conns s))"
  using assms by (fastforce simp: ps_ok_def pubsub_MoveConnIn_def conns_ok_ins om.ok_ins)

lemma subscribe_one_vec:
  assumes "ps_ok s" "fd \<in> keys (ps_conns s)" "subscribe_one fd ch n s = (n', s')"
  shows "ps_ok s' \<and> ps_conns s' = ps_conns s \<and> patterns_of fd s' = insert ch (patterns_of fd s) \<and>
    (\<forall>fd'. fd' \<noteq> fd \<longrightarrow> patterns_of fd' s' = patterns_of fd' s) \<and> n' = (if ch \<in> patterns_of fd s then n else n + 1)"
proof (cases "fd \<in> set (vec_of (ps_pubsub_pattern s) ch)")
  case True
  with assms show ?thesis by (auto simp: subscribe_one_def patterns_of_def Let_def)
next
  case False
  with assms(3) have s': "s' = s\<lparr>ps_pubsub_pattern := om_ins ch (vec_of (ps_pubsub_pattern s) ch @ [fd]) (ps_pubsub_pattern s)\<rparr>" "n' = n + 1"
    by (simp_all add: subscribe_one_def Let_def)
  have ok: "om_ok (ps_pubsub_pattern s)" using assms(1) by (simp add: ps_ok_def)
  have vec: "vec_of (ps_pubsub_pattern s') = (vec_of (ps_pubsub_pattern s))(ch := vec_of (ps_pubsub_pattern s) ch @ [fd])"
    using ok by (simp add: s' vec_of_ins)
  have "ps_ok s'" using assms(1,2) False vec ok by (auto simp: ps_ok_def s' om.ok_ins vec_of_ins)
  moreover have "patterns_of fd s' = insert ch (patterns_of fd s)" "\<forall>fd'. fd' \<noteq> fd \<longrightarrow> patterns_of fd' s' = patterns_of fd' s"
    using False by (auto simp: patterns_of_def vec)
  ultimately show ?thesis using False s' by (simp add: patterns_of_def)
qed

lemma subscribe_all_vec:
  assumes "ps_ok s" "fd \<in> keys (ps_conns s)" "n = card (patterns_of fd s)" "subscribe_all fd chs n s = (result, s')"
  shows "ps_ok s' \<and> patterns_of fd s' = patterns_of fd s \<union> set chs \<and>
    (\<forall>fd'. fd' \<noteq> fd \<longrightarrow> patterns_of fd' s' = patterns_of fd' s) \<and>
    result = map (\<lambda>k. (chs ! k, card (patterns_of fd s \<union> set (take (Suc k) chs)))) [0..<length chs]"
  using assms
proof (induction chs arbitrary: n s result)
  case (Cons ch chs)
  obtain n1 s1 where one: "subscribe_one fd ch n s = (n1, s1)" by (cases "subscribe_one fd ch n s")
  obtain r1 where rest: "subscribe_all fd chs n1 s1 = (r1, s')" and res: "result = (ch, n1) # r1"
    using Cons.prems(4) one by (auto split: prod.splits)
  note st = subscribe_one_vec [OF Cons.prems(1,2) one]
  have fin: "finite (patterns_of fd s)" using Cons.prems(1) by (simp add: patterns_of_def ps_ok_def finite_patterns)
  have n1: "n1 = card (patterns_of fd s1)" using st fin Cons.prems(3) by (auto simp: card_insert_if)
  from Cons.IH [OF _ _ n1 rest] st Cons.prems(2)
  have ih: "ps_ok s'" "patterns_of fd s' = patterns_of fd s1 \<union> set chs" "\<forall>fd'. fd' \<noteq> fd \<longrightarrow> patterns_of fd' s' = patterns_of fd' s1"
      "r1 = map (\<lambda>k. (chs ! k, card (patterns_of fd s1 \<union> set (take (Suc k) chs)))) [0..<length chs]"
    by auto
  have "map (\<lambda>k. ((ch # chs) ! k, card (patterns_of fd s \<union> set (take (Suc k) (ch # chs))))) [0..<length (ch # chs)] = result"
    using ih(4) n1 st by (simp add: res upt_conv_Cons map_Suc_upt [symmetric] comp_def del: upt_Suc)
  with ih st show ?case by auto
qed simp

subsection \<open>Unsubscribing\<close>

lemma unsubscribe_one_vec:
  assumes "ps_ok s" "unsubscribe_one fd p ch n s = (r, n', s')"
  shows "ps_ok s' \<and> ps_conns s' = ps_conns s \<and> patterns_of fd s' = patterns_of fd s - (if p then {ch} else {}) \<and>
    (\<forall>fd'. fd' \<noteq> fd \<longrightarrow> patterns_of fd' s' = patterns_of fd' s)"
proof (cases "p \<and> fd \<in> set (vec_of (ps_pubsub_pattern s) ch)")
  case True
  then obtain v where v: "om_get (ps_pubsub_pattern s) ch = Some v" "fd \<in> set v"
    by (cases "om_get (ps_pubsub_pattern s) ch") (auto simp: vec_of_def)
  with True assms(2) have s': "s' = s\<lparr>ps_pubsub_pattern := om_ins ch (removeAll fd v) (ps_pubsub_pattern s)\<rparr>"
    by (simp add: unsubscribe_one_def subs_def set_subs_def)
  have ok: "om_ok (ps_pubsub_pattern s)" using assms(1) by (simp add: ps_ok_def)
  have old: "vec_of (ps_pubsub_pattern s) ch = v" using v by (simp add: vec_of_def)
  have vec: "vec_of (ps_pubsub_pattern s') = (vec_of (ps_pubsub_pattern s))(ch := removeAll fd v)"
    using ok by (simp add: s' vec_of_ins)
  have "distinct v" "set v \<subseteq> keys (ps_conns s)" using assms(1) old by (auto simp: ps_ok_def)
  then have "ps_ok s'" using assms(1) vec ok by (auto simp: ps_ok_def s' om.ok_ins vec_of_ins distinct_removeAll)
  with True old vec show ?thesis by (auto simp: patterns_of_def s')
next
  case False
  then have "s' = s" using assms by (auto simp: unsubscribe_one_def subs_def ps_ok_def vec_of_def split: option.splits if_splits)
  with False assms(1) show ?thesis by (auto simp: patterns_of_def)
qed

lemma unsubscribe_list_vec:
  assumes "ps_ok s" "unsubscribe_list fd p chs n s = (result, s')"
  shows "ps_ok s' \<and> ps_conns s' = ps_conns s \<and> patterns_of fd s' = patterns_of fd s - (if p then set chs else {}) \<and>
    (\<forall>fd'. fd' \<noteq> fd \<longrightarrow> patterns_of fd' s' = patterns_of fd' s)"
  using assms
proof (induction chs arbitrary: n s result)
  case (Cons ch chs)
  obtain r n1 s1 where one: "unsubscribe_one fd p ch n s = (r, n1, s1)" by (cases "unsubscribe_one fd p ch n s")
  obtain r1 where rest: "unsubscribe_list fd p chs n1 s1 = (r1, s')"
    using Cons.prems(2) one by (auto split: prod.splits)
  note st = unsubscribe_one_vec [OF Cons.prems(1) one]
  from Cons.IH [OF _ rest] st show ?case by auto
qed simp

lemma moved_away_patterns:
  assumes "ps_ok s"
  shows "patterns_of fd (moved_away fd s) = {}" "fd' \<noteq> fd \<Longrightarrow> patterns_of fd' (moved_away fd s) = patterns_of fd' s"
    "fd \<notin> keys (ps_conns (moved_away fd s))" "fd \<notin> watched (ps_epoll (moved_away fd s))"
proof -
  have "distinct (vec_of (ps_pubsub_pattern s) ch)" for ch using assms by (simp add: ps_ok_def)
  then show "patterns_of fd (moved_away fd s) = {}" by (simp add: patterns_of_def moved_away_vec [OF assms])
  show "patterns_of fd' (moved_away fd s) = patterns_of fd' s" if "fd' \<noteq> fd"
    using that by (simp add: patterns_of_def moved_away_vec [OF assms] in_set_remove1)
  show "fd \<notin> keys (ps_conns (moved_away fd s))" "fd \<notin> watched (ps_epoll (moved_away fd s))"
    by (simp_all add: moved_away_def)
qed

lemma UnSubscribe_returns:
  assumes "ps_ok s"
  shows "\<exists>n result s'. UnSubscribe fd channels p s = Some (n, result, s') \<and> ps_ok s' \<and>
    (p \<longrightarrow> patterns_of fd s' = (if channels = [] then {} else patterns_of fd s - set channels) \<and> n = int (card (patterns_of fd s'))) \<and>
    (\<forall>fd'. fd' \<noteq> fd \<longrightarrow> patterns_of fd' s' = patterns_of fd' s) \<and>
    (patterns_of fd s \<noteq> {} \<and> patterns_of fd s' = {} \<longrightarrow> fd \<notin> keys (ps_conns s') \<and> fd \<notin> watched (ps_epoll s'))"
proof (cases "channels = []")
  case True
  show ?thesis
  proof (cases "patterns_of fd s = {}")
    case nosub: True
    then have "ClientChannelSize fd s = 0" using no_patterns [OF assms] by blast
    then have "UnSubscribe fd channels p s = Some (0, leave_all fd 0 (subs p s), s)"
      using True by (simp add: UnSubscribe_def)
    with nosub assms True show ?thesis by simp
  next
    case False
    then obtain r where "UnSubscribe fd channels p s = Some (0, r, moved_away fd s)"
      using True no_patterns [OF assms, of fd] MoveConnOut_Val [OF assms] by (simp add: UnSubscribe_def)
    with moved_away_ok [OF assms] moved_away_patterns [OF assms] True show ?thesis by auto
  qed
next
  case False
  obtain r s1 where l: "unsubscribe_list fd p channels (int (ClientChannelSize fd s)) s = (r, s1)"
    by (cases "unsubscribe_list fd p channels (int (ClientChannelSize fd s)) s")
  note s1 = unsubscribe_list_vec [OF assms l]
  then have ok1: "ps_ok s1" by simp
  note size1 = ClientChannelSize_card [OF ok1, of fd] no_patterns [OF ok1, of fd]
  show ?thesis
  proof (cases "patterns_of fd s1 = {} \<and> patterns_of fd s \<noteq> {}")
    case True
    have "UnSubscribe fd channels p s = Some (0, r, moved_away fd s1)"
      using False True l size1 no_patterns [OF assms, of fd] MoveConnOut_Val [OF ok1] by (simp add: UnSubscribe_def)
    with moved_away_ok [OF ok1] moved_away_patterns [OF ok1] s1 True False show ?thesis by auto
  next
    case stay: False
    have "UnSubscribe fd channels p s = Some (int (card (patterns_of fd s1)), r, s1)"
      using False stay l size1 no_patterns [OF assms, of fd] by (auto simp: UnSubscribe_def)
    with s1 stay False show ?thesis by auto
  qed
qed

subsection \<open>Publishing\<close>

text \<open>What publishing changes when no write fails: the objects, and the events watched.\<close>

definition delivered_only :: "'a pubsub \<Rightarrow> 'a pubsub \<Rightarrow> bool" where
  "delivered_only s s' \<longleftrightarrow> ps_pubsub_pattern s' = ps_pubsub_pattern s \<and> ps_pubsub_channel s' = ps_pubsub_channel s \<and>
     ps_conns s' = ps_conns s \<and> (ps_ok s \<longrightarrow> ps_ok s')"

lemma delivered_only_trans: "delivered_only a b \<Longrightarrow> delivered_only b c \<Longrightarrow> delivered_only a c"
  by (simp add: delivered_only_def)

lemma ps_ok_obj:
  assumes "ps_ok s" "fd \<in> keys (ps_conns s)"
  shows "\<exists>c. om_get (ps_objs s) fd = Some c \<and> pc_fd c = fd"
proof -
  have sub: "keys (ps_conns s) \<subseteq> keys (ps_objs s)" and ok: "conns_ok (ps_objs s)" using assms(1) by (simp_all add: ps_ok_def)
  obtain c where "om_get (ps_objs s) fd = Some c" using keys_get [OF subsetD [OF sub assms(2)]] by blast
  with conns_ok_get [OF ok] show ?thesis by blast
qed

lemma ps_ok_epoll: "ps_ok s \<Longrightarrow> ep_ok (ps_epoll s)"
  by (simp add: ps_ok_def)

lemma ps_ok_store:
  assumes "ps_ok s" "om_get (ps_objs s) fd = Some c" "pc_fd c' = pc_fd c" "ep_ok e"
  shows "ps_ok (pubsub_store fd c' e s)"
proof -
  have "conns_ok (ps_objs s)" "keys (ps_conns s) \<subseteq> insert fd (keys (ps_objs s))" using assms(1) by (auto simp: ps_ok_def)
  then show ?thesis using assms conns_ok_get [of "ps_objs s" fd c] by (simp add: ps_ok_def pubsub_store_def conns_ok_ins)
qed

lemma patterns_known: "ps_ok s \<Longrightarrow> patterns_of fd s \<noteq> {} \<Longrightarrow> fd \<in> keys (ps_conns s)"
  by (auto simp: ps_ok_def patterns_of_def)

lemma Subscribe_ok:
  assumes "ps_ok s" "Subscribe c chs p s = Some (result, s')"
  shows "ps_ok s' \<and> patterns_of (pc_fd c) s' = patterns_of (pc_fd c) s \<union> set chs \<and>
    (\<forall>fd'. fd' \<noteq> pc_fd c \<longrightarrow> patterns_of fd' s' = patterns_of fd' s) \<and>
    result = map (\<lambda>k. (chs ! k, card (patterns_of (pc_fd c) s \<union> set (take (Suc k) chs)))) [0..<length chs]"
proof -
  let ?n = "ClientChannelSize (pc_fd c) s"
  obtain s1 where s1: "(if ?n = 0 then pubsub_MoveConnIn c kNotiWait s else Some s) = Some s1"
      "subscribe_all (pc_fd c) chs ?n s1 = (result, s')"
    using assms(2) by (auto simp: Subscribe_def Let_def)
  have in_conns: "pc_fd c \<in> keys (ps_conns s1)" and ok: "ps_ok s1" and pat: "ps_pubsub_pattern s1 = ps_pubsub_pattern s"
    using s1(1) assms(1) pubsub_MoveConnIn_ok [OF assms(1), of c kNotiWait s1] patterns_known [OF assms(1), of "pc_fd c"]
      no_patterns [OF assms(1), of "pc_fd c"]
    by (auto split: if_splits)
  have "?n = card (patterns_of (pc_fd c) s1)" using ClientChannelSize_card [OF assms(1), of "pc_fd c"] pat by (simp add: patterns_of_def)
  from subscribe_all_vec [OF ok in_conns this s1(2)] pat show ?thesis by (simp add: patterns_of_def)
qed

lemma ps_ok_set_epoll: "ps_ok s \<Longrightarrow> ep_ok e \<Longrightarrow> ps_ok (s\<lparr>ps_epoll := e\<rparr>)"
  by (simp add: ps_ok_def)

lemma pubsub_item_ok: "ps_ok s \<Longrightarrow> ps_ok (pubsub_item ti s)"
  by (cases "it_notify_type ti") (simp_all add: pubsub_item_def ps_ok_set_epoll ps_ok_epoll)

lemma pubsub_items_ok: "ps_ok s \<Longrightarrow> ps_ok (fold pubsub_item its s)"
  by (induction its arbitrary: s) (simp_all add: pubsub_item_ok)

lemma pubsub_notify_ok: "ps_ok s \<Longrightarrow> ps_ok (pubsub_notify s)"
  by (simp add: pubsub_notify_def read_items_def pubsub_items_ok ps_ok_set_epoll ps_ok_epoll)

context conn_class
begin

lemma publish_to_ok:
  assumes "publish_to ops ios resp r fd s = Some (k, s')"
    and "no_write_error ops ios"
  shows "delivered_only s s'"
proof -
  from assms(1) obtain c st c' where c: "om_get (ps_objs s) fd = Some c" "co_SendReply ops (ios fd) (co_WriteResp ops resp c) = Some (st, c')"
    by (auto simp: publish_to_def split: option.splits)
  with assms(2) have st: "st \<noteq> kWriteError" by (auto simp: no_write_error_def)
  have fd: "pc_fd c' = pc_fd c" using SendReply_fd [OF c(2)] by simp
  have kept: "ps_ok (pubsub_store fd c' e s)" if "ps_ok s" "ep_ok e" for e
    using ps_ok_store [OF that(1) c(1) fd that(2)] .
  show ?thesis
    using assms(1) c st kept [of "ps_epoll s"] kept [of "snd (PinkModEvent fd EPOLLIN EPOLLOUT (ps_epoll s))"]
    by (cases st) (auto simp: publish_to_def delivered_only_def pubsub_store_def ps_ok_epoll)
qed

lemma publish_vec_ok:
  "publish_vec ops ios p ch resp n i s = Some (k, s') \<Longrightarrow>
   no_write_error ops ios \<Longrightarrow> delivered_only s s'"
proof (induction "n - i" arbitrary: i s k)
  case 0
  then have "\<not> i < n" by simp
  with 0(2) show ?case by (subst (asm) publish_vec.simps) (auto simp: Let_def delivered_only_def)
next
  case (Suc x)
  let ?v = "vec_of (subs p s) ch"
  have i: "i < n" "x = n - Suc i" using Suc.hyps(2) by auto
  show ?case
  proof (cases "i < length ?v")
    case False
    with Suc.prems(1) show ?thesis by (subst (asm) publish_vec.simps) (auto simp: Let_def delivered_only_def)
  next
    case True
    show ?thesis
    proof (cases "IsReady (?v ! i) s")
      case False
      have "publish_vec ops ios p ch resp n (Suc i) s = Some (k, s')"
        using Suc.prems(1) True False i by (subst (asm) publish_vec.simps) (auto simp: Let_def)
      from Suc.hyps(1) [OF i(2) this Suc.prems(2)] show ?thesis .
    next
      case ready: True
      obtain k1 s1 k2 where p1: "publish_to ops ios resp (Slot p ch i) (?v ! i) s = Some (k1, s1)"
        and p2: "publish_vec ops ios p ch resp n (Suc i) s1 = Some (k2, s')"
        using Suc.prems(1) True ready i by (subst (asm) publish_vec.simps) (auto simp: Let_def split: option.splits)
      from publish_to_ok [OF p1 Suc.prems(2)] Suc.hyps(1) [OF i(2) p2 Suc.prems(2)] show ?thesis
        by (rule delivered_only_trans)
    qed
  qed
qed

lemma publish_map_ok:
  "publish_map ops ios sel p channel msg chs s = Some (k, s') \<Longrightarrow>
   \<forall>ch. no_write_error ops (ios ch) \<Longrightarrow> delivered_only s s'"
proof (induction chs arbitrary: s k)
  case (Cons ch chs)
  show ?case
  proof (cases "sel ch")
    case True
    with Cons.prems(1) obtain k1 s1 k2 where v: "publish_vec ops (ios ch) p ch (ConstructPublishResp ch channel msg p)
        (length (vec_of (subs p s) ch)) 0 s = Some (k1, s1)" and r: "publish_map ops ios sel p channel msg chs s1 = Some (k2, s')"
      by (auto split: option.splits)
    have "delivered_only s s1" using publish_vec_ok [OF v] Cons.prems(2) by blast
    from this Cons.IH [OF r Cons.prems(2)] show ?thesis by (rule delivered_only_trans)
  next
    case False
    with Cons.prems Cons.IH show ?thesis by simp
  qed
qed (simp add: delivered_only_def)

lemma publish_event_ok:
  assumes "publish_event ops match ios s = Some s'" "ps_ok s"
    and "\<forall>p ch. no_write_error ops (ios p ch)"
  shows "ps_ok s'"
proof -
  let ?s = "s\<lparr>ps_triggers := ps_triggers s - 1, ps_channel := [], ps_message := []\<rparr>"
  from assms(1) obtain r1 s1 r2 s2 where m: "publish_map ops (ios False) (\<lambda>ch. ps_channel s = ch) False (ps_channel s) (ps_message s)
      (map fst (ps_pubsub_channel s)) ?s = Some (r1, s1)"
    "publish_map ops (ios True) (\<lambda>ch. match ch (ps_channel s)) True (ps_channel s) (ps_message s) (map fst (ps_pubsub_pattern s1)) s1 = Some (r2, s2)"
    "s' = s2\<lparr>ps_receivers := int (r1 + r2)\<rparr>"
    by (auto simp: publish_event_def Let_def split: option.splits)
  have "ps_ok ?s" using assms(2) by (simp add: ps_ok_def)
  with publish_map_ok [OF m(1)] publish_map_ok [OF m(2)] assms(3) have "ps_ok s2" by (simp add: delivered_only_def)
  then show ?thesis by (simp add: m(3) ps_ok_def)
qed

subsection \<open>Events of a connection\<close>

lemma pubsub_send_frame:
  assumes "pubsub_send ops i m fd c e = Some (r, c', e')" "ep_ok e"
  shows "pc_fd c' = pc_fd c \<and> ep_ok e'"
  using assms by (auto simp: pubsub_send_def split: if_splits WriteStatus.splits dest: SendReply_fd)
    (metis WriteStatus.exhaust)+

lemma pubsub_receive_frame:
  assumes "pubsub_receive ops i m fd sc c e = Some (r, c', e')" "ep_ok e"
  shows "pc_fd c' = pc_fd c \<and> ep_ok e'"
  using assms
  by (auto simp: pubsub_receive_def split: if_splits option.splits WriteStatus.splits dest!: SendReply_fd GetRequest_fd)
    (metis WriteStatus.exhaust)+

lemma pubsub_conn_event_ok:
  assumes "ps_ok s" "pubsub_conn_event ops i m fd s = Some s'"
  shows "ps_ok s'"
proof (cases "om_get (ps_conns s) fd")
  case None
  then have "s' = s\<lparr>ps_epoll := snd (PinkDelEvent fd (ps_epoll s))\<rparr>" using assms(2) by (simp add: pubsub_conn_event_def)
  with assms(1) show ?thesis by (simp add: ps_ok_def)
next
  case (Some rs)
  obtain c where c: "om_get (ps_objs s) fd = Some c"
    using assms(2) Some by (auto simp: pubsub_conn_event_def split: option.splits)
  obtain r1 c1 e1 where s1: "pubsub_send ops i m fd c (ps_epoll s) = Some (r1, c1, e1)"
    using assms(2) Some c by (auto simp: pubsub_conn_event_def split: option.splits)
  note f1 = pubsub_send_frame [OF s1 ps_ok_epoll [OF assms(1)]]
  show ?thesis
  proof (cases r1)
    case None
    with assms(2) Some c s1 f1 ps_ok_store [OF assms(1) c, of c1 e1] show ?thesis
      by (auto simp: pubsub_conn_event_def)
  next
    case (Some sc)
    obtain r2 c2 e2 where s2: "pubsub_receive ops i m fd sc c1 e1 = Some (r2, c2, e2)"
      using assms(2) Some \<open>om_get (ps_conns s) fd = Some rs\<close> c s1
      by (auto simp: pubsub_conn_event_def split: option.splits)
    have "pc_fd c2 = pc_fd c \<and> ep_ok e2" using pubsub_receive_frame [OF s2] f1 by simp
    then have st: "ps_ok (pubsub_store fd c2 e2 s)" using ps_ok_store [OF assms(1) c] by simp
    from moved_away_ok [OF this, of fd] have "ps_ok (pubsub_CloseFd fd (moved_away fd (pubsub_store fd c2 e2 s)))"
      by (simp add: ps_ok_def pubsub_CloseFd_def)
    with assms(2) Some \<open>om_get (ps_conns s) fd = Some rs\<close> c s1 s2 st MoveConnOut_Val [OF st, of fd] show ?thesis
      by (auto simp: pubsub_conn_event_def Let_def split: option.splits if_splits)
  qed
qed

lemma pubsub_step_ok: "pubsub_step ops match s s' \<Longrightarrow> ps_ok s \<Longrightarrow> ps_ok s'"
proof (induction rule: pubsub_step.induct)
  case (ps_subscribe c channels pattern s result s')
  then show ?case using Subscribe_ok by blast
next
  case (ps_unsubscribe fd channels pattern s n result s')
  then show ?case using UnSubscribe_returns [OF ps_unsubscribe(2), of fd channels pattern] by auto
next
  case (ps_ready s fd state)
  then show ?case
    by (cases "om_get (ps_conns s) fd")
      (simp_all add: UpdateConnReadyState_def ps_ok_def om.ok_ins insert_absorb om_get_in_keys)
next
  case (ps_post s channel msg)
  then show ?case by (simp add: ps_ok_def publish_post_def)
next
  case (ps_collect s n s')
  then have "s' = s\<lparr>ps_receivers := -1\<rparr>" by (simp add: publish_collect_def split: if_splits)
  with ps_collect show ?case by (simp add: ps_ok_def)
next
  case (ps_publish ios s s')
  then show ?case using publish_event_ok by blast
next
  case (ps_notify s)
  then show ?case by (rule pubsub_notify_ok)
next
  case (ps_event i m fd s s')
  then show ?case using pubsub_conn_event_ok by blast
qed

lemma pubsub_run_ok: "pubsub_run ops match s s' \<Longrightarrow> ps_ok s \<Longrightarrow> ps_ok s'"
  by (induction rule: pubsub_run.induct) (auto dest: pubsub_step_ok)

end

lemma PubSubThread_new_ok: "ps_ok PubSubThread_new"
  by (simp add: ps_ok_def PubSubThread_new_def thread.defs ep_ok_def)

subsection \<open>Reference for publishing\<close>

text \<open>The deliveries of a publication, in order, and their effect when every write completes.\<close>

definition publish_receivers :: "(bytes \<Rightarrow> bytes \<Rightarrow> bool) \<Rightarrow> bytes \<Rightarrow> 'a pubsub \<Rightarrow> (bytes \<times> fd) list" where
  "publish_receivers match channel s =
     [(ch, fd). (ch, v) \<leftarrow> ps_pubsub_pattern s, match ch channel, fd \<leftarrow> v, IsReady fd s]"

fun deliver_all :: "'a conn_ops \<Rightarrow> (bytes \<Rightarrow> fd \<Rightarrow> io) \<Rightarrow> bytes \<Rightarrow> bytes \<Rightarrow> (bytes \<times> fd) list \<Rightarrow> 'a conns \<Rightarrow> 'a conns option" where
  "deliver_all ops ios channel msg [] m = Some m"
| "deliver_all ops ios channel msg ((ch, fd) # R) m =
     (case om_get m fd of
        None \<Rightarrow> None
      | Some c \<Rightarrow>
          (case co_SendReply ops (ios ch fd) (co_WriteResp ops (ConstructPublishResp ch channel msg True) c) of
             Some (kWriteAll, c') \<Rightarrow> deliver_all ops ios channel msg R (om_ins fd c' m)
           | _ \<Rightarrow> None))"

lemma deliver_all_append:
  "deliver_all ops ios channel msg (R @ R') m = Option.bind (deliver_all ops ios channel msg R m) (deliver_all ops ios channel msg R')"
  by (induction ops ios channel msg R m rule: deliver_all.induct) (auto split: option.splits WriteStatus.splits)

lemma publish_vec_all:
  assumes "deliver_all ops ios channel msg (map (Pair ch) (filter (\<lambda>fd. IsReady fd s) (drop i v))) (ps_objs s) = Some m"
    and "vec_of (ps_pubsub_pattern s) ch = v" "i \<le> length v"
  shows "publish_vec ops (ios ch) True ch (ConstructPublishResp ch channel msg True) (length v) i s =
    Some (length (filter (\<lambda>fd. IsReady fd s) (drop i v)), s\<lparr>ps_objs := m\<rparr>)"
  using assms
proof (induction "length v - i" arbitrary: i s)
  case 0
  then have "i = length v" by simp
  with 0 show ?case by (subst publish_vec.simps) (simp add: subs_def)
next
  case (Suc x)
  then have i: "i < length v" "x = length v - Suc i" by auto
  have d: "drop i v = v ! i # drop (Suc i) v" using i by (simp add: Cons_nth_drop_Suc)
  show ?case
  proof (cases "IsReady (v ! i) s")
    case False
    with Suc.hyps(1) [OF i(2), of s] Suc.prems i d show ?thesis by (subst publish_vec.simps) (simp add: subs_def)
  next
    case True
    with Suc.prems(1) d obtain c c' where c: "om_get (ps_objs s) (v ! i) = Some c"
      "co_SendReply ops (ios ch (v ! i)) (co_WriteResp ops (ConstructPublishResp ch channel msg True) c) = Some (kWriteAll, c')"
      and rest: "deliver_all ops ios channel msg (map (Pair ch) (filter (\<lambda>fd. IsReady fd s) (drop (Suc i) v))) (om_ins (v ! i) c' (ps_objs s)) = Some m"
      by (auto split: option.splits WriteStatus.splits)
    let ?s = "s\<lparr>ps_objs := om_ins (v ! i) c' (ps_objs s)\<rparr>"
    have ready: "IsReady fd ?s = IsReady fd s" for fd by (simp add: IsReady_def)
    from Suc.hyps(1) [OF i(2), of ?s] rest Suc.prems(2) i
    have ih: "publish_vec ops (ios ch) True ch (ConstructPublishResp ch channel msg True) (length v) (Suc i) ?s =
      Some (length (filter (\<lambda>fd. IsReady fd s) (drop (Suc i) v)), s\<lparr>ps_objs := m\<rparr>)" by (simp add: ready)
    show ?thesis using True Suc.prems(2) i d c ih
      by (subst publish_vec.simps) (simp add: subs_def publish_to_def)
  qed
qed

definition receivers_in :: "(bytes \<Rightarrow> bytes \<Rightarrow> bool) \<Rightarrow> bytes \<Rightarrow> 'a pubsub \<Rightarrow> (bytes \<times> fd list) list \<Rightarrow> (bytes \<times> fd) list" where
  "receivers_in match channel s m = [(ch, fd). (ch, v) \<leftarrow> m, match ch channel, fd \<leftarrow> v, IsReady fd s]"

lemma receivers_in_Cons:
  "receivers_in match channel s ((ch, v) # m) =
   (if match ch channel then map (Pair ch) (filter (\<lambda>fd. IsReady fd s) v) else []) @ receivers_in match channel s m"
proof -
  have "concat (map (\<lambda>fd. if IsReady fd s then [(ch, fd)] else []) v) = map (Pair ch) (filter (\<lambda>fd. IsReady fd s) v)"
    by (induction v) auto
  then show ?thesis by (simp add: receivers_in_def)
qed

lemma publish_map_all:
  assumes "deliver_all ops ios channel msg (receivers_in match channel s m) (ps_objs s) = Some objs"
    and "\<forall>(ch, v) \<in> set m. vec_of (ps_pubsub_pattern s) ch = v"
  shows "publish_map ops ios (\<lambda>ch. match ch channel) True channel msg (map fst m) s =
    Some (length (receivers_in match channel s m), s\<lparr>ps_objs := objs\<rparr>)"
  using assms
proof (induction m arbitrary: s)
  case (Cons p m)
  obtain ch v where p: "p = (ch, v)" by (cases p)
  show ?case
  proof (cases "match ch channel")
    case False
    with Cons p show ?thesis by (simp add: receivers_in_Cons)
  next
    case True
    let ?R = "map (Pair ch) (filter (\<lambda>fd. IsReady fd s) v)"
    obtain objs1 where d1: "deliver_all ops ios channel msg ?R (ps_objs s) = Some objs1"
      and d2: "deliver_all ops ios channel msg (receivers_in match channel s m) objs1 = Some objs"
      using Cons.prems(1) p True by (auto simp: receivers_in_Cons deliver_all_append split: bind_splits)
    let ?s = "s\<lparr>ps_objs := objs1\<rparr>"
    have ready: "receivers_in match channel ?s m = receivers_in match channel s m" by (simp add: receivers_in_def IsReady_def cong: if_cong)
    from Cons.IH [of ?s] d2 Cons.prems(2) ready
    have "publish_map ops ios (\<lambda>ch. match ch channel) True channel msg (map fst m) ?s =
      Some (length (receivers_in match channel s m), s\<lparr>ps_objs := objs\<rparr>)" by simp
    with publish_vec_all [where i = 0 and v = v and s = s and ch = ch, of ops ios channel msg objs1] d1 True p Cons.prems(2)
    show ?thesis by (simp add: receivers_in_Cons subs_def)
  qed
qed (simp add: receivers_in_def)

lemma ps_ok_vec: "ps_ok s \<Longrightarrow> (ch, v) \<in> set (ps_pubsub_pattern s) \<Longrightarrow> vec_of (ps_pubsub_pattern s) ch = v"
  by (simp add: ps_ok_def vec_of_def om_get_iff [symmetric])

lemma Publish_all:
  assumes "ps_ok s" "deliver_all ops (ios True) channel msg (publish_receivers match channel s) (ps_objs s) = Some objs"
  shows "Publish ops match ios channel msg s = Some (int (length (publish_receivers match channel s)),
    s\<lparr>ps_objs := objs, ps_channel := [], ps_message := [], ps_receivers := -1\<rparr>)"
proof -
  let ?s = "s\<lparr>ps_channel := [], ps_message := []\<rparr>"
  have R: "receivers_in match channel ?s (ps_pubsub_pattern s) = publish_receivers match channel s"
    by (simp add: receivers_in_def publish_receivers_def IsReady_def cong: if_cong)
  have "publish_map ops (ios True) (\<lambda>ch. match ch channel) True channel msg (map fst (ps_pubsub_pattern s)) ?s =
    Some (length (publish_receivers match channel s), ?s\<lparr>ps_objs := objs\<rparr>)"
    using publish_map_all [of ops "ios True" channel msg match ?s "ps_pubsub_pattern s" objs] assms R ps_ok_vec [OF assms(1)]
    by auto
  moreover have "ps_pubsub_channel s = []" using assms(1) by (simp add: ps_ok_def)
  ultimately show ?thesis
    by (simp add: Publish_def publish_event_def publish_post_def publish_collect_def Let_def)
qed

end
