(* ===== verification/RedisParser.thy ===== *)
theory RedisParser
  imports Pink_Prelude
begin

text \<open>
  The request parser of \<^verbatim>\<open>src/redis_parser.cc\<close> and \<^verbatim>\<open>include/redis_parser.h\<close>: the state of the
  class \<^verbatim>\<open>RedisParser\<close>, every function of it, and the inline splitter \<^verbatim>\<open>split2args\<close>.

  The buffer \<^verbatim>\<open>input_str_\<close> and the pointer \<^verbatim>\<open>input_buf_\<close> to its first byte are one field;
  \<^verbatim>\<open>cur_pos_\<close>, \<^verbatim>\<open>length_\<close> and the two lengths keep the code's signed arithmetic.
  \<^verbatim>\<open>slash::string2l\<close> belongs to a library outside the repository and is a parameter: it takes the
  bytes from a pointer on and the number of bytes to convert.  The callbacks of
  \<^verbatim>\<open>RedisParserSettings\<close> act on a state \<open>'c\<close> of the connection (the hook \<^verbatim>\<open>data\<close>).
  A failed \<^verbatim>\<open>assert\<close> and the \<^verbatim>\<open>std::length_error\<close> that \<^verbatim>\<open>std::string(ptr, n)\<close> throws for a negative
  \<open>n\<close> (a \<^verbatim>\<open>size_t\<close> above \<^verbatim>\<open>max_size\<close>) are \<open>Inl\<close> results, and so is the signed overflow of a bulk length
  next to the largest \<^verbatim>\<open>long\<close>.

  The lemmas show that every step consumes input, so that the loops end, and that the callbacks keep what every callback keeps.
\<close>

section \<open>Types\<close>

type_synonym string2l = "bytes \<Rightarrow> nat \<Rightarrow> int option"
type_synonym args = "bytes list"

datatype RedisParserStatus = kRedisParserNone | kRedisParserInitDone | kRedisParserHalf
  | kRedisParserDone | kRedisParserError

datatype RedisParserError = kRedisParserOk | kRedisParserInitError | kRedisParserFullError
  | kRedisParserProtoError | kRedisParserDealError | kRedisParserCompleteError

datatype parser_abort = AssertFailed | LengthError | SignedOverflow

record 'c RedisParserSettings =
  DealMessage :: "('c \<Rightarrow> args \<Rightarrow> int \<times> 'c) option"
  Complete :: "('c \<Rightarrow> args list \<Rightarrow> int \<times> 'c) option"

definition REDIS_PARSER_REQUEST :: int where "REDIS_PARSER_REQUEST = 1"
definition REDIS_PARSER_RESPONSE :: int where "REDIS_PARSER_RESPONSE = 2"

record redis_parser =
  rp_status_code :: RedisParserStatus
  rp_error_code :: RedisParserError
  rp_redis_type :: nat
  rp_redis_parser_type :: int
  rp_multibulk_len :: int
  rp_bulk_len :: int
  rp_half_argv :: bytes
  rp_argv :: args
  rp_argvs :: "args list"
  rp_cur_pos :: int
  rp_length :: int
  rp_input_buf :: bytes

text \<open>The values the members of a new parser are initialised with.\<close>

definition RedisParser_new :: redis_parser where
  "RedisParser_new = \<lparr>rp_status_code = kRedisParserNone, rp_error_code = kRedisParserOk,
     rp_redis_type = 0, rp_redis_parser_type = REDIS_PARSER_REQUEST, rp_multibulk_len = 0,
     rp_bulk_len = -1, rp_half_argv = [], rp_argv = [], rp_argvs = [], rp_cur_pos = 0,
     rp_length = 0, rp_input_buf = []\<rparr>"

section \<open>Inline commands\<close>

definition IsHexDigit :: "char \<Rightarrow> bool" where
  "IsHexDigit c = (let n = (of_char c :: nat) in
     (48 \<le> n \<and> n \<le> 57) \<or> (97 \<le> n \<and> n \<le> 102) \<or> (65 \<le> n \<and> n \<le> 70))"

definition HexDigitToInt32 :: "char \<Rightarrow> nat" where
  "HexDigitToInt32 c = (let n = (of_char c :: nat) in
     if n \<le> 57 \<and> 48 \<le> n then n - 48
     else if n \<le> 70 \<and> 65 \<le> n then n - 65
     else if n \<le> 102 \<and> 97 \<le> n then n - 97
     else 0)"

definition escape_char :: "char \<Rightarrow> char" where
  "escape_char c =
     (if c = CHR ''n'' then LF else if c = CHR ''r'' then CR else if c = CHR ''t'' then CHR 0x09
      else if c = CHR ''b'' then CHR 0x08 else if c = CHR ''a'' then CHR 0x07 else c)"

datatype quoting = NoQuote | InQuotes | InSingleQuotes

text \<open>
  The inner loop of \<^verbatim>\<open>split2args\<close>, from a pointer into the C string: \<open>NoQuote\<close> is
  \<^verbatim>\<open>!inq && !insq\<close>.  \<open>None\<close> is \<^verbatim>\<open>return -1\<close>, \<open>Some (arg, p)\<close> a finished token and the pointer
  after it.
\<close>

function get_token :: "quoting \<Rightarrow> bytes \<Rightarrow> bytes \<Rightarrow> (bytes \<times> bytes) option" where
  "get_token InQuotes arg p =
     (if 3 < length p \<and> p ! 0 = CHR 0x5C \<and> p ! 1 = CHR ''x'' \<and> IsHexDigit (p ! 2) \<and> IsHexDigit (p ! 3)
      then get_token InQuotes
             (arg @ [char_of (HexDigitToInt32 (p ! 2) * 16 + HexDigitToInt32 (p ! 3))]) (drop 4 p)
      else if 1 < length p \<and> p ! 0 = CHR 0x5C
      then get_token InQuotes (arg @ [escape_char (p ! 1)]) (drop 2 p)
      else case p of
        [] \<Rightarrow> None
      | c # r \<Rightarrow>
          if c = CHR 0x22 then (if r \<noteq> [] \<and> \<not> c_isspace (hd r) then None else Some (arg, r))
          else get_token InQuotes (arg @ [c]) r)"
| "get_token InSingleQuotes arg p =
     (if 1 < length p \<and> p ! 0 = CHR 0x5C \<and> p ! 1 = CHR 0x27
      then get_token InSingleQuotes (arg @ [CHR 0x27]) (drop 2 p)
      else case p of
        [] \<Rightarrow> None
      | c # r \<Rightarrow>
          if c = CHR 0x27 then (if r \<noteq> [] \<and> \<not> c_isspace (hd r) then None else Some (arg, r))
          else get_token InSingleQuotes (arg @ [c]) r)"
| "get_token NoQuote arg p =
     (case p of
        [] \<Rightarrow> Some (arg, [])
      | c # r \<Rightarrow>
          if c \<in> {CHR '' '', LF, CR, CHR 0x09} then Some (arg, r)
          else if c = CHR 0x22 then get_token InQuotes arg r
          else if c = CHR 0x27 then get_token InSingleQuotes arg r
          else get_token NoQuote (arg @ [c]) r)"
  by pat_completeness auto
termination
  by (relation "measure (\<lambda>(q, arg, p). length p)") (auto split: if_splits)

declare get_token.simps [simp del]

lemma get_token_le: "get_token q arg p = Some (t, r) \<Longrightarrow> length r \<le> length p"
proof (induction p arbitrary: q arg rule: length_induct)
  case (1 p)
  have IH: "length s < length p \<longrightarrow> length r \<le> length s" if "get_token q' arg' s = Some (t, r)" for q' arg' s
    using "1.IH" that by blast
  from "1.prems" show ?case
    by (cases q) (auto simp: get_token.simps [of arg p] split: if_splits list.splits dest!: IH)
qed

lemma get_token_less: "p \<noteq> [] \<Longrightarrow> get_token NoQuote arg p = Some (t, r) \<Longrightarrow> length r < length p"
  by (subst (asm) get_token.simps)
     (auto split: if_splits list.splits dest!: get_token_le)

text \<open>\<^verbatim>\<open>split2args\<close> on the C string at \<^verbatim>\<open>req_buf\<close>; the result is the return value and \<^verbatim>\<open>argv\<close>.\<close>

function split2args :: "bytes \<Rightarrow> args \<Rightarrow> int \<times> args" where
  "split2args p argv =
     (let p' = dropWhile c_isspace p in
      if p' \<noteq> [] then
        (case get_token NoQuote [] p' of
           None \<Rightarrow> (-1, [])
         | Some (arg, r) \<Rightarrow> split2args r (argv @ [arg]))
      else (0, argv))"
  by pat_completeness auto
termination
proof (relation "measure (\<lambda>(p, argv). length p)", simp)
  fix p argv p' a arg r
  assume "p' = dropWhile c_isspace p" "p' \<noteq> []" "get_token NoQuote [] p' = Some a" "(arg, r) = a"
  moreover have "length (dropWhile c_isspace p) \<le> length p"
    by (simp add: length_dropWhile_le)
  ultimately show "((r, argv @ [arg]), (p, argv)) \<in> measure (\<lambda>(p, argv). length p)"
    using get_token_less [of p' "[]" arg r] by auto
qed

declare split2args.simps [simp del]

section \<open>Parser operations\<close>

text \<open>\<^verbatim>\<open>FindNextSeparators\<close>: \<^verbatim>\<open>memchr\<close> for LF between \<^verbatim>\<open>cur_pos_\<close> and \<^verbatim>\<open>length_\<close>; -1 if there is none.\<close>

definition FindNextSeparators :: "redis_parser \<Rightarrow> parser_abort + int" where
  "FindNextSeparators p =
     (if rp_cur_pos p \<le> rp_length p then
        Inr (case find_pos (\<lambda>c. c = LF)
               (take (nat (rp_length p - rp_cur_pos p)) (drop (nat (rp_cur_pos p)) (rp_input_buf p))) of
             Some i \<Rightarrow> rp_cur_pos p + int i
           | None \<Rightarrow> -1)
      else Inl AssertFailed)"

text \<open>\<^verbatim>\<open>GetNextNum\<close>: the number after the type byte at \<^verbatim>\<open>cur_pos_\<close>; \<open>Inr None\<close> is \<^verbatim>\<open>-1\<close>, failed.\<close>

definition GetNextNum :: "string2l \<Rightarrow> redis_parser \<Rightarrow> int \<Rightarrow> parser_abort + int option" where
  "GetNextNum s2l p pos =
     (if rp_cur_pos p < pos
      then Inr (s2l (drop (nat (rp_cur_pos p + 1)) (rp_input_buf p)) (to_size (pos - rp_cur_pos p - 2)))
      else Inl AssertFailed)"

definition CacheHalfArgv :: "redis_parser \<Rightarrow> redis_parser" where
  "CacheHalfArgv p = p\<lparr>
     rp_half_argv := take (nat (rp_length p - rp_cur_pos p)) (drop (nat (rp_cur_pos p)) (rp_input_buf p)),
     rp_cur_pos := rp_length p\<rparr>"

definition SetParserStatus :: "RedisParserStatus \<Rightarrow> RedisParserError \<Rightarrow> redis_parser \<Rightarrow> redis_parser" where
  "SetParserStatus status error p =
     (let p' = (if status = kRedisParserHalf then CacheHalfArgv p else p)
      in p'\<lparr>rp_status_code := status, rp_error_code := error\<rparr>)"

definition RedisParserInit :: "int \<Rightarrow> redis_parser \<Rightarrow> redis_parser" where
  "RedisParserInit type p =
     (if rp_status_code p \<noteq> kRedisParserNone then SetParserStatus kRedisParserError kRedisParserInitError p
      else if type \<noteq> REDIS_PARSER_REQUEST \<and> type \<noteq> REDIS_PARSER_RESPONSE
      then SetParserStatus kRedisParserError kRedisParserInitError p
      else SetParserStatus kRedisParserInitDone kRedisParserOk (p\<lparr>rp_redis_parser_type := type\<rparr>))"

text \<open>
  The functions below return \<^verbatim>\<open>status_code_\<close>, which the resulting state holds.
\<close>

definition ProcessInlineBuffer :: "redis_parser \<Rightarrow> parser_abort + redis_parser" where
  "ProcessInlineBuffer p =
     (case FindNextSeparators p of
        Inl e \<Rightarrow> Inl e
      | Inr pos \<Rightarrow>
          if pos = -1 then
            if rp_length p > REDIS_INLINE_MAXLEN
            then Inr (SetParserStatus kRedisParserError kRedisParserFullError p)
            else Inr (SetParserStatus kRedisParserHalf kRedisParserOk p)
          else
            (let req_buf = cstr (drop (nat (rp_cur_pos p)) (rp_input_buf p));
                 (ret, argv) = split2args req_buf [];
                 p1 = p\<lparr>rp_argv := argv, rp_cur_pos := pos + 1\<rparr>
             in if ret = -1
                then Inr (SetParserStatus kRedisParserError kRedisParserProtoError p1)
                else Inr (SetParserStatus kRedisParserDone kRedisParserOk p1)))"

text \<open>
  One iteration of the loop of \<^verbatim>\<open>ProcessMultibulkBuffer\<close>: \<open>Next\<close> goes round again, \<open>Break\<close> leaves
  the loop, \<open>Return\<close> returns from the function.
\<close>

datatype loop_step = Next redis_parser | Break redis_parser | Return redis_parser | Throw parser_abort

definition bulk_body :: "redis_parser \<Rightarrow> loop_step" where
  "bulk_body p =
     (if 2 ^ 63 \<le> rp_bulk_len p + 2 then Throw SignedOverflow
      else if (rp_length p - 1) - rp_cur_pos p + 1 < rp_bulk_len p + 2 then Break p
      else if rp_bulk_len p < 0 then Throw LengthError
      else Next (p\<lparr>
        rp_argv := rp_argv p @ [take (nat (rp_bulk_len p)) (drop (nat (rp_cur_pos p)) (rp_input_buf p))],
        rp_cur_pos := rp_cur_pos p + rp_bulk_len p + 2,
        rp_bulk_len := -1,
        rp_multibulk_len := rp_multibulk_len p - 1\<rparr>))"

definition multibulk_step :: "string2l \<Rightarrow> redis_parser \<Rightarrow> loop_step" where
  "multibulk_step s2l p =
     (if rp_bulk_len p = -1 then
        (case FindNextSeparators p of
           Inl e \<Rightarrow> Throw e
         | Inr pos \<Rightarrow>
             if pos = -1 then Return (SetParserStatus kRedisParserHalf kRedisParserOk p)
             else if rp_input_buf p ! nat (rp_cur_pos p) \<noteq> CHR ''$''
             then Return (SetParserStatus kRedisParserError kRedisParserProtoError p)
             else (case GetNextNum s2l p pos of
                 Inl e \<Rightarrow> Throw e
               | Inr None \<Rightarrow> Return (SetParserStatus kRedisParserError kRedisParserProtoError p)
               | Inr (Some v) \<Rightarrow>
                   let p1 = p\<lparr>rp_bulk_len := v, rp_cur_pos := pos + 1\<rparr> in
                   if rp_cur_pos p1 > rp_length p1 - 1
                   then Return (SetParserStatus kRedisParserHalf kRedisParserOk p1)
                   else bulk_body p1))
      else bulk_body p)"

definition avail :: "redis_parser \<Rightarrow> nat" where
  "avail p = nat (rp_length p - rp_cur_pos p)"

lemma FindNextSeparators_bounds:
  assumes "FindNextSeparators p = Inr pos" "pos \<noteq> -1"
  shows "rp_cur_pos p \<le> pos \<and> pos < rp_length p \<and> rp_cur_pos p \<le> rp_length p"
  using assms by (auto simp: FindNextSeparators_def split: if_splits option.splits dest!: find_pos_SomeD)

lemma FindNextSeparators_neg: "0 \<le> rp_cur_pos p \<Longrightarrow> FindNextSeparators p = Inr pos \<Longrightarrow> pos < 0 \<Longrightarrow> pos = -1"
  by (auto simp: FindNextSeparators_def split: if_splits option.splits)

lemma bulk_body_Next:
  "bulk_body p = Next p' \<Longrightarrow> rp_length p' = rp_length p \<and> rp_cur_pos p + 2 \<le> rp_cur_pos p'
     \<and> rp_cur_pos p' \<le> rp_length p \<and> rp_multibulk_len p' = rp_multibulk_len p - 1 \<and> rp_bulk_len p' = -1"
  by (auto simp: bulk_body_def split: if_splits)

lemma bulk_body_no_Return: "bulk_body p \<noteq> Return p'"
  by (simp add: bulk_body_def)

lemma multibulk_step_Next:
  assumes "multibulk_step s2l p = Next p'"
  shows "rp_length p' = rp_length p \<and> rp_cur_pos p + 2 \<le> rp_cur_pos p' \<and> rp_cur_pos p' \<le> rp_length p"
  using assms FindNextSeparators_bounds [of p]
  by (fastforce simp: multibulk_step_def Let_def split: if_splits sum.splits option.splits dest!: bulk_body_Next)

function multibulk_loop :: "string2l \<Rightarrow> redis_parser \<Rightarrow> parser_abort + redis_parser" where
  "multibulk_loop s2l p =
     (if rp_multibulk_len p \<noteq> 0 then
        (case multibulk_step s2l p of
           Next p' \<Rightarrow> multibulk_loop s2l p'
         | Break p' \<Rightarrow>
             Inr (if rp_multibulk_len p' = 0 then SetParserStatus kRedisParserDone kRedisParserOk p'
                  else SetParserStatus kRedisParserHalf kRedisParserOk p')
         | Return p' \<Rightarrow> Inr p'
         | Throw e \<Rightarrow> Inl e)
      else Inr (SetParserStatus kRedisParserDone kRedisParserOk p))"
  by pat_completeness auto
termination
  by (relation "measure (\<lambda>(s2l, p). avail p)") (auto simp: avail_def dest!: multibulk_step_Next)

declare multibulk_loop.simps [simp del]

definition ProcessMultibulkBuffer :: "string2l \<Rightarrow> redis_parser \<Rightarrow> parser_abort + redis_parser" where
  "ProcessMultibulkBuffer s2l p =
     (if rp_multibulk_len p = 0 then
        (case FindNextSeparators p of
           Inl e \<Rightarrow> Inl e
         | Inr pos \<Rightarrow>
             if pos \<noteq> -1 then
               (case GetNextNum s2l p pos of
                  Inl e \<Rightarrow> Inl e
                | Inr None \<Rightarrow> Inr (SetParserStatus kRedisParserError kRedisParserProtoError p)
                | Inr (Some v) \<Rightarrow>
                    let p1 = p\<lparr>rp_multibulk_len := v, rp_cur_pos := pos + 1, rp_argv := []\<rparr> in
                    if rp_cur_pos p1 > rp_length p1 - 1
                    then Inr (SetParserStatus kRedisParserHalf kRedisParserOk p1)
                    else multibulk_loop s2l p1)
             else Inr (SetParserStatus kRedisParserHalf kRedisParserOk p))
      else multibulk_loop s2l p)"

definition ResetCommandStatus :: "redis_parser \<Rightarrow> redis_parser" where
  "ResetCommandStatus p = p\<lparr>rp_redis_type := 0, rp_multibulk_len := 0, rp_bulk_len := -1, rp_half_argv := []\<rparr>"

definition ResetRedisParser :: "redis_parser \<Rightarrow> redis_parser" where
  "ResetRedisParser p = p\<lparr>rp_cur_pos := 0, rp_input_buf := [], rp_length := 0\<rparr>"

text \<open>
  One pass of the loop of \<^verbatim>\<open>ProcessRequestBuffer\<close>: choose the kind of request and parse it.
  The last branch is the unknown request type, which returns \<^verbatim>\<open>kRedisParserError\<close> without setting
  a status; the returned status comes first.
\<close>

definition choose_type :: "redis_parser \<Rightarrow> redis_parser" where
  "choose_type p =
     (if rp_redis_type p = 0
      then p\<lparr>rp_redis_type := if rp_input_buf p ! nat (rp_cur_pos p) = CHR ''*''
                              then REDIS_REQ_MULTIBULK else REDIS_REQ_INLINE\<rparr>
      else p)"

definition parse_request :: "string2l \<Rightarrow> redis_parser \<Rightarrow> parser_abort + RedisParserStatus \<times> redis_parser" where
  "parse_request s2l p0 =
     (let p = choose_type p0 in
      if rp_redis_type p = REDIS_REQ_INLINE then
        map_sum id (\<lambda>p'. (rp_status_code p', p')) (ProcessInlineBuffer p)
      else if rp_redis_type p = REDIS_REQ_MULTIBULK then
        map_sum id (\<lambda>p'. (rp_status_code p', p')) (ProcessMultibulkBuffer s2l p)
      else Inr (kRedisParserError, p))"

text \<open>The delivery of a parsed command to \<^verbatim>\<open>DealMessage\<close>; \<open>False\<close> if the callback refuses it.\<close>

definition deliver :: "'c RedisParserSettings \<Rightarrow> 'c \<Rightarrow> redis_parser \<Rightarrow> bool \<times> 'c \<times> redis_parser" where
  "deliver settings c p =
     (if rp_argv p \<noteq> [] then
        let last = rp_argv p; p1 = p\<lparr>rp_argvs := rp_argvs p @ [last], rp_argv := []\<rparr> in
        (case DealMessage settings of
           Some deal \<Rightarrow>
             let (ret, c') = deal c last in
             if ret \<noteq> 0 then (False, c', SetParserStatus kRedisParserError kRedisParserDealError p1)
             else (True, c', p1)
         | None \<Rightarrow> (True, c, p1))
      else (True, c, p))"

fun lower_cmdname :: "args \<Rightarrow> args" where
  "lower_cmdname [] = []"
| "lower_cmdname (cmdname # rest) = map c_tolower cmdname # rest"

definition complete_requests :: "'c RedisParserSettings \<Rightarrow> 'c \<Rightarrow> redis_parser \<Rightarrow> 'c \<times> redis_parser" where
  "complete_requests settings c p =
     (case Complete settings of
        Some complete \<Rightarrow>
          let argvs = map lower_cmdname (rp_argvs p); (ret, c') = complete c argvs in
          if ret \<noteq> 0
          then (c', SetParserStatus kRedisParserError kRedisParserCompleteError (p\<lparr>rp_argvs := argvs\<rparr>))
          else (c', SetParserStatus kRedisParserDone kRedisParserOk (p\<lparr>rp_argvs := []\<rparr>))
      | None \<Rightarrow> (c, SetParserStatus kRedisParserDone kRedisParserOk (p\<lparr>rp_argvs := []\<rparr>)))"

lemma SetParserStatus_simps [simp]:
  "rp_status_code (SetParserStatus st e p) = st"
  "rp_error_code (SetParserStatus st e p) = e"
  "rp_length (SetParserStatus st e p) = rp_length p"
  "rp_redis_type (SetParserStatus st e p) = rp_redis_type p"
  "rp_redis_parser_type (SetParserStatus st e p) = rp_redis_parser_type p"
  "rp_multibulk_len (SetParserStatus st e p) = rp_multibulk_len p"
  "rp_bulk_len (SetParserStatus st e p) = rp_bulk_len p"
  "rp_argv (SetParserStatus st e p) = rp_argv p"
  "rp_argvs (SetParserStatus st e p) = rp_argvs p"
  "rp_input_buf (SetParserStatus st e p) = rp_input_buf p"
  by (simp_all add: SetParserStatus_def CacheHalfArgv_def Let_def)

lemma SetParserStatus_cur_pos [simp]:
  "st \<noteq> kRedisParserHalf \<Longrightarrow> rp_cur_pos (SetParserStatus st e p) = rp_cur_pos p"
  "st \<noteq> kRedisParserHalf \<Longrightarrow> rp_half_argv (SetParserStatus st e p) = rp_half_argv p"
  by (simp_all add: SetParserStatus_def Let_def)

lemma multibulk_step_Return:
  "multibulk_step s2l p = Return p' \<Longrightarrow> rp_status_code p' \<noteq> kRedisParserDone \<and> rp_length p' = rp_length p"
  by (auto simp: multibulk_step_def Let_def bulk_body_no_Return split: if_splits sum.splits option.splits)

lemma bulk_body_Break: "bulk_body p = Break p' \<Longrightarrow> p' = p"
  by (auto simp: bulk_body_def split: if_splits)

lemma multibulk_step_Break:
  "multibulk_step s2l p = Break p' \<Longrightarrow> rp_multibulk_len p' = rp_multibulk_len p \<and> rp_length p' = rp_length p"
  by (auto simp: multibulk_step_def Let_def split: if_splits sum.splits option.splits dest!: bulk_body_Break)

lemma multibulk_loop_progress:
  assumes "multibulk_loop s2l p = Inr p'"
  shows "rp_length p' = rp_length p \<and>
    (rp_status_code p' = kRedisParserDone \<longrightarrow>
       rp_cur_pos p \<le> rp_cur_pos p' \<and> (rp_multibulk_len p \<noteq> 0 \<longrightarrow> rp_cur_pos p < rp_cur_pos p'))"
  using assms
proof (induction s2l p rule: multibulk_loop.induct)
  case (1 s2l p)
  show ?case
  proof (cases "rp_multibulk_len p \<noteq> 0")
    case False
    with "1.prems" show ?thesis by (auto simp: multibulk_loop.simps [of s2l p])
  next
    case True
    show ?thesis
    proof (cases "multibulk_step s2l p")
      case (Next q)
      with True "1.prems" have "multibulk_loop s2l q = Inr p'"
        by (simp add: multibulk_loop.simps [of s2l p])
      with "1.IH" True Next multibulk_step_Next [OF Next] show ?thesis by fastforce
    next
      case (Break q)
      with True "1.prems" multibulk_step_Break [OF Break] show ?thesis
        by (auto simp: multibulk_loop.simps [of s2l p])
    next
      case (Return q)
      with True "1.prems" multibulk_step_Return [OF Return] show ?thesis
        by (simp add: multibulk_loop.simps [of s2l p])
    next
      case (Throw e)
      with True "1.prems" show ?thesis by (simp add: multibulk_loop.simps [of s2l p])
    qed
  qed
qed

lemma ProcessMultibulkBuffer_progress:
  assumes "ProcessMultibulkBuffer s2l p = Inr p'"
  shows "rp_length p' = rp_length p \<and> (rp_status_code p' = kRedisParserDone \<longrightarrow> rp_cur_pos p < rp_cur_pos p')"
  using assms FindNextSeparators_bounds [of p]
  by (fastforce simp: ProcessMultibulkBuffer_def Let_def split: if_splits sum.splits option.splits
      dest!: multibulk_loop_progress)

lemma ProcessInlineBuffer_progress:
  assumes "ProcessInlineBuffer p = Inr p'"
  shows "rp_length p' = rp_length p \<and> (rp_status_code p' = kRedisParserDone \<longrightarrow> rp_cur_pos p < rp_cur_pos p')"
  using assms FindNextSeparators_bounds [of p]
  by (fastforce simp: ProcessInlineBuffer_def Let_def split: if_splits sum.splits prod.splits)

lemma choose_type_simps [simp]:
  "rp_length (choose_type p) = rp_length p" "rp_cur_pos (choose_type p) = rp_cur_pos p"
  by (simp_all add: choose_type_def)

lemma parse_request_progress:
  assumes "parse_request s2l p = Inr (kRedisParserDone, p')"
  shows "rp_length p' = rp_length p \<and> rp_cur_pos p < rp_cur_pos p'"
  using assms
  by (cases "ProcessInlineBuffer (choose_type p)"; cases "ProcessMultibulkBuffer s2l (choose_type p)")
     (auto simp: parse_request_def Let_def split: if_splits
       dest!: ProcessMultibulkBuffer_progress ProcessInlineBuffer_progress)

lemma deliver_frame:
  "deliver settings c p = (b, c', p') \<Longrightarrow> rp_length p' = rp_length p \<and> rp_cur_pos p' = rp_cur_pos p"
  by (auto simp: deliver_def Let_def split: if_splits option.splits prod.splits)

lemma ResetCommandStatus_simps [simp]:
  "rp_length (ResetCommandStatus p) = rp_length p" "rp_cur_pos (ResetCommandStatus p) = rp_cur_pos p"
  "rp_argv (ResetCommandStatus p) = rp_argv p" "rp_argvs (ResetCommandStatus p) = rp_argvs p"
  "rp_input_buf (ResetCommandStatus p) = rp_input_buf p"
  "rp_redis_parser_type (ResetCommandStatus p) = rp_redis_parser_type p"
  "rp_status_code (ResetCommandStatus p) = rp_status_code p"
  by (simp_all add: ResetCommandStatus_def)

function ProcessRequestBuffer ::
  "string2l \<Rightarrow> 'c RedisParserSettings \<Rightarrow> 'c \<Rightarrow> redis_parser \<Rightarrow> parser_abort + 'c \<times> redis_parser" where
  "ProcessRequestBuffer s2l settings c p =
     (if rp_cur_pos p \<le> rp_length p - 1 then
        (case parse_request s2l p of
           Inl e \<Rightarrow> Inl e
         | Inr (ret, p1) \<Rightarrow>
             if ret \<noteq> kRedisParserDone then Inr (c, p1)
             else (case deliver settings c p1 of
                 (False, c', p2) \<Rightarrow> Inr (c', p2)
               | (True, c', p2) \<Rightarrow> ProcessRequestBuffer s2l settings c' (ResetCommandStatus p2)))
      else Inr (complete_requests settings c p))"
  by pat_completeness auto
termination
  by (relation "measure (\<lambda>(s2l, settings, c, p). avail p)")
     (auto simp: avail_def dest!: parse_request_progress deliver_frame [OF sym])

declare ProcessRequestBuffer.simps [simp del]

text \<open>\<^verbatim>\<open>ProcessResponseBuffer\<close> is a stub of the source (\<^verbatim>\<open>TODO\<close>): it reports \<^verbatim>\<open>kRedisParserDone\<close>.\<close>

definition ProcessResponseBuffer :: "redis_parser \<Rightarrow> redis_parser" where
  "ProcessResponseBuffer p = SetParserStatus kRedisParserDone kRedisParserOk p"

definition ProcessInputBuffer ::
  "string2l \<Rightarrow> 'c RedisParserSettings \<Rightarrow> 'c \<Rightarrow> redis_parser \<Rightarrow> bytes \<Rightarrow> parser_abort + 'c \<times> redis_parser" where
  "ProcessInputBuffer s2l settings c p input_buf =
     (if rp_status_code p = kRedisParserInitDone \<or> rp_status_code p = kRedisParserHalf
         \<or> rp_status_code p = kRedisParserDone then
        let input_str = rp_half_argv p @ input_buf;
            p1 = p\<lparr>rp_input_buf := input_str, rp_length := to_int32 (int (length input_str))\<rparr>
        in if rp_redis_parser_type p1 = REDIS_PARSER_REQUEST then
             map_sum id (map_prod id ResetRedisParser) (ProcessRequestBuffer s2l settings c p1)
           else if rp_redis_parser_type p1 = REDIS_PARSER_RESPONSE then
             Inr (c, ResetRedisParser (ProcessResponseBuffer p1))
           else Inr (c, SetParserStatus kRedisParserError kRedisParserInitError p1)
      else Inr (c, SetParserStatus kRedisParserError kRedisParserInitError p))"

text \<open>Feeding a sequence of reads to the parser.\<close>

fun feed :: "string2l \<Rightarrow> 'c RedisParserSettings \<Rightarrow> 'c \<Rightarrow> redis_parser \<Rightarrow> bytes list \<Rightarrow> parser_abort + 'c \<times> redis_parser"
  where
  "feed s2l settings c p [] = Inr (c, p)"
| "feed s2l settings c p (b # bs) =
     (case ProcessInputBuffer s2l settings c p b of
        Inl e \<Rightarrow> Inl e
      | Inr (c', p') \<Rightarrow> feed s2l settings c' p' bs)"

section \<open>What the callbacks keep\<close>

definition callbacks_keep :: "('c \<Rightarrow> bool) \<Rightarrow> 'c RedisParserSettings \<Rightarrow> bool" where
  "callbacks_keep I settings \<longleftrightarrow>
     (\<forall>deal c a. DealMessage settings = Some deal \<and> I c \<longrightarrow> I (snd (deal c a))) \<and>
     (\<forall>comp c b. Complete settings = Some comp \<and> I c \<longrightarrow> I (snd (comp c b)))"

lemma deliver_keeps:
  assumes "callbacks_keep I settings" "I c" "deliver settings c p = (b, c', p')"
  shows "I c'"
proof -
  have "I c''" if "deal c a = (r, c'')" "DealMessage settings = Some deal" for deal a r c''
    using assms(1,2) that unfolding callbacks_keep_def by (metis snd_conv)
  with assms(2,3) show ?thesis
    by (auto simp: deliver_def Let_def split: if_splits option.splits prod.splits)
qed

lemma complete_requests_keeps:
  assumes "callbacks_keep I settings" "I c" "complete_requests settings c p = (c', p')"
  shows "I c'"
proof -
  have "I c''" if "comp c a = (r, c'')" "Complete settings = Some comp" for comp a r c''
    using assms(1,2) that unfolding callbacks_keep_def by (metis snd_conv)
  with assms(2,3) show ?thesis
    by (auto simp: complete_requests_def Let_def split: if_splits option.splits prod.splits)
qed

lemma ProcessRequestBuffer_keeps:
  assumes "callbacks_keep I settings" "I c" "ProcessRequestBuffer s2l settings c p = Inr (c', p')"
  shows "I c'"
  using assms
proof (induction s2l settings c p rule: ProcessRequestBuffer.induct)
  case (1 s2l settings c p)
  show ?case
  proof (cases "rp_cur_pos p \<le> rp_length p - 1")
    case False
    with "1.prems" complete_requests_keeps [OF "1.prems"(1,2)] show ?thesis
      by (cases "complete_requests settings c p") (auto simp: ProcessRequestBuffer.simps [of s2l settings c p])
  next
    case go: True
    show ?thesis
    proof (cases "parse_request s2l p")
      case (Inl e)
      with go "1.prems"(3) show ?thesis by (simp add: ProcessRequestBuffer.simps [of s2l settings c p])
    next
      case (Inr rp)
      obtain ret p1 where rp: "rp = (ret, p1)" by (cases rp)
      show ?thesis
      proof (cases "ret = kRedisParserDone")
        case False
        with go Inr rp "1.prems"(2,3) show ?thesis by (simp add: ProcessRequestBuffer.simps [of s2l settings c p])
      next
        case True
        obtain b c1 p2 where del: "deliver settings c p1 = (b, c1, p2)" by (cases "deliver settings c p1")
        note I = deliver_keeps [OF "1.prems"(1,2) del]
        show ?thesis
        proof (cases b)
          case False
          with go Inr rp True del I "1.prems"(3) show ?thesis
            by (simp add: ProcessRequestBuffer.simps [of s2l settings c p])
        next
          case b: True
          have "ProcessRequestBuffer s2l settings c1 (ResetCommandStatus p2) = Inr (c', p')"
            using go Inr rp True del b "1.prems"(3) by (simp add: ProcessRequestBuffer.simps [of s2l settings c p])
          with "1.IH" [of rp ret p1 b "(c1, p2)" c1 p2] go Inr rp True del b I "1.prems"(1) show ?thesis by simp
        qed
      qed
    qed
  qed
qed

lemma ProcessInputBuffer_keeps:
  assumes "callbacks_keep I settings" "I c" "ProcessInputBuffer s2l settings c p s = Inr (c', p')"
  shows "I c'"
  using assms ProcessRequestBuffer_keeps [OF assms(1,2)]
  by (auto simp: ProcessInputBuffer_def Let_def map_sum_def split: if_splits sum.splits)

end
