(* ===== verification/RedisStream.thy ===== *)
theory RedisStream
  imports RedisParser RedisFormat
begin

text \<open>
  What the request parser promises, stated without buffers, positions or statuses: a reader of
  the unread bytes of a multibulk stream.  \<open>read_command\<close> reads one command from the unread
  bytes; \<open>read_stream\<close> reads commands until the bytes are used up.

  The refinement lemmas show that \<^verbatim>\<open>ProcessMultibulkBuffer\<close> and \<^verbatim>\<open>ProcessRequestBuffer\<close> implement the
  readers on the part of the buffer after \<^verbatim>\<open>cur_pos_\<close>; the append lemmas that a reader stopped in
  the middle of a command goes on as if it had never stopped.  Together they give the
  properties of the parser: it decodes what the client's formatter encodes, and how the bytes
  are cut into reads does not matter.
\<close>

section \<open>Documented behaviour of slash::string2l\<close>

text \<open>
  The conversion of \<open>n\<close> bytes to a \<^verbatim>\<open>long\<close>: the decimal form of a value that fits gives it back,
  only these \<open>n\<close> bytes are looked at, and a byte that is neither a digit nor a leading minus
  makes it fail.
\<close>

definition string2l_ok :: "string2l \<Rightarrow> bool" where
  "string2l_ok s2l \<longleftrightarrow>
     (\<forall>n < 2 ^ 63. s2l (to_string n) (length (to_string n)) = Some (int n)) \<and>
     (\<forall>s t n. n \<le> length s \<longrightarrow> s2l (s @ t) n = s2l s n) \<and>
     (\<forall>s n i. i < n \<and> i < length s \<and> \<not> c_isdigit (s ! i) \<and> (i = 0 \<longrightarrow> s ! i \<noteq> CHR ''-'')
        \<longrightarrow> s2l s n = None)"

lemma string2l_decimal:
  "string2l_ok s2l \<Longrightarrow> n < 2 ^ 63 \<Longrightarrow> s2l (to_string n @ t) (length (to_string n)) = Some (int n)"
  unfolding string2l_ok_def by simp

lemma string2l_local: "string2l_ok s2l \<Longrightarrow> n \<le> length s \<Longrightarrow> s2l (s @ t) n = s2l s n"
  by (simp add: string2l_ok_def)

lemma string2l_rejects:
  assumes "string2l_ok s2l" "i < n" "i < length s" "\<not> c_isdigit (s ! i)" "i = 0 \<Longrightarrow> s ! i \<noteq> CHR ''-''"
  shows "s2l s n = None"
  using assms unfolding string2l_ok_def by blast

lemma to_size_le: "to_size (int i - 2) \<le> i - 2 \<or> i < 2"
proof (cases "2 \<le> i")
  case True
  then have "to_size (int i - 2) \<le> nat (int i - 2)"
    by (simp add: to_size_def nat_le_eq_zle zmod_le_nonneg_dividend)
  with True show ?thesis by simp
qed simp

lemma string2l_line:
  assumes ok: "string2l_ok s2l" and lf: "find_pos (\<lambda>c. c = LF) r = Some i" and "0 < i"
  shows "s2l (drop (Suc 0) (r @ t)) (to_size (int i - 2)) = s2l (drop (Suc 0) r) (to_size (int i - 2))"
proof -
  from lf have i: "i < length r" "r ! i = LF" by (auto dest: find_pos_SomeD)
  then have dr: "drop (Suc 0) (r @ t) = drop (Suc 0) r @ t" by simp
  show ?thesis
  proof (cases "i = 1")
    case True
    have big: "0 < to_size (int i - 2)"
      using True by (simp add: to_size_negative)
    from True i have lf: "(drop (Suc 0) r @ u) ! 0 = LF" "0 < length (drop (Suc 0) r @ u)" for u
      by (auto simp: nth_append)
    have "\<not> c_isdigit LF" by (simp add: c_isdigit_def)
    then have "s2l (drop (Suc 0) r @ u) (to_size (int i - 2)) = None" for u
      using string2l_rejects [OF ok big, of "drop (Suc 0) r @ u"] lf [of u] by simp
    from this [of t] this [of "[]"] dr show ?thesis by simp
  next
    case False
    with \<open>0 < i\<close> i to_size_le [of i] have "to_size (int i - 2) \<le> length (drop (Suc 0) r)" by auto
    with string2l_local [OF ok] dr show ?thesis by simp
  qed
qed

section \<open>The abstract reader\<close>

datatype reader = More int int args bytes | Cmd args bytes | Refuse | Crash parser_abort

datatype header = Wait int bytes | Bad | Len int bytes

text \<open>The length line of a bulk, unless the length is known already.\<close>

definition bulk_header :: "string2l \<Rightarrow> int \<Rightarrow> bytes \<Rightarrow> header" where
  "bulk_header s2l b r =
     (if b = -1 then
        (case find_pos (\<lambda>c. c = LF) r of
           None \<Rightarrow> Wait b r
         | Some i \<Rightarrow>
             if r ! 0 \<noteq> CHR ''$'' then Bad
             else (case s2l (drop 1 r) (to_size (int i - 2)) of
                 None \<Rightarrow> Bad
               | Some v \<Rightarrow> if drop (Suc i) r = [] then Wait v [] else Len v (drop (Suc i) r)))
      else Len b r)"

lemma bulk_header_length: "bulk_header s2l b r = Len v r' \<Longrightarrow> length r' \<le> length r"
  by (auto simp: bulk_header_def split: if_splits option.splits)

function read_bulks :: "string2l \<Rightarrow> int \<Rightarrow> int \<Rightarrow> args \<Rightarrow> bytes \<Rightarrow> reader" where
  "read_bulks s2l m b av r =
     (if m = 0 then Cmd av r
      else case bulk_header s2l b r of
        Wait v r' \<Rightarrow> More m v av r'
      | Bad \<Rightarrow> Refuse
      | Len v r' \<Rightarrow>
          if 2 ^ 63 \<le> v + 2 then Crash SignedOverflow
          else if int (length r') < v + 2 then More m v av r'
          else if v < 0 then Crash LengthError
          else read_bulks s2l (m - 1) (-1) (av @ [take (nat v) r']) (drop (nat (v + 2)) r'))"
  by pat_completeness auto
termination
  by (relation "measure (\<lambda>(s2l, m, b, av, r). length r)") (auto dest!: bulk_header_length)

declare read_bulks.simps [simp del]

lemma read_bulks_0 [simp]: "read_bulks s2l 0 b av r = Cmd av r"
  by (simp add: read_bulks.simps)

lemma read_bulks_Suc:
  "m \<noteq> 0 \<Longrightarrow> read_bulks s2l m b av r =
     (case bulk_header s2l b r of
        Wait v r' \<Rightarrow> More m v av r'
      | Bad \<Rightarrow> Refuse
      | Len v r' \<Rightarrow>
          if 2 ^ 63 \<le> v + 2 then Crash SignedOverflow
          else if int (length r') < v + 2 then More m v av r'
          else if v < 0 then Crash LengthError
          else read_bulks s2l (m - 1) (-1) (av @ [take (nat v) r']) (drop (nat (v + 2)) r'))"
  by (subst read_bulks.simps) simp

definition read_command :: "string2l \<Rightarrow> int \<Rightarrow> int \<Rightarrow> args \<Rightarrow> bytes \<Rightarrow> reader" where
  "read_command s2l m b av r =
     (if m = 0 then
        (case find_pos (\<lambda>c. c = LF) r of
           None \<Rightarrow> More 0 b av r
         | Some i \<Rightarrow>
             if i = 0 then Crash AssertFailed
             else (case s2l (drop 1 r) (to_size (int i - 2)) of
                 None \<Rightarrow> Refuse
               | Some v \<Rightarrow>
                   if drop (Suc i) r = [] then More v b [] [] else read_bulks s2l v b [] (drop (Suc i) r)))
      else read_bulks s2l m b av r)"

lemma read_bulks_shorter: "read_bulks s2l m b av r = Cmd av' r' \<Longrightarrow> length r' \<le> length r \<and> (m \<noteq> 0 \<longrightarrow> length r' < length r)"
proof (induction s2l m b av r rule: read_bulks.induct)
  case (1 s2l m b av r)
  show ?case
  proof (cases "m = 0")
    case True
    with "1.prems" show ?thesis by simp
  next
    case False
    with "1.prems" obtain v q where q: "bulk_header s2l b r = Len v q" "\<not> 2 ^ 63 \<le> v + 2" "\<not> int (length q) < v + 2" "\<not> v < 0"
      "read_bulks s2l (m - 1) (-1) (av @ [take (nat v) q]) (drop (nat (v + 2)) q) = Cmd av' r'"
      by (auto simp: read_bulks_Suc split: header.splits if_splits)
    from "1.IH" [OF False q] have "length r' \<le> length (drop (nat (v + 2)) q)" by simp
    with q bulk_header_length [OF q(1)] show ?thesis by auto
  qed
qed

lemma read_command_shorter: "read_command s2l m b av r = Cmd av' r' \<Longrightarrow> length r' < length r"
  by (auto simp: read_command_def split: if_splits option.splits dest!: read_bulks_shorter find_pos_SomeD)

section \<open>Appending bytes\<close>

lemma bulk_header_append:
  assumes "string2l_ok s2l"
  shows "(case bulk_header s2l b r of
      Bad \<Rightarrow> bulk_header s2l b (r @ t) = Bad
    | Len v r' \<Rightarrow> bulk_header s2l b (r @ t) = Len v (r' @ t) \<and> (r' = [] \<longrightarrow> b = v \<and> b \<noteq> -1)
    | Wait v r' \<Rightarrow> v = b \<and> r' = r \<and> b = -1 \<or> r' = [] \<and> (t \<noteq> [] \<longrightarrow> bulk_header s2l b (r @ t) = Len v t))"
proof (cases "b = -1")
  case False
  then show ?thesis by (simp add: bulk_header_def)
next
  case b: True
  show ?thesis
  proof (cases "find_pos (\<lambda>c. c = LF) r")
    case None
    with b show ?thesis by (simp add: bulk_header_def)
  next
    case (Some i)
    then have i: "i < length r" "r ! i = LF" by (auto dest: find_pos_SomeD)
    have lf: "find_pos (\<lambda>c. c = LF) (r @ t) = Some i" using Some by (rule find_pos_append_Some)
    have hd: "(r @ t) ! 0 = r ! 0" using i by (cases r) auto
    show ?thesis
    proof (cases "r ! 0 = CHR ''$''")
      case False
      with b Some lf hd show ?thesis by (simp add: bulk_header_def)
    next
      case True
      with i have "0 < i" by (cases i) auto
      note s2l = string2l_line [OF assms Some this, of t]
      from i have dr: "drop (Suc i) (r @ t) = drop (Suc i) r @ t" by simp
      show ?thesis
        using b Some True
        by (auto simp: bulk_header_def lf hd s2l dr simp del: drop_append split: option.splits)
    qed
  qed
qed

lemma read_bulks_append:
  assumes "string2l_ok s2l"
  shows "(case read_bulks s2l m b av r of
      Cmd av' r' \<Rightarrow> read_bulks s2l m b av (r @ t) = Cmd av' (r' @ t)
    | Refuse \<Rightarrow> read_bulks s2l m b av (r @ t) = Refuse
    | Crash e \<Rightarrow> read_bulks s2l m b av (r @ t) = Crash e
    | More m' b' av' h \<Rightarrow> m' \<noteq> 0 \<and>
        (t \<noteq> [] \<longrightarrow> read_bulks s2l m b av (r @ t) = read_bulks s2l m' b' av' (h @ t)
           \<or> read_bulks s2l m b av (r @ t) = Crash LengthError))"
  using assms
proof (induction s2l m b av r rule: read_bulks.induct)
  case (1 s2l m b av r)
  note app = bulk_header_append [OF "1.prems", where b = b and r = r and t = t]
  show ?case
  proof (cases "m = 0")
    case True
    then show ?thesis by simp
  next
    case m: False
    show ?thesis
    proof (cases "bulk_header s2l b r")
      case (Wait v q)
      then have more: "read_bulks s2l m b av r = More m v av q" using m by (simp add: read_bulks_Suc)
      have "read_bulks s2l m b av (r @ t) = read_bulks s2l m v av (q @ t)
          \<or> read_bulks s2l m b av (r @ t) = Crash LengthError" if "t \<noteq> []"
      proof (cases "v = b \<and> q = r")
        case False
        with Wait app that have t: "q = []" "bulk_header s2l b (r @ t) = Len v t" by auto
        show ?thesis
        proof (cases "v = -1")
          case True
          with m t that show ?thesis by (cases t) (simp_all add: read_bulks_Suc)
        next
          case False
          then have "bulk_header s2l v t = Len v t" by (simp add: bulk_header_def)
          with m t show ?thesis by (simp add: read_bulks_Suc)
        qed
      qed simp
      with m more show ?thesis by simp
    next
      case Bad
      with m app show ?thesis by (simp add: read_bulks_Suc)
    next
      case (Len v q)
      with app have len: "bulk_header s2l b (r @ t) = Len v (q @ t)" "q = [] \<Longrightarrow> b = v \<and> b \<noteq> -1"
        by simp_all
      consider (huge) "2 ^ 63 \<le> v + 2" | (short) "\<not> 2 ^ 63 \<le> v + 2" "int (length q) < v + 2"
        | (neg) "\<not> 2 ^ 63 \<le> v + 2" "\<not> int (length q) < v + 2" "v < 0"
        | (enough) "\<not> 2 ^ 63 \<le> v + 2" "\<not> int (length q) < v + 2" "\<not> v < 0" by blast
      then show ?thesis
      proof cases
        case huge
        with m Len len(1) show ?thesis by (simp add: read_bulks_Suc)
      next
        case short
        have "v \<noteq> -1" using short len(2) by (cases q) auto
        then have "bulk_header s2l v (q @ t) = Len v (q @ t)" by (simp add: bulk_header_def)
        with short m Len len(1) show ?thesis by (simp add: read_bulks_Suc)
      next
        case neg
        with m Len len(1) show ?thesis by (simp add: read_bulks_Suc)
      next
        case enough
        let ?go = "read_bulks s2l (m - 1) (-1) (av @ [take (nat v) q])"
        have "read_bulks s2l m b av r = ?go (drop (nat (v + 2)) q)"
          using m Len enough by (simp add: read_bulks_Suc)
        moreover have "read_bulks s2l m b av (r @ t) = ?go (drop (nat (v + 2)) q @ t)"
          using m len(1) enough by (simp add: read_bulks_Suc)
        ultimately show ?thesis using "1.IH" [OF m Len enough "1.prems"] by (simp only:)
      qed
    qed
  qed
qed

lemma read_command_append:
  assumes "string2l_ok s2l"
  shows "(case read_command s2l m b av r of
      Cmd av' r' \<Rightarrow> read_command s2l m b av (r @ t) = Cmd av' (r' @ t)
    | Refuse \<Rightarrow> read_command s2l m b av (r @ t) = Refuse
    | Crash e \<Rightarrow> read_command s2l m b av (r @ t) = Crash e
    | More m' b' av' h \<Rightarrow>
        (t \<noteq> [] \<longrightarrow> read_command s2l m b av (r @ t) = read_command s2l m' b' av' (h @ t)
           \<or> read_command s2l m b av (r @ t) = Crash LengthError
           \<or> read_command s2l m b av (r @ t) = Cmd [] t))"
proof (cases "m = 0")
  case False
  with read_bulks_append [OF assms, where m = m and b = b and av = av and r = r and t = t]
  show ?thesis by (auto simp: read_command_def split: reader.splits)
next
  case m: True
  show ?thesis
  proof (cases "find_pos (\<lambda>c. c = LF) r")
    case None
    with m show ?thesis by (simp add: read_command_def)
  next
    case (Some i)
    then have i: "i < length r" by (auto dest: find_pos_SomeD)
    have lf: "find_pos (\<lambda>c. c = LF) (r @ t) = Some i" using Some by (rule find_pos_append_Some)
    show ?thesis
    proof (cases "i = 0 \<or> s2l (drop (Suc 0) r) (to_size (int i - 2)) = None")
      case True
      with m Some lf string2l_line [OF assms Some, of t] show ?thesis
        by (auto simp: read_command_def simp del: drop_append)
    next
      case False
      then obtain v where v: "0 < i" "s2l (drop (Suc 0) r) (to_size (int i - 2)) = Some v" by auto
      have now: "read_command s2l m b av r =
          (if drop (Suc i) r = [] then More v b [] [] else read_bulks s2l v b [] (drop (Suc i) r))"
        using m Some v by (simp add: read_command_def)
      have dr: "drop (Suc i) (r @ t) = drop (Suc i) r @ t" using i by simp
      have later: "read_command s2l m b av (r @ t) =
          (if drop (Suc i) r @ t = [] then More v b [] [] else read_bulks s2l v b [] (drop (Suc i) r @ t))"
        using m lf v dr string2l_line [OF assms Some v(1), of t]
        by (simp add: read_command_def del: drop_append)
      show ?thesis
      proof (cases "drop (Suc i) r = []")
        case True
        with now later show ?thesis by (cases "v = 0") (auto simp: read_command_def)
      next
        case False
        with now later read_bulks_append [OF assms, where m = v and b = b and av = "[]" and r = "drop (Suc i) r" and t = t]
        show ?thesis by (auto simp: read_command_def split: reader.splits)
      qed
    qed
  qed
qed

section \<open>Streams of commands\<close>

text \<open>
  A stream starts between two commands (\<open>None\<close>) or inside one, with the lengths and arguments
  read so far.  \<open>Broken\<close> covers everything that is not a stream of non-empty multibulk commands.
\<close>

type_synonym resume = "(int \<times> int \<times> args) option"

datatype stream_end = Idle | Pending int int args bytes | Broken

fun resume_command :: "string2l \<Rightarrow> resume \<Rightarrow> bytes \<Rightarrow> reader" where
  "resume_command s2l None r = (if hd r = CHR ''*'' then read_command s2l 0 (-1) [] r else Refuse)"
| "resume_command s2l (Some (m, b, av)) r = read_command s2l m b av r"

lemma resume_command_shorter: "resume_command s2l ctl r = Cmd av' r' \<Longrightarrow> length r' < length r"
  by (cases "(s2l, ctl, r)" rule: resume_command.cases) (auto split: if_splits dest: read_command_shorter)

function read_stream :: "string2l \<Rightarrow> resume \<Rightarrow> bytes \<Rightarrow> args list \<times> stream_end" where
  "read_stream s2l ctl r =
     (if r = [] then ([], if ctl = None then Idle else Broken)
      else case resume_command s2l ctl r of
        More m b av h \<Rightarrow> ([], Pending m b av h)
      | Cmd av r' \<Rightarrow>
          if av = [] then ([], Broken)
          else apfst ((#) av) (read_stream s2l None r')
      | Refuse \<Rightarrow> ([], Broken)
      | Crash e \<Rightarrow> ([], Broken))"
  by pat_completeness auto
termination
  by (relation "measure (\<lambda>(s2l, ctl, r). length r)") (auto dest: resume_command_shorter)

declare read_stream.simps [simp del]

lemma read_stream_Nil [simp]: "read_stream s2l None [] = ([], Idle)"
  by (simp add: read_stream.simps)

lemma read_stream_step:
  "r \<noteq> [] \<Longrightarrow> read_stream s2l ctl r =
     (case resume_command s2l ctl r of
        More m b av h \<Rightarrow> ([], Pending m b av h)
      | Cmd av r' \<Rightarrow> if av = [] then ([], Broken) else apfst ((#) av) (read_stream s2l None r')
      | Refuse \<Rightarrow> ([], Broken)
      | Crash e \<Rightarrow> ([], Broken))"
  by (subst read_stream.simps) simp

lemma resume_command_append:
  assumes "string2l_ok s2l" "r \<noteq> []"
  shows "(case resume_command s2l ctl r of
      Cmd av' r' \<Rightarrow> resume_command s2l ctl (r @ t) = Cmd av' (r' @ t)
    | Refuse \<Rightarrow> resume_command s2l ctl (r @ t) = Refuse
    | Crash e \<Rightarrow> resume_command s2l ctl (r @ t) = Crash e
    | More m' b' av' h \<Rightarrow>
        (t \<noteq> [] \<longrightarrow> resume_command s2l ctl (r @ t) = resume_command s2l (Some (m', b', av')) (h @ t)
           \<or> resume_command s2l ctl (r @ t) = Crash LengthError
           \<or> resume_command s2l ctl (r @ t) = Cmd [] t))"
proof (cases ctl)
  case None
  with assms(2) read_command_append [OF assms(1), where m = 0 and b = "-1" and av = "[]" and r = r and t = t]
  show ?thesis by (auto split: reader.splits)
next
  case (Some c)
  obtain m b av where "c = (m, b, av)" by (cases c)
  with Some read_command_append [OF assms(1), where m = m and b = b and av = av and r = r and t = t]
  show ?thesis by (auto split: reader.splits)
qed

lemma apfst_append_Nil [simp]: "apfst ((@) []) x = x"
  by (cases x) simp

text \<open>
  The reader is compositional: reading \<open>r @ t\<close> is reading \<open>r\<close> and then \<open>t\<close> from where it stopped.
\<close>

lemma read_stream_append:
  assumes "string2l_ok s2l" "ctl = None \<or> r \<noteq> []" "read_stream s2l ctl r = (ds, e)"
  shows "case e of
      Idle \<Rightarrow> read_stream s2l ctl (r @ t) = apfst ((@) ds) (read_stream s2l None t)
    | Pending m b av h \<Rightarrow> t \<noteq> [] \<longrightarrow>
        read_stream s2l ctl (r @ t) = apfst ((@) ds) (read_stream s2l (Some (m, b, av)) (h @ t))
        \<or> snd (read_stream s2l ctl (r @ t)) = Broken
    | Broken \<Rightarrow> snd (read_stream s2l ctl (r @ t)) = Broken"
  using assms
proof (induction s2l ctl r arbitrary: ds rule: read_stream.induct)
  case (1 s2l ctl r)
  show ?case
  proof (cases "r = []")
    case True
    with "1.prems" show ?thesis by auto
  next
    case r: False
    note app = resume_command_append [OF "1.prems"(1) r, where ctl = ctl and t = t]
    show ?thesis
    proof (cases "resume_command s2l ctl r")
      case (More m b av h)
      with "1.prems" r app show ?thesis
        by (cases "resume_command s2l ctl (r @ t)") (auto simp: read_stream_step split: reader.splits)
    next
      case (Cmd av r')
      show ?thesis
      proof (cases "av = []")
        case True
        with Cmd "1.prems" r app show ?thesis by (auto simp: read_stream_step)
      next
        case False
        obtain ds' where ds': "read_stream s2l None r' = (ds', e)" "ds = av # ds'"
          using Cmd False "1.prems"(3) r by (cases "read_stream s2l None r'") (auto simp: read_stream_step)
        have "read_stream s2l ctl (r @ t) = apfst ((#) av) (read_stream s2l None (r' @ t))"
          using Cmd False r app by (simp add: read_stream_step)
        with "1.IH" [OF r Cmd False "1.prems"(1) _ ds'(1)] ds'(2) show ?thesis
          by (auto simp: apfst_def map_prod_def split: stream_end.splits prod.splits)
      qed
    next
      case Refuse
      with "1.prems" r app show ?thesis by (auto simp: read_stream_step)
    next
      case (Crash e)
      with "1.prems" r app show ?thesis by (auto simp: read_stream_step)
    qed
  qed
qed

section \<open>Reading what the formatter writes\<close>

lemma find_pos_length_line [simp]:
  "find_pos (\<lambda>x. x = LF) (to_string n @ CR # LF # t) = Some (Suc (length (to_string n)))"
  using find_pos_skip [of "to_string n @ [CR]" "\<lambda>x. x = LF" LF t] to_string_no_LF [of n] by simp

lemma length_to_string_small: "n < 2 ^ 63 \<Longrightarrow> length (to_string n) < 2 ^ 63"
  using length_to_string_less [of n 63] by simp

lemma bulk_header_format:
  assumes "string2l_ok s2l" "length a < 2 ^ 63"
  shows "bulk_header s2l (-1) (format_bulk a @ t) = Len (int (length a)) (a @ CR # LF # t)"
  using assms length_to_string_small [OF assms(2)]
  by (simp add: bulk_header_def format_bulk_def string2l_decimal to_size_id)

lemma read_bulks_format:
  assumes "string2l_ok s2l" "\<forall>a \<in> set args. length a < 2 ^ 62"
  shows "read_bulks s2l (int (length args)) (-1) av (concat (map format_bulk args) @ t) = Cmd (av @ args) t"
  using assms(2)
proof (induction args arbitrary: av)
  case (Cons a args)
  then have "bulk_header s2l (-1) (concat (map format_bulk (a # args)) @ t) =
      Len (int (length a)) (a @ CR # LF # concat (map format_bulk args) @ t)"
    using bulk_header_format [OF assms(1), of a "concat (map format_bulk args) @ t"] by simp
  with Cons show ?case
    by (simp add: read_bulks_Suc nat_add_distrib)
qed simp

definition small_command :: "args \<Rightarrow> bool" where
  "small_command args \<longleftrightarrow> args \<noteq> [] \<and> length args < 2 ^ 63 \<and> (\<forall>a \<in> set args. length a < 2 ^ 62)"

lemma read_command_format:
  assumes "string2l_ok s2l" "small_command args"
  shows "read_command s2l 0 (-1) [] (format_command args @ t) = Cmd args t"
proof -
  from assms(2) have len: "length args < 2 ^ 63" and ne: "args \<noteq> []" and small: "\<forall>a \<in> set args. length a < 2 ^ 62"
    by (auto simp: small_command_def)
  from ne have "concat (map format_bulk args) \<noteq> []" by (cases args) (auto simp: format_bulk_def)
  with assms(1) len read_bulks_format [OF assms(1) small, of "[]" t] length_to_string_small [OF len]
  show ?thesis
    by (simp add: read_command_def format_command_def string2l_decimal to_size_id)
qed

lemma format_command_start [simp]: "format_command c \<noteq> []" "hd (format_command c @ t) = CHR ''*''"
  by (simp_all add: format_command_def)

lemma read_stream_format:
  assumes "string2l_ok s2l" "\<forall>c \<in> set cmds. small_command c"
  shows "read_stream s2l None (concat (map format_command cmds)) = (cmds, Idle)"
  using assms(2)
proof (induction cmds)
  case (Cons c cmds)
  have "resume_command s2l None (format_command c @ concat (map format_command cmds)) = Cmd c (concat (map format_command cmds))"
    using Cons.prems read_command_format [OF assms(1), of c] by simp
  with Cons show ?case
    by (auto simp: read_stream_step small_command_def)
qed simp

section \<open>The parser implements the reader\<close>

text \<open>
  \<open>rp_ok\<close> is the parser's invariant while it works on a buffer: \<^verbatim>\<open>length_\<close> is the length of the
  buffer and \<^verbatim>\<open>cur_pos_\<close> is inside it or just after it.
\<close>

definition rp_ok :: "redis_parser \<Rightarrow> bool" where
  "rp_ok p \<longleftrightarrow> 0 \<le> rp_cur_pos p \<and> rp_cur_pos p \<le> rp_length p \<and> rp_length p = int (length (rp_input_buf p))"

definition unread :: "redis_parser \<Rightarrow> bytes" where
  "unread p = drop (nat (rp_cur_pos p)) (rp_input_buf p)"

text \<open>\<open>implements p rd res\<close>: started in \<open>p\<close>, the parser's outcome \<open>res\<close> is what the reader \<open>rd\<close> says.\<close>

fun implements :: "redis_parser \<Rightarrow> reader \<Rightarrow> parser_abort + redis_parser \<Rightarrow> bool" where
  "implements p (More m b av h) res \<longleftrightarrow>
     res = Inr (p\<lparr>rp_multibulk_len := m, rp_bulk_len := b, rp_argv := av, rp_half_argv := h,
       rp_cur_pos := rp_length p, rp_status_code := kRedisParserHalf, rp_error_code := kRedisParserOk\<rparr>)"
| "implements p (Cmd av r) res \<longleftrightarrow>
     res = Inr (p\<lparr>rp_multibulk_len := 0, rp_bulk_len := -1, rp_argv := av,
       rp_cur_pos := rp_length p - int (length r), rp_status_code := kRedisParserDone, rp_error_code := kRedisParserOk\<rparr>)
     \<and> r = drop (length (rp_input_buf p) - length r) (rp_input_buf p) \<and> length r \<le> length (rp_input_buf p)"
| "implements p Refuse res \<longleftrightarrow>
     (\<exists>p'. res = Inr p' \<and> rp_status_code p' = kRedisParserError \<and> rp_error_code p' = kRedisParserProtoError)"
| "implements p (Crash e) res \<longleftrightarrow> res = Inl e"

lemma rp_okE:
  assumes "rp_ok p"
  obtains d where "rp_input_buf p = d @ unread p" "rp_cur_pos p = int (length d)"
    "rp_length p = int (length d) + int (length (unread p))"
proof
  let ?d = "take (nat (rp_cur_pos p)) (rp_input_buf p)"
  show "rp_input_buf p = ?d @ unread p" by (simp add: unread_def)
  show "rp_cur_pos p = int (length ?d)"
    "rp_length p = int (length ?d) + int (length (unread p))"
    using assms by (auto simp: rp_ok_def unread_def)
qed

lemma length_unread: "rp_ok p \<Longrightarrow> int (length (unread p)) = rp_length p - rp_cur_pos p"
  by (elim rp_okE) simp

lemma rp_ok_window: "rp_ok p \<Longrightarrow>
    take (nat (rp_length p - rp_cur_pos p)) (drop (nat (rp_cur_pos p)) (rp_input_buf p)) = unread p"
  by (simp add: rp_ok_def unread_def)

lemma unread_hd: "rp_ok p \<Longrightarrow> unread p \<noteq> [] \<Longrightarrow> rp_input_buf p ! nat (rp_cur_pos p) = unread p ! 0"
  by (simp add: rp_ok_def unread_def)

lemma FindNextSeparators_unread:
  assumes "rp_ok p"
  shows "FindNextSeparators p =
     Inr (case find_pos (\<lambda>c. c = LF) (unread p) of Some i \<Rightarrow> rp_cur_pos p + int i | None \<Rightarrow> -1)"
proof -
  from assms have "rp_cur_pos p \<le> rp_length p" by (simp add: rp_ok_def)
  then show ?thesis by (simp only: FindNextSeparators_def rp_ok_window [OF assms] if_True)
qed

lemma GetNextNum_unread:
  "rp_ok p \<Longrightarrow> 0 < i \<Longrightarrow>
     GetNextNum s2l p (rp_cur_pos p + int i) = Inr (s2l (drop 1 (unread p)) (to_size (int i - 2)))"
  by (simp add: GetNextNum_def rp_ok_def unread_def nat_add_distrib)

lemma SetParserStatus_Half:
  "rp_ok p \<Longrightarrow> SetParserStatus kRedisParserHalf e p =
     p\<lparr>rp_half_argv := unread p, rp_cur_pos := rp_length p, rp_status_code := kRedisParserHalf, rp_error_code := e\<rparr>"
  by (simp add: SetParserStatus_def CacheHalfArgv_def rp_ok_window)

text \<open>The parser after the line that ends at offset \<open>i\<close> of the unread bytes.\<close>

lemma skip_line:
  assumes "rp_ok p" "i < length (unread p)"
  shows "rp_cur_pos p + int i + 1 = rp_length p - int (length (drop (Suc i) (unread p)))"
    and "rp_cur_pos p + int i \<noteq> -1"
    and "rp_length p - 1 \<le> rp_cur_pos p + int i \<longleftrightarrow> drop (Suc i) (unread p) = []"
  using assms(2) by (auto intro: rp_okE [OF assms(1)])

definition goto_rest :: "bytes \<Rightarrow> redis_parser \<Rightarrow> redis_parser" where
  "goto_rest r p = p\<lparr>rp_cur_pos := rp_length p - int (length r)\<rparr>"

lemma rp_ok_update [simp]:
  "rp_ok (p\<lparr>rp_bulk_len := v\<rparr>) = rp_ok p" "rp_ok (p\<lparr>rp_multibulk_len := v\<rparr>) = rp_ok p"
  "rp_ok (p\<lparr>rp_argv := av\<rparr>) = rp_ok p" "rp_ok (p\<lparr>rp_redis_type := k\<rparr>) = rp_ok p"
  "rp_ok (p\<lparr>rp_argvs := avs\<rparr>) = rp_ok p" "rp_ok (p\<lparr>rp_half_argv := h\<rparr>) = rp_ok p"
  by (simp_all add: rp_ok_def)

lemma unread_update [simp]:
  "unread (p\<lparr>rp_bulk_len := v\<rparr>) = unread p" "unread (p\<lparr>rp_multibulk_len := v\<rparr>) = unread p"
  "unread (p\<lparr>rp_argv := av\<rparr>) = unread p" "unread (p\<lparr>rp_redis_type := k\<rparr>) = unread p"
  "unread (p\<lparr>rp_argvs := avs\<rparr>) = unread p" "unread (p\<lparr>rp_half_argv := h\<rparr>) = unread p"
  by (simp_all add: unread_def)

lemma goto_rest_simps [simp]:
  "rp_length (goto_rest r p) = rp_length p" "rp_input_buf (goto_rest r p) = rp_input_buf p"
  "rp_cur_pos (goto_rest r p) = rp_length p - int (length r)" "rp_argv (goto_rest r p) = rp_argv p"
  "rp_multibulk_len (goto_rest r p) = rp_multibulk_len p" "rp_bulk_len (goto_rest r p) = rp_bulk_len p"
  by (simp_all add: goto_rest_def)

lemma goto_rest_ok:
  assumes "rp_ok p"
  shows "rp_ok (goto_rest (drop n (unread p)) p)" "unread (goto_rest (drop n (unread p)) p) = drop n (unread p)"
proof -
  obtain d where d: "rp_input_buf p = d @ unread p" "rp_cur_pos p = int (length d)"
    "rp_length p = int (length d) + int (length (unread p))" using rp_okE [OF assms] .
  let ?q = "goto_rest (drop n (unread p)) p"
  have pos: "rp_cur_pos ?q = int (length d + min n (length (unread p)))"
    using d(3) by (simp add: goto_rest_def)
  with d assms show "rp_ok ?q" by (simp add: rp_ok_def goto_rest_def)
  have "unread ?q = drop (nat (rp_cur_pos ?q)) (rp_input_buf p)"
    by (simp add: unread_def goto_rest_def)
  also have "\<dots> = drop (length d + min n (length (unread p))) (d @ unread p)"
    by (simp only: pos nat_int d(1))
  finally have "unread ?q = drop (length d + min n (length (unread p))) (d @ unread p)" .
  then show "unread ?q = drop n (unread p)" by (simp add: min_def)
qed

lemma multibulk_step_unread:
  assumes "rp_ok p"
  shows "multibulk_step s2l p =
    (case bulk_header s2l (rp_bulk_len p) (unread p) of
       Wait v r \<Rightarrow> Return (p\<lparr>rp_bulk_len := v, rp_half_argv := r, rp_cur_pos := rp_length p,
           rp_status_code := kRedisParserHalf, rp_error_code := kRedisParserOk\<rparr>)
     | Bad \<Rightarrow> Return (SetParserStatus kRedisParserError kRedisParserProtoError p)
     | Len v r \<Rightarrow> bulk_body ((goto_rest r p)\<lparr>rp_bulk_len := v\<rparr>))"
proof (cases "rp_bulk_len p = -1 \<and> find_pos (\<lambda>c. c = LF) (unread p) \<noteq> None")
  case False
  have "goto_rest (unread p) p = p"
    using assms length_unread [OF assms] by (simp add: goto_rest_def)
  with False assms show ?thesis
    by (auto simp: multibulk_step_def bulk_header_def FindNextSeparators_unread SetParserStatus_Half)
next
  case True
  then obtain i where b: "rp_bulk_len p = -1" and lf: "find_pos (\<lambda>c. c = LF) (unread p) = Some i" by auto
  from lf have i: "i < length (unread p)" "unread p ! i = LF" by (auto dest: find_pos_SomeD)
  then have ne: "unread p \<noteq> []" by auto
  note skip = skip_line [OF assms i(1)]
  have find: "FindNextSeparators p = Inr (rp_cur_pos p + int i)"
    using FindNextSeparators_unread [OF assms] lf by simp
  show ?thesis
  proof (cases "unread p ! 0 = CHR ''$''")
    case False
    with b lf find skip(2) unread_hd [OF assms ne] show ?thesis
      by (simp add: multibulk_step_def bulk_header_def)
  next
    case dollar: True
    with i have "0 < i" by (cases i) auto
    note num = GetNextNum_unread [OF assms this, of s2l]
    show ?thesis
    proof (cases "s2l (drop 1 (unread p)) (to_size (int i - 2))")
      case None
      with b lf find num dollar skip(2) unread_hd [OF assms ne] show ?thesis
        by (simp add: multibulk_step_def bulk_header_def)
    next
      case (Some v)
      let ?p1 = "p\<lparr>rp_bulk_len := v, rp_cur_pos := rp_cur_pos p + int i + 1\<rparr>"
      have p1: "?p1 = (goto_rest (drop (Suc i) (unread p)) p)\<lparr>rp_bulk_len := v\<rparr>"
        using skip(1) by (simp add: goto_rest_def)
      have step: "multibulk_step s2l p =
          (if drop (Suc i) (unread p) = [] then Return (SetParserStatus kRedisParserHalf kRedisParserOk ?p1)
           else bulk_body ?p1)"
        using b find num Some dollar skip(2) unread_hd [OF assms ne]
        by (simp add: multibulk_step_def Let_def skip(3) del: drop_eq_Nil)
      have half: "SetParserStatus kRedisParserHalf kRedisParserOk ?p1 = ?p1\<lparr>rp_half_argv := drop (Suc i) (unread p),
          rp_cur_pos := rp_length p, rp_status_code := kRedisParserHalf, rp_error_code := kRedisParserOk\<rparr>"
        unfolding p1 using SetParserStatus_Half [of "(goto_rest (drop (Suc i) (unread p)) p)\<lparr>rp_bulk_len := v\<rparr>"]
          goto_rest_ok [OF assms, of "Suc i"] by simp
      show ?thesis
        unfolding step half bulk_header_def using b lf dollar Some p1
        by simp (simp add: goto_rest_def)
    qed
  qed
qed

lemma implements_update:
  "implements ((goto_rest r p)\<lparr>rp_argv := av, rp_bulk_len := b, rp_multibulk_len := m\<rparr>) rd res \<longleftrightarrow> implements p rd res"
  by (cases rd; cases p) (simp_all add: goto_rest_def)

lemma multibulk_loop_refines:
  assumes "rp_ok p" "rp_multibulk_len p = 0 \<longrightarrow> rp_bulk_len p = -1"
  shows "implements p (read_bulks s2l (rp_multibulk_len p) (rp_bulk_len p) (rp_argv p) (unread p))
           (multibulk_loop s2l p)"
  using assms
proof (induction s2l p rule: multibulk_loop.induct)
  case (1 s2l p)
  note step = multibulk_step_unread [OF "1.prems"(1), of s2l]
  show ?case
  proof (cases "rp_multibulk_len p = 0")
    case True
    have "drop (length (rp_input_buf p) - length (unread p)) (rp_input_buf p) = unread p"
      by (rule rp_okE [OF "1.prems"(1)]) (metis append_eq_conv_conj length_append add_diff_cancel_right')
    with True "1.prems" length_unread [OF "1.prems"(1)] show ?thesis
      by (auto simp: multibulk_loop.simps [of s2l p] SetParserStatus_def unread_def)
  next
    case m: False
    show ?thesis
    proof (cases "bulk_header s2l (rp_bulk_len p) (unread p)")
      case (Wait v r)
      with m step show ?thesis by (simp add: multibulk_loop.simps [of s2l p] read_bulks_Suc)
    next
      case Bad
      with m step show ?thesis by (simp add: multibulk_loop.simps [of s2l p] read_bulks_Suc)
    next
      case (Len v r)
      then obtain n where r: "r = drop n (unread p)"
        by (auto simp: bulk_header_def split: if_splits option.splits) (metis drop0)+
      let ?q = "(goto_rest r p)\<lparr>rp_bulk_len := v\<rparr>"
      have q: "rp_ok ?q" "unread ?q = r"
        using goto_rest_ok [OF "1.prems"(1), of n] r by simp_all
      let ?s = "drop (nat (v + 2)) r"
      let ?n = "(goto_rest ?s p)\<lparr>rp_argv := rp_argv p @ [take (nat v) r], rp_bulk_len := -1,
          rp_multibulk_len := rp_multibulk_len p - 1\<rparr>"
      have body: "bulk_body ?q =
          (if 2 ^ 63 \<le> v + 2 then Throw SignedOverflow else if int (length r) < v + 2 then Break ?q else if v < 0 then Throw LengthError else Next ?n)"
        using q(2) by (auto simp: bulk_body_def unread_def goto_rest_def of_nat_diff)
      consider (huge) "2 ^ 63 \<le> v + 2" | (short) "\<not> 2 ^ 63 \<le> v + 2" "int (length r) < v + 2"
        | (neg) "\<not> 2 ^ 63 \<le> v + 2" "\<not> int (length r) < v + 2" "v < 0"
        | (enough) "\<not> 2 ^ 63 \<le> v + 2" "\<not> int (length r) < v + 2" "\<not> v < 0" by blast
      then show ?thesis
      proof cases
        case huge
        with m step Len body show ?thesis by (simp add: multibulk_loop.simps [of s2l p] read_bulks_Suc)
      next
        case short
        with m step Len body q show ?thesis
          by (simp add: multibulk_loop.simps [of s2l p] read_bulks_Suc SetParserStatus_Half) (simp add: goto_rest_def)
      next
        case neg
        with m step Len body show ?thesis by (simp add: multibulk_loop.simps [of s2l p] read_bulks_Suc)
      next
        case enough
    have n: "rp_ok ?n" "unread ?n = ?s"
          using goto_rest_ok [OF "1.prems"(1), of "nat (v + 2) + n"] r by (simp_all add: add.commute)
        have "multibulk_step s2l p = Next ?n" using step Len body enough by simp
        moreover from this have "multibulk_loop s2l p = multibulk_loop s2l ?n"
          using m by (simp add: multibulk_loop.simps [of s2l p])
        moreover have "read_bulks s2l (rp_multibulk_len p) (rp_bulk_len p) (rp_argv p) (unread p) =
            read_bulks s2l (rp_multibulk_len ?n) (rp_bulk_len ?n) (rp_argv ?n) ?s"
          using m Len enough by (simp add: read_bulks_Suc)
        ultimately show ?thesis
          using "1.IH" [of ?n] m n implements_update by simp
      qed
    qed
  qed
qed

theorem ProcessMultibulkBuffer_refines:
  assumes "rp_ok p" "rp_multibulk_len p = 0 \<longrightarrow> rp_bulk_len p = -1"
  shows "implements p (read_command s2l (rp_multibulk_len p) (rp_bulk_len p) (rp_argv p) (unread p))
           (ProcessMultibulkBuffer s2l p)"
proof (cases "rp_multibulk_len p = 0")
  case False
  with multibulk_loop_refines [OF assms] show ?thesis
    by (simp add: read_command_def ProcessMultibulkBuffer_def)
next
  case m: True
  show ?thesis
  proof (cases "find_pos (\<lambda>c. c = LF) (unread p)")
    case None
    with m assms show ?thesis
      by (simp add: read_command_def ProcessMultibulkBuffer_def FindNextSeparators_unread SetParserStatus_Half)
  next
    case (Some i)
    then have i: "i < length (unread p)" by (auto dest: find_pos_SomeD)
    note skip = skip_line [OF assms(1) i]
    have find: "FindNextSeparators p = Inr (rp_cur_pos p + int i)"
      using FindNextSeparators_unread [OF assms(1)] Some by simp
    show ?thesis
    proof (cases "i = 0")
      case True
      with m Some find skip(2) show ?thesis
        by (simp add: read_command_def ProcessMultibulkBuffer_def GetNextNum_def)
    next
      case False
      then have num: "GetNextNum s2l p (rp_cur_pos p + int i) = Inr (s2l (drop 1 (unread p)) (to_size (int i - 2)))"
        using GetNextNum_unread [OF assms(1)] by simp
      show ?thesis
      proof (cases "s2l (drop 1 (unread p)) (to_size (int i - 2))")
        case None
        with m Some find num skip(2) False show ?thesis
          by (simp add: read_command_def ProcessMultibulkBuffer_def)
      next
        case (Some v)
        let ?r = "drop (Suc i) (unread p)"
        let ?p1 = "p\<lparr>rp_multibulk_len := v, rp_cur_pos := rp_cur_pos p + int i + 1, rp_argv := []\<rparr>"
        let ?q = "(goto_rest ?r p)\<lparr>rp_argv := [], rp_bulk_len := -1, rp_multibulk_len := v\<rparr>"
        have q: "rp_ok ?q" "unread ?q = ?r" using goto_rest_ok [OF assms(1), of "Suc i"] by simp_all
        have p1: "?p1 = ?q" using m assms(2) skip(1) by (cases p) (simp add: goto_rest_def)
        have "ProcessMultibulkBuffer s2l p =
            (if ?r = [] then Inr (SetParserStatus kRedisParserHalf kRedisParserOk ?q) else multibulk_loop s2l ?q)"
          unfolding p1 [symmetric] using m find num Some skip(2)
          by (simp add: ProcessMultibulkBuffer_def Let_def skip(3) del: drop_eq_Nil)
        moreover have "implements p (read_bulks s2l v (-1) [] ?r) (multibulk_loop s2l ?q)"
          using multibulk_loop_refines [OF q(1)] q(2) by (simp add: implements_update)
        moreover have "implements p (More v (-1) [] ?r) (Inr (SetParserStatus kRedisParserHalf kRedisParserOk ?q))"
          using q by (cases p) (simp add: SetParserStatus_Half goto_rest_def)
        moreover have "read_command s2l 0 (-1) (rp_argv p) (unread p) =
            (if ?r = [] then More v (-1) [] ?r else read_bulks s2l v (-1) [] ?r)"
          using \<open>find_pos _ _ = Some i\<close> False Some by (simp add: read_command_def)
        ultimately show ?thesis
          using m assms(2) by (auto simp del: implements.simps drop_eq_Nil)
      qed
    qed
  qed
qed

section \<open>Whole reads\<close>

text \<open>
  Callbacks that accept every command: \<^verbatim>\<open>DealMessage\<close> updates the caller's state by \<open>f\<close>, \<^verbatim>\<open>Complete\<close> by
  \<open>g\<close>.  The logging callbacks keep each command dealt and each batch completed.
\<close>

definition accepting :: "('c \<Rightarrow> args \<Rightarrow> 'c) \<Rightarrow> ('c \<Rightarrow> args list \<Rightarrow> 'c) \<Rightarrow> 'c RedisParserSettings" where
  "accepting f g = \<lparr>DealMessage = Some (\<lambda>c a. (0, f c a)), Complete = Some (\<lambda>c b. (0, g c b))\<rparr>"

type_synonym log = "args list \<times> args list list"

definition log_settings :: "log RedisParserSettings" where
  "log_settings = accepting (\<lambda>(ds, bs) a. (ds @ [a], bs)) (\<lambda>(ds, bs) b. (ds, bs @ [b]))"

lemma foldl_log [simp]: "foldl (\<lambda>(ds, bs) a. (ds @ [a], bs)) (xs, bs) ds = (xs @ ds, bs)"
  by (induction ds arbitrary: xs) auto

text \<open>Where a parser that has returned from a read stands in the stream.\<close>

fun parser_at :: "redis_parser \<Rightarrow> resume \<Rightarrow> bool" where
  "parser_at p None \<longleftrightarrow> rp_redis_type p = 0 \<and> rp_multibulk_len p = 0 \<and> rp_bulk_len p = -1
     \<and> rp_argv p = [] \<and> rp_half_argv p = []"
| "parser_at p (Some (m, b, av)) \<longleftrightarrow> rp_redis_type p = REDIS_REQ_MULTIBULK \<and> rp_multibulk_len p = m
     \<and> rp_bulk_len p = b \<and> rp_argv p = av \<and> (m = 0 \<longrightarrow> b = -1)"

lemma read_bulks_More: "read_bulks s2l m b av r = More m' b' av' h \<Longrightarrow> m' \<noteq> 0"
proof (induction s2l m b av r rule: read_bulks.induct)
  case (1 s2l m b av r)
  then show ?case by (cases "m = 0") (auto simp: read_bulks_Suc split: header.splits if_splits)
qed

lemma read_command_More:
  "read_command s2l m b av r = More m' b' av' h \<Longrightarrow> (m = 0 \<longrightarrow> b = -1) \<Longrightarrow> m' = 0 \<longrightarrow> b' = -1"
  by (auto simp: read_command_def split: if_splits option.splits dest: read_bulks_More)

text \<open>What is kept for the next read is never longer than what was there to read.\<close>

lemma bulk_header_kept: "bulk_header s2l b r = Wait v h \<Longrightarrow> length h \<le> length r"
  by (auto simp: bulk_header_def split: if_splits option.splits)

lemma read_bulks_kept: "read_bulks s2l m b av r = More m' b' av' h \<Longrightarrow> length h \<le> length r"
proof (induction s2l m b av r rule: read_bulks.induct)
  case (1 s2l m b av r)
  then show ?case
    by (cases "m = 0") (fastforce simp: read_bulks_Suc split: header.splits if_splits
        dest: bulk_header_kept bulk_header_length)+
qed

lemma resume_command_kept: "resume_command s2l ctl r = More m b av h \<Longrightarrow> length h \<le> length r"
  by (cases "(s2l, ctl, r)" rule: resume_command.cases)
     (fastforce simp: read_command_def split: if_splits option.splits dest: read_bulks_kept)+

lemma read_stream_kept: "read_stream s2l ctl r = (ds, Pending m b av h) \<Longrightarrow> length h \<le> length r"
proof (induction s2l ctl r arbitrary: ds rule: read_stream.induct)
  case (1 s2l ctl r)
  show ?case
  proof (cases "resume_command s2l ctl r")
    case (Cmd av' r')
    with 1 resume_command_shorter [OF Cmd] show ?thesis
      by (cases "read_stream s2l None r'")
         (fastforce simp: read_stream.simps [of s2l ctl r] split: if_splits)
  qed (use 1 in \<open>auto simp: read_stream.simps [of s2l ctl r] dest: resume_command_kept split: if_splits\<close>)
qed

lemma resume_command_More:
  assumes "resume_command s2l ctl r = More m b av h" "parser_at p ctl"
  shows "m = 0 \<longrightarrow> b = -1"
  using assms by (cases "(s2l, ctl, r)" rule: resume_command.cases)
    (auto split: if_splits dest: read_command_More)

lemma parse_request_refines:
  assumes "rp_ok p" "parser_at p ctl" "unread p \<noteq> []" "resume_command s2l ctl (unread p) \<noteq> Refuse"
  defines "q \<equiv> p\<lparr>rp_redis_type := REDIS_REQ_MULTIBULK\<rparr>"
  shows "parse_request s2l p = map_sum id (\<lambda>p'. (rp_status_code p', p')) (ProcessMultibulkBuffer s2l q)"
    and "implements q (resume_command s2l ctl (unread p)) (ProcessMultibulkBuffer s2l q)"
proof -
  have q: "rp_ok q" "unread q = unread p" using assms(1) by (simp_all add: q_def)
  have "choose_type p = q \<and> implements q (resume_command s2l ctl (unread p)) (ProcessMultibulkBuffer s2l q)"
  proof (cases ctl)
    case None
    with assms(3,4) unread_hd [OF assms(1,3)] have "rp_input_buf p ! nat (rp_cur_pos p) = CHR ''*''"
      and star: "hd (unread p) = CHR ''*''"
      by (auto simp: hd_conv_nth split: if_splits)
    with None assms(2) have "choose_type p = q" by (simp add: choose_type_def q_def)
    with None star assms(2) ProcessMultibulkBuffer_refines [OF q(1), of s2l] show ?thesis
      by (simp add: q_def)
  next
    case (Some c)
    obtain m b av where "c = (m, b, av)" by (cases c)
    with Some assms(2) have "q = p" "rp_multibulk_len p = 0 \<longrightarrow> rp_bulk_len p = -1"
      by (auto simp: q_def)
    with Some assms(1,2) \<open>c = _\<close> ProcessMultibulkBuffer_refines [OF assms(1), of s2l] show ?thesis
      by (auto simp: choose_type_def REDIS_REQ_MULTIBULK_def)
  qed
  then show "parse_request s2l p = map_sum id (\<lambda>p'. (rp_status_code p', p')) (ProcessMultibulkBuffer s2l q)"
    and "implements q (resume_command s2l ctl (unread p)) (ProcessMultibulkBuffer s2l q)"
    by (simp_all add: parse_request_def q_def REDIS_REQ_MULTIBULK_def REDIS_REQ_INLINE_def)
qed

lemma ProcessRequestBuffer_command:
  assumes "rp_cur_pos p \<le> rp_length p - 1" "parse_request s2l p = Inr (kRedisParserDone, q)" "rp_argv q \<noteq> []"
  shows "ProcessRequestBuffer s2l (accepting f g) c p = ProcessRequestBuffer s2l (accepting f g) (f c (rp_argv q))
    (ResetCommandStatus (q\<lparr>rp_argvs := rp_argvs q @ [rp_argv q], rp_argv := []\<rparr>))"
  using assms by (simp add: ProcessRequestBuffer.simps [of s2l _ _ p] deliver_def accepting_def Let_def)

lemma ProcessRequestBuffer_end:
  assumes "\<not> rp_cur_pos p \<le> rp_length p - 1"
  shows "ProcessRequestBuffer s2l (accepting f g) c p =
    Inr (g c (map lower_cmdname (rp_argvs p)), SetParserStatus kRedisParserDone kRedisParserOk (p\<lparr>rp_argvs := []\<rparr>))"
  using assms by (simp add: ProcessRequestBuffer.simps [of s2l _ _ p] complete_requests_def accepting_def)

text \<open>
  One call of \<^verbatim>\<open>ProcessRequestBuffer\<close>: every command of the unread bytes is dealt, in order; at the
  end the batch is completed, or the parser keeps what it needs to go on.
\<close>

lemma ProcessRequestBuffer_refines:
  assumes "rp_ok p" "parser_at p ctl" "read_stream s2l ctl (unread p) = (ds, e)" "e \<noteq> Broken"
  shows "\<exists>p'. (case e of
      Pending m b av h \<Rightarrow>
        ProcessRequestBuffer s2l (accepting f g) c p = Inr (foldl f c ds, p') \<and>
        parser_at p' (Some (m, b, av)) \<and> rp_half_argv p' = h \<and> rp_argvs p' = rp_argvs p @ ds \<and>
        rp_status_code p' = kRedisParserHalf
    | _ \<Rightarrow>
        ProcessRequestBuffer s2l (accepting f g) c p =
          Inr (g (foldl f c ds) (map lower_cmdname (rp_argvs p @ ds)), p') \<and>
        parser_at p' None \<and> rp_argvs p' = [] \<and> rp_status_code p' = kRedisParserDone)
    \<and> rp_redis_parser_type p' = rp_redis_parser_type p"
  using assms
proof (induction s2l ctl "unread p" arbitrary: p c ds rule: read_stream.induct)
  case (1 s2l ctl p)
  show ?case
  proof (cases "unread p = []")
    case True
    with "1.prems" have "ctl = None" "ds = []" "e = Idle"
      by (auto simp: read_stream.simps [of s2l ctl] split: if_splits)
    moreover have "\<not> rp_cur_pos p \<le> rp_length p - 1"
      using length_unread [OF "1.prems"(1)] True by simp
    ultimately show ?thesis using "1.prems"(2) by (simp add: ProcessRequestBuffer_end)
  next
    case ne: False
    then have go: "rp_cur_pos p \<le> rp_length p - 1"
      using length_unread [OF "1.prems"(1)] by (cases "unread p") auto
    from "1.prems"(3,4) ne have ok: "resume_command s2l ctl (unread p) \<noteq> Refuse"
      by (auto simp: read_stream_step)
    note ref = parse_request_refines [OF "1.prems"(1,2) ne ok]
    show ?thesis
    proof (cases "resume_command s2l ctl (unread p)")
      case (More m b av h)
      with "1.prems"(2) have "m = 0 \<longrightarrow> b = -1" by (rule resume_command_More [rotated])
      moreover have "ds = []" "e = Pending m b av h"
        using "1.prems"(3) ne More by (simp_all add: read_stream_step)
      ultimately show ?thesis using More ref go
        by (simp add: ProcessRequestBuffer.simps [of s2l _ _ p])
    next
      case (Cmd av r)
      from "1.prems"(3,4) ne Cmd have av: "av \<noteq> []" by (auto simp: read_stream_step)
      obtain ds' where ds': "read_stream s2l None r = (ds', e)" "ds = av # ds'"
        using Cmd av "1.prems"(3) ne by (cases "read_stream s2l None r") (auto simp: read_stream_step)
      let ?q = "p\<lparr>rp_redis_type := REDIS_REQ_MULTIBULK, rp_multibulk_len := 0, rp_bulk_len := -1, rp_argv := av,
         rp_cur_pos := rp_length p - int (length r), rp_status_code := kRedisParserDone, rp_error_code := kRedisParserOk\<rparr>"
      define n where "n = ResetCommandStatus (?q\<lparr>rp_argvs := rp_argvs p @ [av], rp_argv := []\<rparr>)"
      have r: "drop (length (rp_input_buf p) - length r) (rp_input_buf p) = r" "length r \<le> length (rp_input_buf p)"
        and parsed: "parse_request s2l p = Inr (kRedisParserDone, ?q)"
        using ref Cmd by auto
      have n: "rp_ok n" "unread n = r" "parser_at n None"
        and kept: "rp_argvs n = rp_argvs p @ [av]" "rp_redis_parser_type n = rp_redis_parser_type p"
        using r "1.prems"(1)
        by (auto simp: n_def rp_ok_def unread_def ResetCommandStatus_def nat_diff_distrib)
      have "ProcessRequestBuffer s2l (accepting f g) c p = ProcessRequestBuffer s2l (accepting f g) (f c av) n"
        using ProcessRequestBuffer_command [OF go parsed] av by (simp add: n_def)
      moreover have "resume_command s2l ctl (unread p) = Cmd av (unread n)" using Cmd n(2) by simp
      note "1.hyps" [OF ne this av n(1,3) _ "1.prems"(4), of ds' "f c av"]
      ultimately show ?thesis
        using n(2) ds' kept by (auto split: stream_end.splits)
    qed (use "1.prems"(3,4) ne in \<open>auto simp: read_stream_step\<close>)
  qed
qed

text \<open>A command that will be completed by the bytes to come has an announced length that they cover.\<close>

lemma pending_bulk_bound:
  assumes "read_stream s2l (Some (m, b, av)) r = (ds, Idle)" "m = 0 \<longrightarrow> b = -1"
  shows "b \<le> int (length r)"
proof (cases "m = 0 \<or> b = -1")
  case True
  with assms(2) show ?thesis by auto
next
  case False
  then have "bulk_header s2l b r = Len b r" by (simp add: bulk_header_def)
  with False assms(1) show ?thesis
    by (cases "r = []") (auto simp: read_stream.simps read_stream_step read_command_def read_bulks_Suc split: if_splits)
qed

text \<open>Between two reads the parser holds no buffer and has a status from which it goes on.\<close>

definition parser_idle :: "redis_parser \<Rightarrow> bool" where
  "parser_idle p \<longleftrightarrow> rp_cur_pos p = 0 \<and> rp_redis_parser_type p = REDIS_PARSER_REQUEST
     \<and> rp_status_code p \<in> {kRedisParserInitDone, kRedisParserHalf, kRedisParserDone}"

lemma parser_at_buffer: "parser_at (p\<lparr>rp_input_buf := s, rp_length := n\<rparr>) ctl = parser_at p ctl"
  by (cases "(p, ctl)" rule: parser_at.cases) simp_all

lemma ProcessInputBuffer_refines:
  assumes "parser_idle p" "parser_at p ctl" "length (rp_half_argv p @ s) < 2 ^ 31"
    and "read_stream s2l ctl (rp_half_argv p @ s) = (ds, e)" "e \<noteq> Broken"
  shows "\<exists>p'. (case e of
      Pending m b av h \<Rightarrow>
        ProcessInputBuffer s2l (accepting f g) c p s = Inr (foldl f c ds, p') \<and>
        parser_at p' (Some (m, b, av)) \<and> rp_half_argv p' = h \<and> rp_argvs p' = rp_argvs p @ ds \<and>
        rp_status_code p' = kRedisParserHalf
    | _ \<Rightarrow>
        ProcessInputBuffer s2l (accepting f g) c p s =
          Inr (g (foldl f c ds) (map lower_cmdname (rp_argvs p @ ds)), p') \<and>
        parser_at p' None \<and> rp_argvs p' = [] \<and> rp_status_code p' = kRedisParserDone)
    \<and> parser_idle p'"
proof -
  let ?s = "rp_half_argv p @ s"
  let ?p = "p\<lparr>rp_input_buf := ?s, rp_length := int (length ?s)\<rparr>"
  have q: "rp_ok ?p" "unread ?p = ?s" "rp_redis_parser_type ?p = REDIS_PARSER_REQUEST" "parser_at ?p ctl"
    using assms(1,2) by (auto simp: rp_ok_def unread_def parser_idle_def parser_at_buffer)
  have call: "ProcessInputBuffer s2l (accepting f g) c p s =
      map_sum id (map_prod id ResetRedisParser) (ProcessRequestBuffer s2l (accepting f g) c ?p)"
    using assms(1,3) q(3) by (auto simp: ProcessInputBuffer_def parser_idle_def Let_def c_int)
  obtain p' where p': "case e of
      Pending m b av h \<Rightarrow>
        ProcessRequestBuffer s2l (accepting f g) c ?p = Inr (foldl f c ds, p') \<and>
        parser_at p' (Some (m, b, av)) \<and> rp_half_argv p' = h \<and> rp_argvs p' = rp_argvs ?p @ ds \<and>
        rp_status_code p' = kRedisParserHalf
    | _ \<Rightarrow>
        ProcessRequestBuffer s2l (accepting f g) c ?p =
          Inr (g (foldl f c ds) (map lower_cmdname (rp_argvs ?p @ ds)), p') \<and>
        parser_at p' None \<and> rp_argvs p' = [] \<and> rp_status_code p' = kRedisParserDone"
    and kind: "rp_redis_parser_type p' = REDIS_PARSER_REQUEST"
    using ProcessRequestBuffer_refines [OF q(1,4), of s2l ds e f g c] q(2,3) assms(4,5) by auto
  show ?thesis
    using call p' kind assms(5)
    by (intro exI [of _ "ResetRedisParser p'"]) (auto simp: ResetRedisParser_def parser_idle_def split: stream_end.splits)
qed

text \<open>How the bytes of a stream are cut into reads does not matter.\<close>

lemma feed_refines:
  assumes ok: "string2l_ok s2l"
    and "parser_idle p" "parser_at p ctl" "length (rp_half_argv p @ concat cs) < 2 ^ 31" "[] \<notin> set cs"
    and "read_stream s2l ctl (rp_half_argv p @ concat cs) = (ds, Idle)"
    and "ctl = None \<longrightarrow> rp_argvs p = []" "cs = [] \<longrightarrow> ctl = None"
  shows "\<exists>B p'. feed s2l log_settings (xs, bs) p cs = Inr ((xs @ ds, bs @ B), p')
     \<and> concat B = map lower_cmdname (rp_argvs p @ ds)
     \<and> parser_idle p' \<and> parser_at p' None"
  using assms(2-)
proof (induction cs arbitrary: p ctl xs bs ds)
  case Nil
  then show ?case by auto
next
  case (Cons c cs)
  let ?s = "rp_half_argv p @ c"
  obtain ds1 e where e: "read_stream s2l ctl ?s = (ds1, e)" by (cases "read_stream s2l ctl ?s")
  have "ctl = None \<or> ?s \<noteq> []" using Cons.prems(4) by auto
  note app = read_stream_append [OF ok this e, of "concat cs"]
  have whole: "read_stream s2l ctl (?s @ concat cs) = (ds, Idle)" using Cons.prems(5) by simp
  with app have "e \<noteq> Broken" by auto
  have small: "length ?s < 2 ^ 31" using Cons.prems(3) by simp
  note one = ProcessInputBuffer_refines [OF Cons.prems(1,2) small e \<open>e \<noteq> Broken\<close>,
      of "\<lambda>(ds, bs) a. (ds @ [a], bs)" "\<lambda>(ds, bs) b. (ds, bs @ [b])" "(xs, bs)", folded log_settings_def]
  show ?case
  proof (cases e)
    case Idle
    obtain ds2 where ds2: "read_stream s2l None (concat cs) = (ds2, Idle)" "ds = ds1 @ ds2"
      using app whole Idle by (cases "read_stream s2l None (concat cs)") auto
    from one Idle obtain p' where p': "ProcessInputBuffer s2l log_settings (xs, bs) p c =
          Inr ((xs @ ds1, bs @ [map lower_cmdname (rp_argvs p @ ds1)]), p')"
      "parser_at p' None" "rp_argvs p' = []" "parser_idle p'" by auto
    from Cons.IH [of p' None ds2 "xs @ ds1" "bs @ [map lower_cmdname (rp_argvs p @ ds1)]"] p' ds2 Cons.prems(3,4)
    show ?thesis by (fastforce simp: p'(1))
  next
    case (Pending m b av h)
    have ne: "concat cs \<noteq> []"
    proof
      assume "concat cs = []"
      with whole e Pending show False by (simp only: append_Nil2) simp
    qed
    then have "cs \<noteq> []" by auto
    obtain ds2 where ds2: "read_stream s2l (Some (m, b, av)) (h @ concat cs) = (ds2, Idle)" "ds = ds1 @ ds2"
      using app whole Pending ne by (cases "read_stream s2l (Some (m, b, av)) (h @ concat cs)") auto
    from one Pending obtain p' where p': "ProcessInputBuffer s2l log_settings (xs, bs) p c = Inr ((xs @ ds1, bs), p')"
      "parser_at p' (Some (m, b, av))" "rp_argvs p' = rp_argvs p @ ds1" "rp_half_argv p' = h" "parser_idle p'" by auto
    have "length (h @ concat cs) < 2 ^ 31"
      using Cons.prems(3) read_stream_kept [OF e [unfolded Pending]] by simp
    with Cons.IH [of p' "Some (m, b, av)" ds2 "xs @ ds1" bs] p' ds2 Cons.prems(4) \<open>cs \<noteq> []\<close>
    show ?thesis by (auto simp: p'(1))
  qed (use \<open>e \<noteq> Broken\<close> in simp)
qed

section \<open>A conversion with the documented behaviour\<close>

definition ref_string2l :: string2l where
  "ref_string2l s n =
     (let d = take n s;
          neg = (d \<noteq> [] \<and> hd d = CHR ''-'');
          ds = (if neg then tl d else d);
          v = dec_val ds
      in if ds = [] \<or> \<not> list_all c_isdigit ds \<or> 2 ^ 63 \<le> v then None
         else Some (if neg then - v else v))"

lemma ref_string2l_digits: "s \<noteq> [] \<Longrightarrow> \<forall>c \<in> set s. c_isdigit c \<Longrightarrow> dec_val s < 2 ^ 63 \<Longrightarrow>
    ref_string2l s (length s) = Some (dec_val s)"
  by (cases s) (auto simp: ref_string2l_def Let_def list_all_iff c_isdigit_def)

lemma ref_string2l_junk:
  assumes "i < n" "i < length s" "\<not> c_isdigit (s ! i)" "i = 0 \<longrightarrow> s ! i \<noteq> CHR ''-''"
  shows "ref_string2l s n = None"
proof -
  have mem: "s ! i \<in> set (take n s)"
    using assms(1,2) by (metis in_set_conv_nth length_take min_less_iff_conj nth_take)
  moreover have "s ! i \<in> set (tl (take n s))" if "hd (take n s) = CHR ''-''"
  proof -
    from assms that have "i \<noteq> 0" by (cases s; cases n) auto
    then obtain k where "i = Suc k" by (cases i) auto
    with assms(1,2) have "tl (take n s) ! k = s ! i" "k < length (tl (take n s))" by (auto simp: nth_tl)
    then show ?thesis by (metis nth_mem)
  qed
  ultimately show ?thesis using assms(3) by (auto simp: ref_string2l_def Let_def list_all_iff)
qed

lemma ref_string2l_ok: "string2l_ok ref_string2l"
  unfolding string2l_ok_def
proof (intro conjI allI impI)
  fix n :: nat assume "n < 2 ^ 63"
  then show "ref_string2l (to_string n) (length (to_string n)) = Some (int n)"
    using ref_string2l_digits [of "to_string n"] to_string_digits [of n]
    by (simp add: dec_val_to_string to_string_nonempty)
next
  fix s t :: bytes and n assume "n \<le> length s"
  then show "ref_string2l (s @ t) n = ref_string2l s n" by (simp add: ref_string2l_def)
qed (auto intro: ref_string2l_junk)

section \<open>Properties of the request parser\<close>

definition started :: redis_parser where
  "started = RedisParserInit REDIS_PARSER_REQUEST RedisParser_new"

lemma started_ready: "parser_idle started" "parser_at started None" "rp_half_argv started = []" "rp_argvs started = []"
  by (simp_all add: started_def RedisParserInit_def RedisParser_new_def SetParserStatus_def parser_idle_def)

text \<open>C1: The parser decodes what the client's formatter encodes, however the network cuts the bytes
  into reads: for non-empty commands, any division of their encodings into non-empty reads makes
  a freshly initialised parser hand exactly these commands, in order, to DealMessage, pass them
  (command names in lower case) in order in the batches of Complete, and end ready for the next
  command.\<close>

theorem parser_decodes_any_chunking:
  assumes "string2l_ok s2l" "\<forall>c \<in> set cmds. small_command c"
    and "concat reads = concat (map (snd \<circ> redisFormatCommandArgv) cmds)" "[] \<notin> set reads" "length (concat reads) < 2 ^ 31"
  shows "\<exists>batches p'. feed s2l log_settings ([], []) started reads = Inr ((cmds, batches), p')
     \<and> concat batches = map lower_cmdname cmds
     \<and> rp_status_code p' \<in> {kRedisParserInitDone, kRedisParserHalf, kRedisParserDone}
     \<and> rp_redis_type p' = 0 \<and> rp_half_argv p' = []"
proof -
  have "snd \<circ> redisFormatCommandArgv = format_command" by (simp add: fun_eq_iff redisFormatCommandArgv_def)
  with assms(3) have "concat reads = concat (map format_command cmds)" by simp
  with read_stream_format [OF assms(1,2)] feed_refines [OF assms(1) started_ready(1,2), of reads cmds "[]" "[]"]
    assms(4,5) started_ready(3,4)
  show ?thesis by (fastforce simp: parser_idle_def)
qed

theorem parser_decodes_any_chunking_witness:
  "\<exists>batches p'. feed ref_string2l log_settings ([], []) started [''*2'', CRLF @ ''$3'' @ CRLF @ ''GE'', ''T'' @ CRLF @ ''$1'' @ CRLF @ ''k'' @ CRLF]
       = Inr (([[''GET'', ''k'']], batches), p')
     \<and> concat batches = map lower_cmdname [[''GET'', ''k'']]
     \<and> rp_status_code p' \<in> {kRedisParserInitDone, kRedisParserHalf, kRedisParserDone}
     \<and> rp_redis_type p' = 0 \<and> rp_half_argv p' = []"
  by (rule parser_decodes_any_chunking [OF ref_string2l_ok])
     (simp add: small_command_def, code_simp, simp_all)

text \<open>C2: The parser refines the abstract reader under every division of the input into reads: whenever the
  reader splits the whole input into the commands ds without an open end, the parser deals ds in order,
  reports every command exactly once in a completed batch, and stops at a command boundary.\<close>

theorem parser_refines_reader:
  assumes "string2l_ok s2l" "[] \<notin> set reads" "length (concat reads) < 2 ^ 31"
    and "read_stream s2l None (concat reads) = (ds, Idle)"
  shows "\<exists>batches p'. feed s2l log_settings ([], []) started reads = Inr ((ds, batches), p')
     \<and> concat batches = map lower_cmdname ds \<and> parser_idle p' \<and> parser_at p' None"
  using feed_refines [OF assms(1) started_ready(1,2), of reads ds "[]" "[]"] assms(2-) started_ready(3,4) by simp

theorem parser_refines_reader_witness:
  "\<exists>batches p'. feed ref_string2l log_settings ([], []) started [''*1'' @ CRLF @ ''$04'' @ CRLF, ''PI'', ''NG'' @ CRLF]
       = Inr (([[''PING'']], batches), p')
     \<and> concat batches = map lower_cmdname [[''PING'']] \<and> parser_idle p' \<and> parser_at p' None"
  by (rule parser_refines_reader [OF ref_string2l_ok]) (simp, simp, code_simp)

section \<open>Inline commands\<close>

text \<open>The double-quoted form of an argument, and a line of them.\<close>

definition quote_char :: "char \<Rightarrow> bytes" where
  "quote_char c = (if c = CHR 0x5C \<or> c = CHR 0x22 then [CHR 0x5C, c] else [c])"

definition quote_arg :: "bytes \<Rightarrow> bytes" where
  "quote_arg a = CHR 0x22 # concat (map quote_char a) @ [CHR 0x22]"

fun quote_args :: "args \<Rightarrow> bytes" where
  "quote_args [] = []"
| "quote_args [a] = quote_arg a"
| "quote_args (a # as) = quote_arg a @ CHR '' '' # quote_args as"

lemma get_token_quoted:
  "r = [] \<or> c_isspace (hd r) \<Longrightarrow>
   get_token InQuotes arg (concat (map quote_char a) @ CHR 0x22 # r) = Some (arg @ a, r)"
proof (induction a arbitrary: arg)
  case Nil
  then show ?case by (subst get_token.simps) auto
next
  case (Cons c a)
  then show ?case
    by (subst get_token.simps) (auto simp: quote_char_def [of c] escape_char_def)
qed

lemma split2args_quoted_one:
  assumes "r = [] \<or> c_isspace (hd r)"
  shows "split2args (quote_arg a @ r) argv = split2args r (argv @ [a])"
proof -
  have "get_token NoQuote [] (quote_arg a @ r) = Some (a, r)"
    using get_token_quoted [OF assms, of "[]" a] by (subst get_token.simps) (simp add: quote_arg_def)
  moreover have "dropWhile c_isspace (quote_arg a @ r) = quote_arg a @ r" "quote_arg a \<noteq> []"
    by (simp_all add: quote_arg_def c_isspace_def)
  ultimately show ?thesis by (subst split2args.simps) (simp add: Let_def)
qed

lemma split2args_skip: "c_isspace c \<Longrightarrow> split2args (c # r) argv = split2args r argv"
  by (subst (1 2) split2args.simps) simp

lemma split2args_spaces: "\<forall>c \<in> set w. c_isspace c \<Longrightarrow> split2args w argv = (0, argv)"
  by (subst split2args.simps) simp

lemma split2args_quote_args:
  "\<forall>c \<in> set w. c_isspace c \<Longrightarrow> split2args (quote_args as @ w) argv = (0, argv @ as)"
proof (induction "as" arbitrary: argv rule: quote_args.induct)
  case 1
  then show ?case by (simp add: split2args_spaces)
next
  case (2 a)
  then have "w = [] \<or> c_isspace (hd w)" by (cases w) auto
  with 2 show ?case by (simp add: split2args_quoted_one split2args_spaces)
next
  case (3 a b "as")
  then show ?case by (simp add: split2args_quoted_one split2args_skip c_isspace_def)
qed

lemma quote_args_set: "set (quote_args as) \<subseteq> {CHR 0x22, CHR 0x5C, CHR '' ''} \<union> (\<Union>a \<in> set as. set a)"
  by (induction "as" rule: quote_args.induct) (auto simp: quote_arg_def quote_char_def split: if_splits)

lemma quote_args_start: "as \<noteq> [] \<Longrightarrow> \<exists>r. quote_args as = CHR 0x22 # r"
  by (cases "as" rule: quote_args.cases) (auto simp: quote_arg_def)

lemma ProcessInlineBuffer_line:
  assumes "rp_input_buf p = line @ CRLF" "rp_cur_pos p = 0" "rp_length p = int (length line + 2)"
    and "LF \<notin> set line" "NUL \<notin> set line" "split2args (line @ CRLF) [] = (0, as)"
  shows "ProcessInlineBuffer p = Inr (p\<lparr>rp_argv := as, rp_cur_pos := rp_length p,
    rp_status_code := kRedisParserDone, rp_error_code := kRedisParserOk\<rparr>)"
proof -
  have find: "find_pos (\<lambda>c. c = LF) (line @ CRLF) = Some (length line + 1)"
    using find_pos_skip [of "line @ [CR]" "\<lambda>c. c = LF" LF "[]"] assms(4) by auto
  have cstr: "cstr (line @ CRLF) = line @ CRLF"
    using assms(5) by (auto simp: cstr_def intro!: takeWhile_eq_all_conv [THEN iffD2])
  have ok: "rp_ok p" "unread p = line @ CRLF" using assms(1-3) by (auto simp: rp_ok_def unread_def)
  show ?thesis
    using assms(1-3,6) FindNextSeparators_unread [OF ok(1)] ok(2) find cstr
    by (simp add: ProcessInlineBuffer_def SetParserStatus_def Let_def)
qed

text \<open>C5: The quoted form of inline commands is read back exactly: one read holding a line of double-quoted
  arguments (quotes and backslashes escaped, no line feed and no NUL inside) makes the parser deal
  these arguments as one command.\<close>

theorem inline_quoted_roundtrip:
  assumes "as \<noteq> []" "\<forall>a \<in> set as. LF \<notin> set a \<and> NUL \<notin> set a" "length (quote_args as) + 2 < 2 ^ 31"
  shows "\<exists>p'. ProcessInputBuffer s2l log_settings (xs, bs) started (quote_args as @ CRLF) =
      Inr ((xs @ [as], bs @ [[lower_cmdname as]]), p') \<and> rp_status_code p' = kRedisParserDone"
proof -
  let ?line = "quote_args as"
  let ?p = "started\<lparr>rp_input_buf := ?line @ CRLF, rp_length := int (length ?line + 2)\<rparr>"
  let ?q = "?p\<lparr>rp_redis_type := REDIS_REQ_INLINE\<rparr>"
  obtain r where r: "?line = CHR 0x22 # r" using quote_args_start [OF assms(1)] ..
  have "split2args (?line @ CRLF) [] = (0, as)"
    using split2args_quote_args [of CRLF "as" "[]"] by (simp add: c_isspace_def)
  moreover have "LF \<notin> set ?line" "NUL \<notin> set ?line"
    using quote_args_set [of "as"] assms(2) by auto
  ultimately have inline: "ProcessInlineBuffer ?q = Inr (?q\<lparr>rp_argv := as, rp_cur_pos := rp_length ?q,
      rp_status_code := kRedisParserDone, rp_error_code := kRedisParserOk\<rparr>)"
    using started_ready(1) by (intro ProcessInlineBuffer_line) (auto simp: parser_idle_def)
  have go: "rp_cur_pos ?p \<le> rp_length ?p - 1" and kind: "choose_type ?p = ?q"
    using started_ready(1,2) r by (simp_all add: parser_idle_def choose_type_def)
  have parsed: "parse_request s2l ?p = Inr (kRedisParserDone, ?q\<lparr>rp_argv := as, rp_cur_pos := rp_length ?q,
      rp_status_code := kRedisParserDone, rp_error_code := kRedisParserOk\<rparr>)"
    unfolding parse_request_def kind Let_def using inline by simp
  have "ProcessInputBuffer s2l log_settings (xs, bs) started (?line @ CRLF) =
      map_sum id (map_prod id ResetRedisParser) (ProcessRequestBuffer s2l log_settings (xs, bs) ?p)"
    using assms(3) started_ready by (auto simp: ProcessInputBuffer_def parser_idle_def Let_def c_int)
  moreover have "\<exists>p'. ProcessRequestBuffer s2l log_settings (xs, bs) ?p =
      Inr ((xs @ [as], bs @ [[lower_cmdname as]]), p') \<and> rp_status_code p' = kRedisParserDone"
    using ProcessRequestBuffer_command [OF go parsed, of "\<lambda>(ds, bs) a. (ds @ [a], bs)" "\<lambda>(ds, bs) b. (ds, bs @ [b])" "(xs, bs)"]
      assms(1) started_ready(4)
    by (simp add: ProcessRequestBuffer_end log_settings_def)
  ultimately show ?thesis by (auto simp: ResetRedisParser_def)
qed

theorem inline_quoted_roundtrip_witness:
  "\<exists>p'. ProcessInputBuffer ref_string2l log_settings ([], []) started (quote_args [''SET'', ''a b''] @ CRLF) =
      Inr (([] @ [[''SET'', ''a b'']], [] @ [[lower_cmdname [''SET'', ''a b'']]]), p') \<and> rp_status_code p' = kRedisParserDone"
  by (rule inline_quoted_roundtrip) (simp_all add: quote_arg_def quote_char_def)

text \<open>
  Inline commands that arrive together are mixed up: the splitter is given the rest of the buffer instead of the line, so
  the first command swallows the arguments of all the lines after it, and these lines are executed again.
\<close>

lemma inline_lines_merged:
  "map_sum id fst (ProcessInputBuffer ref_string2l log_settings ([], []) started (''DEL A'' @ CRLF @ ''GET B'' @ CRLF)) =
     Inr ([[''DEL'', ''A'', ''GET'', ''B''], [''GET'', ''B'']], [[[''del'', ''A'', ''GET'', ''B''], [''get'', ''B'']]])"
  by code_simp

end
