(* ===== verification/RedisConn.thy ===== *)
theory RedisConn
  imports PinkConn RedisStream "HOL-Library.Signed_Division"
begin

text \<open>
  The redis server connection, \<^verbatim>\<open>include/redis_conn.h\<close> and \<^verbatim>\<open>src/redis_conn.cc\<close> (the build with
  \<^verbatim>\<open>writev\<close>, the default).

  The application is the pair of virtual functions \<^verbatim>\<open>DealMessage\<close> and \<^verbatim>\<open>ProcessRedisCmds\<close> on its own
  state; each answers the replies it passes to \<^verbatim>\<open>WriteResp\<close>.  Of the read buffer only its size is
  kept: its bytes are handed to the parser as soon as they are read.  \<^verbatim>\<open>terark::easy_writev\<close> is
  third-party code and a parameter.

  The lemmas show that a read never goes beyond the buffer, that the buffer stays within its
  maximum, that the connection delivers a pipelined stream to the application whatever the reads
  are, and that replies leave in order and completely.
\<close>

datatype HandleType = kSynchronous | kAsynchronous

record 'u redis_conn = pink_conn +
  rc_user :: 'u
  rc_handle_type :: HandleType
  rc_rbuf_null :: bool
  rc_rbuf_len :: int
  rc_rbuf_max_len :: int
  rc_msg_peak :: int
  rc_command_len :: int
  rc_num_retry :: int
  rc_iov_idx :: int
  rc_response :: "bytes list"
  rc_iov :: "bytes list"
  rc_last_read_pos :: int
  rc_redis_parser :: redis_parser
  rc_bulk_len :: int

record 'u redis_app =
  app_DealMessage :: "args \<Rightarrow> 'u \<Rightarrow> int \<times> 'u \<times> bytes list"
  app_ProcessRedisCmds :: "args list \<Rightarrow> bool \<Rightarrow> 'u \<Rightarrow> 'u \<times> bytes list"

definition RedisConn_new :: "fd \<Rightarrow> bytes \<Rightarrow> timeval \<Rightarrow> HandleType \<Rightarrow> int \<Rightarrow> 'u \<Rightarrow> 'u redis_conn" where
  "RedisConn_new fd ip_port now handle_type rbuf_max_len u =
     pink_conn.extend (PinkConn_new fd ip_port now)
       (redis_conn.fields u handle_type True 0 rbuf_max_len 0 0 0 (-1) [] [] (-1)
          (RedisParserInit REDIS_PARSER_REQUEST RedisParser_new) (-1))"

section \<open>Replies and callbacks\<close>

definition WriteResp :: "bytes \<Rightarrow> 'u redis_conn \<Rightarrow> 'u redis_conn" where
  "WriteResp resp c = base_set_is_reply True (c\<lparr>rc_response := rc_response c @ [resp]\<rparr>)"

definition SetHandleType :: "HandleType \<Rightarrow> 'u redis_conn \<Rightarrow> 'u redis_conn" where
  "SetHandleType h c = c\<lparr>rc_handle_type := h\<rparr>"

definition ParserDealMessageCb :: "'u redis_app \<Rightarrow> 'u redis_conn \<Rightarrow> args \<Rightarrow> int \<times> 'u redis_conn" where
  "ParserDealMessageCb app c argv =
     (if rc_handle_type c = kSynchronous then
        let (ret, u, resps) = app_DealMessage app argv (rc_user c)
        in (ret, fold WriteResp resps (c\<lparr>rc_user := u\<rparr>))
      else (0, c))"

definition ParserCompleteCb :: "'u redis_app \<Rightarrow> 'u redis_conn \<Rightarrow> args list \<Rightarrow> int \<times> 'u redis_conn" where
  "ParserCompleteCb app c argvs =
     (let async = (rc_handle_type c = kAsynchronous);
          (u, resps) = app_ProcessRedisCmds app argvs async (rc_user c)
      in (0, fold WriteResp resps (c\<lparr>rc_user := u\<rparr>)))"

definition conn_settings :: "'u redis_app \<Rightarrow> 'u redis_conn RedisParserSettings" where
  "conn_settings app = \<lparr>DealMessage = Some (ParserDealMessageCb app), Complete = Some (ParserCompleteCb app)\<rparr>"

definition ParseRedisParserStatus :: "RedisParserStatus \<Rightarrow> RedisParserError \<Rightarrow> ReadStatus" where
  "ParseRedisParserStatus status error_code =
     (case status of
        kRedisParserInitDone \<Rightarrow> kOk
      | kRedisParserHalf \<Rightarrow> kReadHalf
      | kRedisParserDone \<Rightarrow> kReadAll
      | kRedisParserError \<Rightarrow>
          (case error_code of
             kRedisParserOk \<Rightarrow> kReadError
           | kRedisParserInitError \<Rightarrow> kReadError
           | kRedisParserFullError \<Rightarrow> kFullError
           | kRedisParserProtoError \<Rightarrow> kParseError
           | kRedisParserDealError \<Rightarrow> kDealError
           | _ \<Rightarrow> kReadError)
      | _ \<Rightarrow> kReadError)"

section \<open>Reading requests\<close>

text \<open>
  The size the buffer should get and the number of bytes to read; the parser's \<^verbatim>\<open>long\<close> bulk length
  is stored to an \<^verbatim>\<open>int\<close>.
\<close>

definition plan_read :: "'u redis_conn \<Rightarrow> int \<times> int" where
  "plan_read c =
     (let next_read_pos = rc_last_read_pos c + 1;
          remain = rc_rbuf_len c - next_read_pos
      in if remain = 0 then (to_int32 (rc_rbuf_len c + REDIS_IOBUF_LEN), remain + REDIS_IOBUF_LEN)
         else if remain < rc_bulk_len c then (to_int32 (next_read_pos + rc_bulk_len c), to_int32 (rc_bulk_len c))
         else (0, remain))"

text \<open>Growing the buffer; \<open>False\<close> is the return of \<^verbatim>\<open>kFullError\<close>.\<close>

definition grow_rbuf :: "bool \<Rightarrow> int \<Rightarrow> 'u redis_conn \<Rightarrow> bool \<times> 'u redis_conn" where
  "grow_rbuf realloc_ok new_size c =
     (if rc_rbuf_len c < new_size then
        if rc_rbuf_max_len c < new_size then (False, c)
        else
          let new_size = min (rc_rbuf_max_len c) (max (to_int32 (rc_rbuf_len c * 3) sdiv 2) new_size)
          in if realloc_ok then (True, c\<lparr>rc_rbuf_null := False, rc_rbuf_len := new_size\<rparr>)
             else (False, c\<lparr>rc_rbuf_null := True\<rparr>)
      else (True, c))"

text \<open>\<^verbatim>\<open>read\<close> with a count above \<^verbatim>\<open>SSIZE_MAX\<close>, here a negative \<^verbatim>\<open>int\<close>, fails.\<close>

definition read_count :: "int \<Rightarrow> read_answer list \<Rightarrow> read_result" where
  "read_count remain as = (if remain < 0 then Rerror EOTHER else fst (sys_read (nat remain) as))"

text \<open>The part of \<^verbatim>\<open>GetRequest\<close> after the bytes \<open>s\<close> were read.\<close>

definition finish_read :: "redis_parser \<Rightarrow> 'u redis_conn \<Rightarrow> ReadStatus \<times> 'u redis_conn" where
  "finish_read p c1 =
     (let c2 = c1\<lparr>rc_redis_parser := p\<rparr>;
          read_status = ParseRedisParserStatus (rp_status_code p) (rp_error_code p);
          c3 = (if read_status = kReadAll \<or> read_status = kReadHalf
                then (if read_status = kReadAll then c2\<lparr>rc_command_len := 0\<rparr> else c2)
                       \<lparr>rc_last_read_pos := -1, rc_bulk_len := rp_bulk_len p\<rparr>
                else c2);
          c4 = (if rc_response c3 \<noteq> [] then base_set_is_reply True c3 else c3)
      in (read_status, c4))"

definition parse_read :: "string2l \<Rightarrow> 'u redis_app \<Rightarrow> bytes \<Rightarrow> 'u redis_conn \<Rightarrow> (ReadStatus \<times> 'u redis_conn) option" where
  "parse_read s2l app s c =
     (case ProcessInputBuffer s2l (conn_settings app) c (rc_redis_parser c) s of
        Inl e \<Rightarrow> None
      | Inr (c1, p) \<Rightarrow> Some (finish_read p c1))"

definition RedisConn_GetRequest ::
  "string2l \<Rightarrow> 'u redis_app \<Rightarrow> io \<Rightarrow> 'u redis_conn \<Rightarrow> (ReadStatus \<times> 'u redis_conn) option" where
  "RedisConn_GetRequest s2l app i c =
     (let (new_size, remain) = plan_read c; (ok, c1) = grow_rbuf (io_realloc i) new_size c in
      if \<not> ok then Some (kFullError, c1)
      else (case read_count remain (io_reads i) of
          Rerror e \<Rightarrow> Some (if e = EAGAIN then kReadHalf else kReadError, c1)
        | Nread s \<Rightarrow>
            if s = [] then Some (kReadClose, c1)
            else
              let c2 = c1\<lparr>rc_last_read_pos := to_int32 (rc_last_read_pos c1 + int (length s)),
                          rc_msg_peak := to_int32 (rc_last_read_pos c1 + int (length s)),
                          rc_command_len := to_int32 (rc_command_len c1 + int (length s))\<rparr>
              in if rc_rbuf_max_len c2 \<le> rc_command_len c2 then Some (kFullError, c2)
                 else parse_read s2l app s c2))"

definition TryResizeBuffer :: "io \<Rightarrow> 'u redis_conn \<Rightarrow> 'u redis_conn" where
  "TryResizeBuffer i c =
     (let idletime = io_now i - fst (pc_last_interaction c) in
      if REDIS_MBULK_BIG_ARG < rc_rbuf_len c \<and>
         (2 < rc_rbuf_len c sdiv (rc_msg_peak c + 1) \<or> 2 < idletime) then
        let new_size = ((rc_last_read_pos c + REDIS_IOBUF_LEN) sdiv REDIS_IOBUF_LEN) * REDIS_IOBUF_LEN;
            c1 = (if new_size < rc_rbuf_len c then c\<lparr>rc_rbuf_len := new_size\<rparr> else c)
        in c1\<lparr>rc_msg_peak := 0\<rparr>
      else c)"

section \<open>Sending replies\<close>

text \<open>
  \<^verbatim>\<open>terark::easy_writev(fd, iov, num, &iov_idx)\<close> as a function of the vector, the index and the state
  of the socket; an entry of the vector is the part of a reply that is still to be sent.
\<close>

type_synonym 's writev = "bytes list \<Rightarrow> int \<Rightarrow> 's \<Rightarrow> write_result \<times> bytes list \<times> int \<times> 's"

definition progressed :: "write_result \<Rightarrow> bool" where
  "progressed r = (case r of Nwritten k \<Rightarrow> 0 < k | Werror _ \<Rightarrow> False)"

text \<open>The \<^verbatim>\<open>do ... while (nwritten > 0)\<close> loop; \<open>True\<close> if it returned because the last entry is sent.\<close>

partial_function (option) writev_loop ::
  "'s writev \<Rightarrow> bytes list \<Rightarrow> int \<Rightarrow> 's \<Rightarrow> (bool \<times> write_result \<times> bytes list \<times> int \<times> 's) option" where
  "writev_loop wv iov idx s =
     (case wv iov idx s of
        (r, iov', idx', s') \<Rightarrow>
          if last iov' = [] then Some (True, r, iov', idx', s')
          else if progressed r then writev_loop wv iov' idx' s'
          else Some (False, r, iov', idx', s'))"

text \<open>What follows the loop when not everything was sent.\<close>

definition after_write :: "write_result \<Rightarrow> 'u redis_conn \<Rightarrow> WriteStatus \<times> 'u redis_conn" where
  "after_write r c =
     (case r of
        Nwritten k \<Rightarrow> (kWriteHalf, c)
      | Werror e \<Rightarrow>
          if e = EAGAIN then (kWriteHalf, c\<lparr>rc_num_retry := 0\<rparr>)
          else if e = EDEADLK then
            (if rc_num_retry c < 5 then (kWriteHalf, c\<lparr>rc_num_retry := rc_num_retry c + 1\<rparr>)
             else (kWriteError, c\<lparr>rc_num_retry := 0\<rparr>))
          else (kWriteError, c\<lparr>rc_num_retry := 0\<rparr>))"

definition RedisConn_SendReply :: "'s writev \<Rightarrow> 's \<Rightarrow> 'u redis_conn \<Rightarrow> (WriteStatus \<times> 'u redis_conn \<times> 's) option" where
  "RedisConn_SendReply wv s c =
     (if rc_response c = [] then Some (kWriteAll, c, s)
      else
        let parts = filter (\<lambda>r. r \<noteq> []) (rc_response c) in
        if rc_iov_idx c < 0 \<and> parts = [] then Some (kWriteAll, c, s)
        else
          let (iov, idx) = (if rc_iov_idx c < 0 then (parts, 0) else (rc_iov c, rc_iov_idx c))
          in (case writev_loop wv iov idx s of
                None \<Rightarrow> None
              | Some (True, r, iov', idx', s') \<Rightarrow>
                  Some (kWriteAll, c\<lparr>rc_response := [], rc_iov := [], rc_iov_idx := -1\<rparr>, s')
              | Some (False, r, iov', idx', s') \<Rightarrow>
                  let (st, c') = after_write r (c\<lparr>rc_iov := iov', rc_iov_idx := idx'\<rparr>) in Some (st, c', s')))"

definition NotifyEpoll :: "bool \<Rightarrow> 'u redis_conn \<Rightarrow> pink_epoll \<Rightarrow> pink_epoll option" where
  "NotifyEpoll success c e =
     (case PinkItem_new (pc_fd c) (pc_ip_port c) (if success then kNotiEpolloutAndEpollin else kNotiClose) of
        None \<Rightarrow> None
      | Some ti \<Rightarrow> Some (snd (Register (ti\<lparr>it_conn := Some (pc_fd c)\<rparr>) True e)))"

definition redis_ops ::
  "string2l \<Rightarrow> 'u redis_app \<Rightarrow> write_answer list writev \<Rightarrow> ('u, unit) redis_conn_ext conn_ops" where
  "redis_ops s2l app wv =
     \<lparr>co_GetRequest = RedisConn_GetRequest s2l app,
      co_SendReply = (\<lambda>i c. map_option (\<lambda>(st, c', _). (st, c')) (RedisConn_SendReply wv (io_writes i) c)),
      co_WriteResp = WriteResp,
      co_TryResizeBuffer = TryResizeBuffer,
      co_set_is_reply = base_set_is_reply,
      co_is_reply = pc_is_reply\<rparr>"

section \<open>Documented behaviour of easy\_writev\<close>

text \<open>The vector after \<open>k\<close> bytes of it were sent.\<close>

fun advance :: "nat \<Rightarrow> bytes list \<Rightarrow> bytes list" where
  "advance k [] = []"
| "advance k (b # bs) = (if k \<le> length b then drop k b # bs else [] # advance (k - length b) bs)"

text \<open>
  It sends the bytes of the vector from the front, as many as it answers, advances the vector by
  them and keeps the index in the vector; an error sends nothing.
\<close>

definition writev_ok :: "('s \<Rightarrow> bytes) \<Rightarrow> 's writev \<Rightarrow> bool" where
  "writev_ok wire wv \<longleftrightarrow>
     (\<forall>iov idx s. case wv iov idx s of
        (Nwritten k, iov', idx', s') \<Rightarrow>
          k \<le> length (concat iov) \<and> iov' = advance k iov \<and> 0 \<le> idx' \<and> wire s' = wire s @ take k (concat iov)
      | (Werror e, iov', idx', s') \<Rightarrow> iov' = iov \<and> (0 \<le> idx \<longrightarrow> 0 \<le> idx') \<and> wire s' = wire s)"

definition ref_writev :: "(write_answer list \<times> bytes) writev" where
  "ref_writev iov idx s =
     (case sys_write (concat iov) (fst s) of
        (Nwritten k, as) \<Rightarrow> (Nwritten k, advance k iov, max 0 idx, (as, snd s @ take k (concat iov)))
      | (Werror e, as) \<Rightarrow> (Werror e, iov, idx, (as, snd s)))"

lemma concat_advance: "k \<le> length (concat iov) \<Longrightarrow> concat (advance k iov) = drop k (concat iov)"
  by (induction k iov rule: advance.induct) auto

lemma length_advance [simp]: "length (advance k iov) = length iov"
  by (induction k iov rule: advance.induct) auto

lemma advance_Nil_iff [simp]: "advance k iov = [] \<longleftrightarrow> iov = []"
  by (cases iov) auto

lemma last_advance:
  "iov \<noteq> [] \<Longrightarrow> last iov \<noteq> [] \<Longrightarrow> k \<le> length (concat iov) \<Longrightarrow> last (advance k iov) = [] \<Longrightarrow> concat (advance k iov) = []"
  by (induction k iov rule: advance.induct) (auto split: if_splits)

lemma ref_writev_ok: "writev_ok snd ref_writev"
  by (auto simp: writev_ok_def ref_writev_def dest: sys_write_length split: prod.splits write_result.splits)

text \<open>
  The loop returns, and what it sent followed by what it left is what there was to send.
\<close>

lemma writev_loop_returns:
  assumes "writev_ok wire wv" "iov \<noteq> []" "last iov \<noteq> []" "0 \<le> idx"
  shows "\<exists>all r iov' idx' s'. writev_loop wv iov idx s = Some (all, r, iov', idx', s')
    \<and> wire s' @ concat iov' = wire s @ concat iov \<and> 0 \<le> idx'
    \<and> (if all then concat iov' = [] else iov' \<noteq> [] \<and> last iov' \<noteq> [])"
  using assms(2-)
proof (induction "length (concat iov)" arbitrary: iov idx s rule: less_induct)
  case less
  obtain r iov1 idx1 s1 where wv: "wv iov idx s = (r, iov1, idx1, s1)" by (cases "wv iov idx s")
  note loop = writev_loop.simps [of wv iov idx s]
  note law = assms(1) [unfolded writev_ok_def, THEN spec [of _ iov], THEN spec [of _ idx], THEN spec [of _ s], unfolded wv]
  show ?case
  proof (cases r)
    case (Werror e)
    with law less.prems show ?thesis by (auto simp: loop wv progressed_def)
  next
    case (Nwritten k)
    with law have k: "k \<le> length (concat iov)" "iov1 = advance k iov" "0 \<le> idx1"
      "wire s1 = wire s @ take k (concat iov)" by simp_all
    then have sent: "wire s1 @ concat iov1 = wire s @ concat iov" by (simp add: concat_advance)
    have ne: "iov1 \<noteq> []" using k(2) less.prems(1) by simp
    consider (finished) "last iov1 = []" | (stuck) "last iov1 \<noteq> []" "k = 0" | (again) "last iov1 \<noteq> []" "0 < k" by blast
    then show ?thesis
    proof cases
      case finished
      with last_advance [OF less.prems(1,2) k(1)] k(2,3) sent show ?thesis by (auto simp: loop wv)
    next
      case stuck
      with Nwritten k(3) sent ne show ?thesis by (auto simp: loop wv progressed_def)
    next
      case again
      then have "length (concat iov1) < length (concat iov)" using k(1,2) concat_advance [OF k(1)] by simp
      from less.hyps [OF this ne again(1) k(3), of s1] show ?thesis
        using again Nwritten sent by (simp add: loop wv progressed_def)
    qed
  qed
qed

definition pending :: "'u redis_conn \<Rightarrow> bytes" where
  "pending c = (if rc_iov_idx c < 0 then concat (rc_response c) else concat (rc_iov c))"

definition iov_ok :: "'u redis_conn \<Rightarrow> bool" where
  "iov_ok c \<longleftrightarrow> rc_iov_idx c < 0 \<or> rc_response c \<noteq> [] \<and> rc_iov c \<noteq> [] \<and> last (rc_iov c) \<noteq> []"

lemma after_write_simps:
  "after_write r c = (st, c') \<Longrightarrow> st \<noteq> kWriteAll \<and> rc_iov c' = rc_iov c \<and> rc_iov_idx c' = rc_iov_idx c
     \<and> rc_response c' = rc_response c \<and> same_conn c c'"
  by (auto simp: after_write_def same_conn_def split: write_result.splits if_splits)

lemma concat_filter_nonempty: "concat (filter (\<lambda>r. r \<noteq> []) rs) = concat rs"
  by (induction rs) auto

lemma redis_SendReply_sends:
  assumes "writev_ok wire wv" "iov_ok c"
  shows "\<exists>st c' s'. RedisConn_SendReply wv s c = Some (st, c', s')
     \<and> wire s' @ pending c' = wire s @ pending c \<and> iov_ok c' \<and> (st = kWriteAll \<longrightarrow> pending c' = [])"
proof -
  let ?parts = "filter (\<lambda>r. r \<noteq> []) (rc_response c)"
  consider (idle) "rc_response c = [] \<or> rc_iov_idx c < 0 \<and> ?parts = []"
    | (some) "rc_response c \<noteq> []" "rc_iov_idx c < 0 \<longrightarrow> ?parts \<noteq> []" by blast
  then show ?thesis
  proof cases
    case idle
    then have "pending c = []"
      using assms(2) concat_filter_nonempty [of "rc_response c"] by (auto simp: pending_def iov_ok_def)
    moreover have "RedisConn_SendReply wv s c = Some (kWriteAll, c, s)"
      using idle by (elim disjE conjE) (simp_all add: RedisConn_SendReply_def Let_def)
    ultimately show ?thesis using assms(2) by auto
  next
    case some
    define iov where "iov = (if rc_iov_idx c < 0 then ?parts else rc_iov c)"
    define idx where "idx = (if rc_iov_idx c < 0 then 0 else rc_iov_idx c)"
    have "iov \<noteq> []" "last iov \<noteq> []" "0 \<le> idx"
      using some assms(2) last_in_set [of ?parts] by (auto simp: iov_def idx_def iov_ok_def)
    from writev_loop_returns [OF assms(1) this, of s] obtain all r iov' idx' s' where
      loop: "writev_loop wv iov idx s = Some (all, r, iov', idx', s')" "0 \<le> idx'"
        "wire s' @ concat iov' = wire s @ concat iov" "if all then concat iov' = [] else iov' \<noteq> [] \<and> last iov' \<noteq> []"
      by blast
    have "concat iov = pending c"
      by (simp add: iov_def pending_def concat_filter_nonempty)
    moreover have "RedisConn_SendReply wv s c =
        (if all then Some (kWriteAll, c\<lparr>rc_response := [], rc_iov := [], rc_iov_idx := -1\<rparr>, s')
         else let (st, c') = after_write r (c\<lparr>rc_iov := iov', rc_iov_idx := idx'\<rparr>) in Some (st, c', s'))"
      using some loop(1) by (auto simp: RedisConn_SendReply_def iov_def idx_def Let_def)
    ultimately show ?thesis
      using loop(2-) some(1)
      by (cases "after_write r (c\<lparr>rc_iov := iov', rc_iov_idx := idx'\<rparr>)")
         (auto simp: pending_def iov_ok_def dest!: after_write_simps)
  qed
qed



section \<open>The read buffer\<close>

text \<open>A connection that is ready to read: nothing of the buffer is in use.\<close>

definition rbuf_ok :: "'u redis_conn \<Rightarrow> bool" where
  "rbuf_ok c \<longleftrightarrow> rc_last_read_pos c = -1 \<and> 0 \<le> rc_rbuf_len c \<and> rc_rbuf_len c < 2 ^ 31 \<and> rc_rbuf_max_len c < 2 ^ 31"

lemma grow_rbuf_kept:
  "grow_rbuf ok n c = (b, c') \<Longrightarrow> \<exists>nl len. c' = c\<lparr>rc_rbuf_null := nl, rc_rbuf_len := len\<rparr>"
  by (cases c) (auto simp: grow_rbuf_def Let_def split: if_splits)

lemma plan_and_grow:
  assumes "rbuf_ok c" "plan_read c = (n, remain)" "grow_rbuf ok n c = (True, c1)"
  shows "remain \<le> rc_rbuf_len c1" "rc_rbuf_len c1 \<le> max (rc_rbuf_len c) (rc_rbuf_max_len c)"
    "0 \<le> rc_rbuf_len c1" "rc_rbuf_len c \<le> rc_rbuf_len c1"
  using assms
  by (auto simp: rbuf_ok_def plan_read_def grow_rbuf_def REDIS_IOBUF_LEN_def to_int32_id Let_def split: if_splits)

text \<open>C9: A read never writes outside the connection's buffer: whatever bulk length a peer has announced, the
  number of bytes GetRequest asks for, at its read position, ends inside the buffer it has allocated, and
  the buffer never grows beyond the configured maximum.\<close>

theorem GetRequest_read_in_bounds:
  assumes "rbuf_ok c" "plan_read c = (new_size, remain)" "grow_rbuf realloc_ok new_size c = (True, c1)"
  shows "rc_last_read_pos c1 + 1 + remain \<le> rc_rbuf_len c1
     \<and> rc_rbuf_len c1 \<le> max (rc_rbuf_len c) (rc_rbuf_max_len c)"
  using plan_and_grow [OF assms] grow_rbuf_kept [OF assms(3)] assms(1) by (auto simp: rbuf_ok_def)

theorem GetRequest_read_in_bounds_witness:
  "rc_last_read_pos ((RedisConn_new 7 ''p'' (0, 0) kSynchronous 65536 ())\<lparr>rc_bulk_len := 2 ^ 32 + 5, rc_rbuf_len := 16384, rc_rbuf_null := False\<rparr>) + 1 + 5
     \<le> rc_rbuf_len ((RedisConn_new 7 ''p'' (0, 0) kSynchronous 65536 ())\<lparr>rc_bulk_len := 2 ^ 32 + 5, rc_rbuf_len := 16384, rc_rbuf_null := False\<rparr>)
   \<and> rc_rbuf_len ((RedisConn_new 7 ''p'' (0, 0) kSynchronous 65536 ())\<lparr>rc_bulk_len := 2 ^ 32 + 5, rc_rbuf_len := 16384, rc_rbuf_null := False\<rparr>)
     \<le> max (rc_rbuf_len ((RedisConn_new 7 ''p'' (0, 0) kSynchronous 65536 ())\<lparr>rc_bulk_len := 2 ^ 32 + 5, rc_rbuf_len := 16384, rc_rbuf_null := False\<rparr>))
           (rc_rbuf_max_len ((RedisConn_new 7 ''p'' (0, 0) kSynchronous 65536 ())\<lparr>rc_bulk_len := 2 ^ 32 + 5, rc_rbuf_len := 16384, rc_rbuf_null := False\<rparr>))"
  by (rule GetRequest_read_in_bounds [where realloc_ok = True and new_size = 5])
     (simp_all add: rbuf_ok_def plan_read_def grow_rbuf_def to_int32_def RedisConn_new_def
        pink_conn.defs redis_conn.defs PinkConn_new_def)

section \<open>A connection class\<close>

text \<open>What the callbacks leave alone.\<close>

definition conn_frame :: "'u redis_conn \<Rightarrow> 'u redis_conn \<Rightarrow> bool" where
  "conn_frame c c' \<longleftrightarrow>
     c'\<lparr>rc_user := rc_user c, rc_response := rc_response c, pc_is_reply := pc_is_reply c\<rparr> = c"

lemma conn_frame_refl [simp]: "conn_frame c c"
  by (simp add: conn_frame_def)

lemma conn_frame_trans: "conn_frame a b \<Longrightarrow> conn_frame b c \<Longrightarrow> conn_frame a c"
  by (cases a; cases b; cases c) (simp add: conn_frame_def)

lemma conn_frame_WriteResp: "conn_frame c (WriteResp r c)"
  by (simp add: conn_frame_def WriteResp_def base_set_is_reply_def)

lemma conn_frame_fold: "conn_frame c0 c \<Longrightarrow> conn_frame c0 (fold WriteResp rs c)"
  by (induction rs arbitrary: c) (auto intro!: conn_frame_trans [OF _ conn_frame_WriteResp])

lemma conn_frame_user: "conn_frame c (c\<lparr>rc_user := u\<rparr>)"
  by (simp add: conn_frame_def)

lemma conn_settings_keep: "callbacks_keep (conn_frame c0) (conn_settings app)"
  unfolding callbacks_keep_def
proof (intro conjI allI impI; elim conjE)
  fix deal c a assume "DealMessage (conn_settings app) = Some deal" and c: "conn_frame c0 c"
  then show "conn_frame c0 (snd (deal c a))"
    by (auto simp: conn_settings_def ParserDealMessageCb_def split: prod.splits
        intro!: conn_frame_fold conn_frame_trans [OF c conn_frame_user])
next
  fix comp c b assume "Complete (conn_settings app) = Some comp" and c: "conn_frame c0 c"
  then show "conn_frame c0 (snd (comp c b))"
    by (auto simp: conn_settings_def ParserCompleteCb_def split: prod.splits
        intro!: conn_frame_fold conn_frame_trans [OF c conn_frame_user])
qed

lemma conn_frame_fields:
  assumes "conn_frame c c'"
  shows "pc_fd c' = pc_fd c" "pc_ip_port c' = pc_ip_port c" "pc_is_waiting_del c' = pc_is_waiting_del c"
    "rc_rbuf_len c' = rc_rbuf_len c" "rc_rbuf_max_len c' = rc_rbuf_max_len c" "rc_last_read_pos c' = rc_last_read_pos c"
    "rc_command_len c' = rc_command_len c" "rc_handle_type c' = rc_handle_type c"
    "rc_redis_parser c' = rc_redis_parser c" "rc_bulk_len c' = rc_bulk_len c"
  using assms by (cases c; cases c'; simp add: conn_frame_def)+

lemma finish_read_kept:
  "finish_read p c = (st, c') \<Longrightarrow> same_conn c c' \<and> rc_rbuf_len c' = rc_rbuf_len c \<and> rc_rbuf_max_len c' = rc_rbuf_max_len c
     \<and> rc_handle_type c' = rc_handle_type c \<and> rc_user c' = rc_user c \<and> rc_response c' = rc_response c \<and> rc_redis_parser c' = p"
  by (cases "ParseRedisParserStatus (rp_status_code p) (rp_error_code p)"; cases "rc_response c = []")
     (auto simp: finish_read_def Let_def same_conn_def base_set_is_reply_def)

lemma finish_read_open:
  assumes "finish_read p c = (st, c')" "ParseRedisParserStatus (rp_status_code p) (rp_error_code p) \<in> {kReadHalf, kReadAll}"
  shows "(st = kReadHalf \<or> st = kReadAll) \<and> rc_last_read_pos c' = -1 \<and> rc_bulk_len c' = rp_bulk_len p
     \<and> (rc_command_len c' = 0 \<or> rc_command_len c' = rc_command_len c)"
  using assms
  by (cases "ParseRedisParserStatus (rp_status_code p) (rp_error_code p)"; cases "rc_response c = []")
     (auto simp: finish_read_def Let_def base_set_is_reply_def)

lemma parse_read_same: "parse_read s2l app s c = Some (st, c') \<Longrightarrow> same_conn c c'"
  using ProcessInputBuffer_keeps [OF conn_settings_keep [of c app] conn_frame_refl, of s2l "rc_redis_parser c" s]
  by (auto simp: parse_read_def same_conn_def conn_frame_fields split: sum.splits dest!: finish_read_kept)

lemma same_conn_grow: "grow_rbuf ok n c = (b, c') \<Longrightarrow> same_conn c c'"
  by (auto simp: same_conn_def dest!: grow_rbuf_kept)

lemma RedisConn_GetRequest_same: "RedisConn_GetRequest s2l app i c = Some (st, c') \<Longrightarrow> same_conn c c'"
  by (auto simp: RedisConn_GetRequest_def Let_def split: prod.splits if_splits read_result.splits
      dest!: parse_read_same same_conn_grow)
     (auto simp: same_conn_def)

lemma RedisConn_SendReply_same: "RedisConn_SendReply wv s c = Some (st, c', s') \<Longrightarrow> same_conn c c'"
  by (auto simp: RedisConn_SendReply_def Let_def split: prod.splits if_splits option.splits bool.splits
      dest!: after_write_simps)
     (auto simp: same_conn_def)

interpretation redis: conn_class "redis_ops s2l app wv" for s2l app wv
  by unfold_locales
     (auto simp: redis_ops_def RedisConn_GetRequest_same RedisConn_SendReply_same TryResizeBuffer_def WriteResp_def Let_def same_conn_def
       base_set_is_reply_def dest!: RedisConn_GetRequest_same RedisConn_SendReply_same)

text \<open>Reading leaves the vector being sent alone.\<close>

lemma conn_frame_iov: "conn_frame c c' \<Longrightarrow> rc_iov_idx c' = rc_iov_idx c"
  by (cases c; cases c') (simp add: conn_frame_def)

lemma finish_read_iov: "finish_read p c = (st, c') \<Longrightarrow> rc_iov_idx c' = rc_iov_idx c"
  by (cases "ParseRedisParserStatus (rp_status_code p) (rp_error_code p)"; cases "rc_response c = []")
     (auto simp: finish_read_def Let_def base_set_is_reply_def)

lemma parse_read_iov: "parse_read s2l app s c = Some (st, c') \<Longrightarrow> rc_iov_idx c' = rc_iov_idx c"
  using ProcessInputBuffer_keeps [OF conn_settings_keep [of c app] conn_frame_refl, of s2l "rc_redis_parser c" s]
  by (auto simp: parse_read_def split: sum.splits dest!: finish_read_iov conn_frame_iov)

lemma RedisConn_GetRequest_iov: "RedisConn_GetRequest s2l app i c = Some (st, c') \<Longrightarrow> rc_iov_idx c' = rc_iov_idx c"
  by (auto simp: RedisConn_GetRequest_def Let_def grow_rbuf_def split: prod.splits if_splits read_result.splits dest!: parse_read_iov)

section \<open>Serving a pipelined stream\<close>

text \<open>
  A run of a connection on successive reads, as long as it stays open; \<open>None\<close> if it is closed.
\<close>

fun serve :: "string2l \<Rightarrow> 'u redis_app \<Rightarrow> bytes list \<Rightarrow> 'u redis_conn \<Rightarrow> 'u redis_conn option" where
  "serve s2l app [] c = Some c"
| "serve s2l app (s # ss) c =
     (case RedisConn_GetRequest s2l app \<lparr>io_reads = [Bytes s], io_writes = [], io_realloc = True, io_now = 0\<rparr> c of
        Some (st, c') \<Rightarrow> if st = kReadHalf \<or> st = kReadAll then serve s2l app ss c' else None
      | None \<Rightarrow> None)"

lemma serve_iov: "serve s2l app ss c = Some c' \<Longrightarrow> rc_iov_idx c' = rc_iov_idx c"
  by (induction ss arbitrary: c) (auto split: option.splits if_splits dest!: RedisConn_GetRequest_iov)

text \<open>
  An application that answers every command with \<open>h\<close> and uses the default \<^verbatim>\<open>ProcessRedisCmds\<close>, which does
  nothing; \<open>run_app\<close> is what it does with one command.
\<close>

definition plain_app :: "(args \<Rightarrow> 'u \<Rightarrow> 'u \<times> bytes list) \<Rightarrow> 'u redis_app" where
  "plain_app h = \<lparr>app_DealMessage = (\<lambda>a u. (0, h a u)), app_ProcessRedisCmds = (\<lambda>b async u. (u, []))\<rparr>"

definition run_app :: "(args \<Rightarrow> 'u \<Rightarrow> 'u \<times> bytes list) \<Rightarrow> 'u \<times> bytes list \<Rightarrow> args \<Rightarrow> 'u \<times> bytes list" where
  "run_app h st a = (case h a (fst st) of (u, r) \<Rightarrow> (u, snd st @ r))"

lemma fold_WriteResp: "rc_response (fold WriteResp rs c) = rc_response c @ rs" "rc_user (fold WriteResp rs c) = rc_user c"
  by (induction rs arbitrary: c) (auto simp: WriteResp_def base_set_is_reply_def)

lemma conn_settings_plain:
  "conn_settings (plain_app h) =
     accepting (\<lambda>c a. snd (ParserDealMessageCb (plain_app h) c a)) (\<lambda>c b. c)"
  by (auto simp: conn_settings_def accepting_def ParserDealMessageCb_def ParserCompleteCb_def plain_app_def fun_eq_iff
      prod_eq_iff split: prod.splits)

lemma deal_plain:
  assumes "rc_handle_type c = kSynchronous"
  shows "conn_frame c (foldl (\<lambda>c a. snd (ParserDealMessageCb (plain_app h) c a)) c ds)"
    and "(rc_user (foldl (\<lambda>c a. snd (ParserDealMessageCb (plain_app h) c a)) c ds),
          rc_response (foldl (\<lambda>c a. snd (ParserDealMessageCb (plain_app h) c a)) c ds))
         = foldl (run_app h) (rc_user c, rc_response c) ds"
proof -
  let ?f = "\<lambda>c a. snd (ParserDealMessageCb (plain_app h) c a)"
  have one: "conn_frame c (?f c a) \<and> (rc_user (?f c a), rc_response (?f c a)) = run_app h (rc_user c, rc_response c) a"
    if "rc_handle_type c = kSynchronous" for c :: "'a redis_conn" and a
    using that by (auto simp: ParserDealMessageCb_def plain_app_def run_app_def fold_WriteResp
        intro!: conn_frame_fold conn_frame_user split: prod.splits)
  have "conn_frame c (foldl ?f c ds) \<and> (rc_user (foldl ?f c ds), rc_response (foldl ?f c ds)) = foldl (run_app h) (rc_user c, rc_response c) ds"
    using assms
  proof (induction ds arbitrary: c)
    case (Cons a ds)
    have "rc_handle_type (?f c a) = kSynchronous"
      using one [OF Cons.prems, of a] Cons.prems by (auto dest: conn_frame_fields)
    with Cons.IH [of "?f c a"] one [OF Cons.prems, of a] show ?case by (auto intro: conn_frame_trans)
  qed simp
  then show "conn_frame c (foldl ?f c ds)"
    "(rc_user (foldl ?f c ds), rc_response (foldl ?f c ds)) = foldl (run_app h) (rc_user c, rc_response c) ds" by simp_all
qed

definition serving :: "'u redis_conn \<Rightarrow> resume \<Rightarrow> bool" where
  "serving c ctl \<longleftrightarrow> rbuf_ok c \<and> (rc_rbuf_len c = 0 \<or> REDIS_IOBUF_LEN \<le> rc_rbuf_len c)
     \<and> REDIS_IOBUF_LEN \<le> rc_rbuf_max_len c \<and> rc_handle_type c = kSynchronous
     \<and> parser_idle (rc_redis_parser c) \<and> parser_at (rc_redis_parser c) ctl
     \<and> rc_bulk_len c = rp_bulk_len (rc_redis_parser c) \<and> 0 \<le> rc_command_len c
     \<and> (ctl = None \<longrightarrow> rp_argvs (rc_redis_parser c) = [])"

lemma serving_room:
  assumes "serving c ctl" "rc_bulk_len c \<le> rc_rbuf_max_len c"
  shows "\<exists>n remain nl len. plan_read c = (n, remain) \<and> grow_rbuf True n c = (True, c\<lparr>rc_rbuf_null := nl, rc_rbuf_len := len\<rparr>)
     \<and> REDIS_IOBUF_LEN \<le> remain \<and> REDIS_IOBUF_LEN \<le> len \<and> len < 2 ^ 31"
proof -
  obtain n remain where plan: "plan_read c = (n, remain)" by (cases "plan_read c")
  have n: "n \<le> rc_rbuf_max_len c" and remain: "REDIS_IOBUF_LEN \<le> remain"
    using assms plan
    by (auto simp: serving_def rbuf_ok_def plan_read_def REDIS_IOBUF_LEN_def to_int32_id Let_def split: if_splits)
  have "fst (grow_rbuf True n c)" using n by (simp add: grow_rbuf_def Let_def)
  then obtain c1 where c1: "grow_rbuf True n c = (True, c1)" by (cases "grow_rbuf True n c") auto
  then obtain nl len where kept: "c1 = c\<lparr>rc_rbuf_null := nl, rc_rbuf_len := len\<rparr>" by (auto dest: grow_rbuf_kept)
  with plan_and_grow [OF _ plan c1] remain assms(1) have "REDIS_IOBUF_LEN \<le> len" "len < 2 ^ 31"
    by (auto simp: serving_def rbuf_ok_def)
  with plan c1 kept remain show ?thesis by blast
qed

fun end_at :: "stream_end \<Rightarrow> resume" where
  "end_at (Pending m b av h) = Some (m, b, av)" | "end_at _ = None"

fun end_half :: "stream_end \<Rightarrow> bytes" where
  "end_half (Pending m b av h) = h" | "end_half _ = []"

lemma serving_parse:
  assumes "parser_idle (rc_redis_parser c)" "parser_at (rc_redis_parser c) ctl" "rc_handle_type c = kSynchronous"
    and "length (rp_half_argv (rc_redis_parser c) @ s) < 2 ^ 31"
    and "read_stream s2l ctl (rp_half_argv (rc_redis_parser c) @ s) = (ds, e)" "e \<noteq> Broken"
  shows "\<exists>c1 p. ProcessInputBuffer s2l (conn_settings (plain_app h)) c (rc_redis_parser c) s = Inr (c1, p)
     \<and> conn_frame c c1 \<and> (rc_user c1, rc_response c1) = foldl (run_app h) (rc_user c, rc_response c) ds
     \<and> parser_idle p \<and> parser_at p (end_at e) \<and> rp_half_argv p = end_half e
     \<and> (end_at e = None \<longrightarrow> rp_argvs p = [])
     \<and> ParseRedisParserStatus (rp_status_code p) (rp_error_code p) \<in> {kReadHalf, kReadAll}"
proof -
  let ?f = "\<lambda>c a. snd (ParserDealMessageCb (plain_app h) c a)"
  let ?c = "foldl ?f c ds"
  note deal = deal_plain [OF assms(3), of h ds]
  from ProcessInputBuffer_refines [OF assms(1,2,4-6), of ?f "\<lambda>c b. c" c]
  obtain p where p: "ProcessInputBuffer s2l (conn_settings (plain_app h)) c (rc_redis_parser c) s = Inr (?c, p)"
    "parser_at p (end_at e)" "rp_half_argv p = end_half e" "parser_idle p" "end_at e = None \<longrightarrow> rp_argvs p = []"
    "e = Idle \<longrightarrow> rp_status_code p = kRedisParserDone" "e \<noteq> Idle \<longrightarrow> rp_status_code p = kRedisParserHalf"
    using assms(6) unfolding conn_settings_plain by (cases e) auto
  then have "ParseRedisParserStatus (rp_status_code p) (rp_error_code p) \<in> {kReadHalf, kReadAll}"
    by (cases "e = Idle") (simp_all add: ParseRedisParserStatus_def)
  with p deal show ?thesis
    by (intro exI [of _ ?c] exI [of _ p] conjI)
qed

lemma serving_step:
  assumes c: "serving c ctl" "rc_bulk_len c \<le> rc_rbuf_max_len c"
    and s: "s \<noteq> []" "int (length s) \<le> REDIS_IOBUF_LEN" "rc_command_len c + int (length s) < rc_rbuf_max_len c"
    and "length (rp_half_argv (rc_redis_parser c) @ s) < 2 ^ 31"
    and "read_stream s2l ctl (rp_half_argv (rc_redis_parser c) @ s) = (ds, e)" "e \<noteq> Broken"
  shows "\<exists>st c'. RedisConn_GetRequest s2l (plain_app h) \<lparr>io_reads = [Bytes s], io_writes = [], io_realloc = True, io_now = 0\<rparr> c = Some (st, c')
     \<and> (st = kReadHalf \<or> st = kReadAll) \<and> serving c' (end_at e) \<and> rp_half_argv (rc_redis_parser c') = end_half e
     \<and> (rc_user c', rc_response c') = foldl (run_app h) (rc_user c, rc_response c) ds
     \<and> rc_rbuf_max_len c' = rc_rbuf_max_len c \<and> rc_command_len c' \<le> rc_command_len c + int (length s)"
proof -
  obtain n remain nl len where plan: "plan_read c = (n, remain)"
    "grow_rbuf True n c = (True, c\<lparr>rc_rbuf_null := nl, rc_rbuf_len := len\<rparr>)"
    "REDIS_IOBUF_LEN \<le> remain" "REDIS_IOBUF_LEN \<le> len" "len < 2 ^ 31"
    using serving_room [OF c] by blast
  let ?k = "int (length s)"
  have k: "?k < 2 ^ 31" "0 \<le> rc_command_len c" "rc_rbuf_max_len c < 2 ^ 31" "rc_last_read_pos c = -1"
    using c s(2) by (auto simp: serving_def rbuf_ok_def REDIS_IOBUF_LEN_def)
  define c2 where "c2 = c\<lparr>rc_rbuf_null := nl, rc_rbuf_len := len, rc_last_read_pos := ?k - 1, rc_msg_peak := ?k - 1,
      rc_command_len := rc_command_len c + ?k\<rparr>"
  have read: "read_count remain [Bytes s] = Nread s"
    using plan(3) s(1,2) by (auto simp: read_count_def REDIS_IOBUF_LEN_def)
  have call: "RedisConn_GetRequest s2l (plain_app h) \<lparr>io_reads = [Bytes s], io_writes = [], io_realloc = True, io_now = 0\<rparr> c
      = parse_read s2l (plain_app h) s c2"
    using plan(1,2) read s k by (simp add: RedisConn_GetRequest_def c2_def to_int32_id)
  have same: "rc_redis_parser c2 = rc_redis_parser c" "rc_handle_type c2 = rc_handle_type c" "rc_user c2 = rc_user c"
    "rc_response c2 = rc_response c" "rc_rbuf_max_len c2 = rc_rbuf_max_len c" "rc_rbuf_len c2 = len"
    "rc_command_len c2 = rc_command_len c + ?k"
    by (simp_all add: c2_def)
  have "parser_idle (rc_redis_parser c2)" "parser_at (rc_redis_parser c2) ctl" "rc_handle_type c2 = kSynchronous"
    using c(1) same by (simp_all add: serving_def)
  from serving_parse [OF this, of s s2l ds e h] assms(6-8) same obtain c3 p where
    p: "parse_read s2l (plain_app h) s c2 = Some (finish_read p c3)" "conn_frame c2 c3"
      "(rc_user c3, rc_response c3) = foldl (run_app h) (rc_user c, rc_response c) ds"
      "parser_idle p" "parser_at p (end_at e)" "rp_half_argv p = end_half e" "end_at e = None \<longrightarrow> rp_argvs p = []"
      "ParseRedisParserStatus (rp_status_code p) (rp_error_code p) \<in> {kReadHalf, kReadAll}"
    by (auto simp: parse_read_def)
  obtain st c' where fin: "finish_read p c3 = (st, c')" by (cases "finish_read p c3")
  have st: "st = kReadHalf \<or> st = kReadAll" "rc_last_read_pos c' = -1" "rc_bulk_len c' = rp_bulk_len p"
    "rc_command_len c' = 0 \<or> rc_command_len c' = rc_command_len c3"
    using finish_read_open [OF fin p(8)] by simp_all
  have c': "rc_rbuf_len c' = len" "rc_rbuf_max_len c' = rc_rbuf_max_len c" "rc_handle_type c' = kSynchronous"
    "rc_redis_parser c' = p" "rc_user c' = rc_user c3" "rc_response c' = rc_response c3"
    using finish_read_kept [OF fin] conn_frame_fields(4,5,8) [OF p(2)] same \<open>rc_handle_type c2 = kSynchronous\<close> by simp_all
  have cmd: "0 \<le> rc_command_len c'" "rc_command_len c' \<le> rc_command_len c + ?k"
    using st(4) conn_frame_fields(7) [OF p(2)] same(7) k(2) by auto
  have "serving c' (end_at e)"
    unfolding serving_def rbuf_ok_def c'
    using c(1) st(2,3) plan(4,5) p(4,5,7) k(3) cmd(1) by (simp add: serving_def REDIS_IOBUF_LEN_def)
  with call p(1,3,6) fin st(1) c' cmd(2) show ?thesis by simp
qed

lemma serve_stream:
  assumes ok: "string2l_ok s2l"
    and "serving c ctl" "[] \<notin> set ss" "\<forall>s \<in> set ss. int (length s) \<le> REDIS_IOBUF_LEN"
    and "rc_command_len c + int (length (concat ss)) < rc_rbuf_max_len c"
    and "int (length (rp_half_argv (rc_redis_parser c) @ concat ss)) < rc_rbuf_max_len c"
    and "read_stream s2l ctl (rp_half_argv (rc_redis_parser c) @ concat ss) = (ds, Idle)" "ss = [] \<longrightarrow> ctl = None"
  shows "\<exists>c'. serve s2l (plain_app h) ss c = Some c'
     \<and> (rc_user c', rc_response c') = foldl (run_app h) (rc_user c, rc_response c) ds \<and> serving c' None"
  using assms(2-)
proof (induction ss arbitrary: c ctl ds)
  case Nil
  then have "ds = []" by (simp add: serving_def)
  with Nil show ?case by auto
next
  case (Cons s ss)
  let ?half = "rp_half_argv (rc_redis_parser c)"
  obtain ds1 e where e: "read_stream s2l ctl (?half @ s) = (ds1, e)" by (cases "read_stream s2l ctl (?half @ s)")
  have whole: "read_stream s2l ctl ((?half @ s) @ concat ss) = (ds, Idle)" using Cons.prems(6) by simp
  have "ctl = None \<or> ?half @ s \<noteq> []" using Cons.prems(2) by auto
  note app = read_stream_append [OF ok this e, of "concat ss"]
  with whole have "e \<noteq> Broken" by auto
  have max31: "rc_rbuf_max_len c < 2 ^ 31" using Cons.prems(1) by (simp add: serving_def rbuf_ok_def)
  have bulk: "rc_bulk_len c \<le> rc_rbuf_max_len c"
  proof (cases ctl)
    case None
    with Cons.prems(1) show ?thesis by (simp add: serving_def rbuf_ok_def REDIS_IOBUF_LEN_def)
  next
    case (Some t)
    obtain m b av where "t = (m, b, av)" by (cases t)
    with Some Cons.prems(1) have "rc_bulk_len c = b" "m = 0 \<longrightarrow> b = -1" by (auto simp: serving_def)
    with pending_bulk_bound [OF Cons.prems(6) [unfolded Some \<open>t = _\<close>]] Cons.prems(5) show ?thesis by simp
  qed
  have small: "length (?half @ s) < 2 ^ 31" using Cons.prems(5) max31 by simp
  have cmd: "rc_command_len c + int (length s) < rc_rbuf_max_len c" using Cons.prems(4) by simp
  have s: "s \<noteq> []" "int (length s) \<le> REDIS_IOBUF_LEN" using Cons.prems(2,3) by auto
  obtain st c1 where step: "RedisConn_GetRequest s2l (plain_app h)
        \<lparr>io_reads = [Bytes s], io_writes = [], io_realloc = True, io_now = 0\<rparr> c = Some (st, c1)"
    "st = kReadHalf \<or> st = kReadAll" "serving c1 (end_at e)" "rp_half_argv (rc_redis_parser c1) = end_half e"
    "(rc_user c1, rc_response c1) = foldl (run_app h) (rc_user c, rc_response c) ds1"
    "rc_rbuf_max_len c1 = rc_rbuf_max_len c" "rc_command_len c1 \<le> rc_command_len c + int (length s)"
    using serving_step [OF Cons.prems(1) bulk s cmd small e \<open>e \<noteq> Broken\<close>, of h] by blast
  have ne: "e \<noteq> Idle \<Longrightarrow> concat ss \<noteq> []" using whole e by (metis append_Nil2 prod.inject)
  obtain ds2 where ds2: "read_stream s2l (end_at e) (end_half e @ concat ss) = (ds2, Idle)" "ds = ds1 @ ds2"
    using app whole ne \<open>e \<noteq> Broken\<close>
    by (cases "read_stream s2l (end_at e) (end_half e @ concat ss)"; cases e) auto
  have "length (end_half e) \<le> length (?half @ s)"
    using e by (cases e) (auto dest: read_stream_kept)
  then have "int (length (end_half e @ concat ss)) < rc_rbuf_max_len c1" using Cons.prems(5) step(6) by simp
  moreover have "rc_command_len c1 + int (length (concat ss)) < rc_rbuf_max_len c1" using Cons.prems(4) step(6,7) by simp
  moreover have "ss = [] \<longrightarrow> end_at e = None" using ne by (cases e) auto
  ultimately show ?case
    using Cons.IH [OF step(3), of ds2] Cons.prems(2,3) step(1,2,4,5) ds2 by auto
qed

lemma redis_serve_new:
  assumes "string2l_ok s2l" "\<forall>c \<in> set cmds. small_command c"
    and "concat reads = concat (map (snd \<circ> redisFormatCommandArgv) cmds)" "[] \<notin> set reads"
    and "\<forall>r \<in> set reads. int (length r) \<le> REDIS_IOBUF_LEN"
    and "int (length (concat reads)) < max_len" "REDIS_IOBUF_LEN \<le> max_len" "max_len < 2 ^ 31"
  shows "\<exists>c'. serve s2l (plain_app h) reads (RedisConn_new fd ip_port now kSynchronous max_len u) = Some c'
     \<and> (rc_user c', rc_response c') = foldl (run_app h) (u, []) cmds"
proof -
  let ?c = "RedisConn_new fd ip_port now kSynchronous max_len u"
  note new = RedisConn_new_def pink_conn.defs redis_conn.defs PinkConn_new_def
  have p: "rc_redis_parser ?c = started" by (simp add: new started_def)
  have "serving ?c None"
    using assms(7,8) p started_ready by (simp add: serving_def rbuf_ok_def new started_def [symmetric])
  moreover have "snd \<circ> redisFormatCommandArgv = format_command" by (simp add: fun_eq_iff redisFormatCommandArgv_def)
  with assms(3) have "concat reads = concat (map format_command cmds)" by simp
  ultimately show ?thesis
    using serve_stream [OF assms(1), of ?c None reads cmds h] read_stream_format [OF assms(1,2)] assms(4-6) p started_ready(3)
    by (auto simp: new)
qed

text \<open>C7: A connection serves a pipelined stream independently of how the network delivers it: for any division of the
  encoded commands into reads of at most one I/O buffer, the connection stays open, the application sees
  exactly the commands in order, and the queued replies are the application's replies in that order.\<close>

theorem RedisConn_serves_pipeline:
  assumes "string2l_ok s2l" "\<forall>c \<in> set cmds. small_command c"
    and "concat reads = concat (map (snd \<circ> redisFormatCommandArgv) cmds)" "[] \<notin> set reads"
    and "\<forall>r \<in> set reads. int (length r) \<le> REDIS_IOBUF_LEN"
    and "int (length (concat reads)) < max_len" "REDIS_IOBUF_LEN \<le> max_len" "max_len < 2 ^ 31"
  shows "\<exists>c'. serve s2l (plain_app h) reads (RedisConn_new fd ip_port now kSynchronous max_len u) = Some c'
     \<and> (rc_user c', rc_response c') = foldl (run_app h) (u, []) cmds"
  using assms by (rule redis_serve_new)

theorem RedisConn_serves_pipeline_witness:
  "\<exists>c'. serve ref_string2l (plain_app (\<lambda>a u. (u + 1, [''+PONG'' @ CRLF]))) [''*1'' @ CRLF @ ''$4'' @ CRLF @ ''PI'', ''NG'' @ CRLF]
        (RedisConn_new 7 ''peer'' (0, 0) kSynchronous 65536 (0 :: int)) = Some c'
     \<and> (rc_user c', rc_response c') = foldl (run_app (\<lambda>a u. (u + 1, [''+PONG'' @ CRLF]))) (0, []) [[''PING'']]"
  by (rule RedisConn_serves_pipeline [OF ref_string2l_ok])
     (simp add: small_command_def, code_simp, simp_all add: REDIS_IOBUF_LEN_def)

text \<open>
  A reply queued while an earlier one is partly sent is not in the vector being sent, and is cleared
  with the others when the vector is done: it never reaches the wire.
\<close>

lemma late_reply_lost:
  "(case RedisConn_SendReply ref_writev ([Accept 1, WriteErr EAGAIN], [])
          (WriteResp ''+A'' (RedisConn_new 7 ''peer'' (0, 0) kSynchronous 65536 ())) of
      Some (st1, c1, s1) \<Rightarrow>
        (case RedisConn_SendReply ref_writev ([Accept 9], snd s1) (WriteResp ''+B'' c1) of
           Some (st2, c2, s2) \<Rightarrow> st1 = kWriteHalf \<and> st2 = kWriteAll \<and> snd s2 = ''+A'' \<and> rc_response c2 = []
         | None \<Rightarrow> False)
    | None \<Rightarrow> False)"
  by (simp add: RedisConn_SendReply_def WriteResp_def base_set_is_reply_def RedisConn_new_def pink_conn.defs redis_conn.defs
      PinkConn_new_def writev_loop.simps ref_writev_def progressed_def after_write_def)

end
