(* ===== verification/Servers.thy ===== *)
theory Servers
  imports DispatchThread HolyThread PubSub RedisConn PbConn
begin

text \<open>
  The servers with the connection classes of the library: interpretations of the server interfaces on
  redis and protobuf connections, and the properties of the servers as a whole.

  The lemmas at the end show where the code loses descriptors: these are the steps that the
  theorems exclude by the labels \<open>Dropping\<close> and \<open>KillAll\<close>.
\<close>

section \<open>Instances\<close>

text \<open>A factory as an application writes it: every connection starts with the user state \<open>u\<close>.\<close>

definition redis_factory :: "timeval \<Rightarrow> HandleType \<Rightarrow> int \<Rightarrow> 'u \<Rightarrow> ('u, unit) redis_conn_ext factory" where
  "redis_factory now handle_type rbuf_max_len u fd ip = Some (RedisConn_new fd ip now handle_type rbuf_max_len u)"

definition pb_factory :: "timeval \<Rightarrow> 'u \<Rightarrow> ('u, unit) pb_conn_ext factory" where
  "pb_factory now u fd ip = Some (PbConn_new fd ip now u)"

interpretation redis_server: conn_server "redis_ops s2l app wv" "redis_factory now ht len u" for s2l app wv now ht len u
  by unfold_locales (auto simp: redis_factory_def RedisConn_new_def pink_conn.defs PinkConn_new_def)

interpretation pb_server: conn_server "pb_ops deal" "pb_factory now u" for deal now u
  by unfold_locales (auto simp: pb_factory_def PbConn_new_def pink_conn.defs PinkConn_new_def)

text \<open>The smallest connection class: every read completes a request, every write sends its reply.\<close>

definition instant_ops :: "unit conn_ops" where
  "instant_ops = \<lparr>co_GetRequest = (\<lambda>i c. Some (kReadAll, base_set_is_reply True c)), co_SendReply = (\<lambda>i c. Some (kWriteAll, c)),
     co_WriteResp = (\<lambda>r c. c), co_TryResizeBuffer = (\<lambda>i c. c), co_set_is_reply = base_set_is_reply, co_is_reply = pc_is_reply\<rparr>"

definition instant_factory :: "unit factory" where
  "instant_factory fd ip = Some (PinkConn_new fd ip (0, 0))"

interpretation instant: conn_server instant_ops instant_factory
  by unfold_locales (auto simp: instant_ops_def instant_factory_def PinkConn_new_def)

definition no_io :: io where
  "no_io = \<lparr>io_reads = [], io_writes = [], io_realloc = True, io_now = 0\<rparr>"

interpretation redis_dispatch: server_class dispatch_ops
  "dispatch_ok :: ('u, unit) redis_conn_ext dispatch \<Rightarrow> bool" unheld
proof unfold_locales
  fix d :: "('u, unit) redis_conn_ext dispatch" and fd ip d'
  assume "dispatch_ok d" "unheld fd d" "sp_HandleNewConn dispatch_ops fd ip d = Some d'"
  then show "dispatch_ok d'" by (simp add: dispatch_ops_def HandleNewConn_ok)
qed (auto simp: dispatch_ops_def dispatch_ok_def sv_call_def sv_close_def)

section \<open>Worker\<close>


definition demo_worker :: "(unit, unit) redis_conn_ext worker" where
  "demo_worker = WorkerThread_new 0"

lemma demo_run:
  "\<exists>w. worker_run (redis_ops ref_string2l app wv) (redis_factory (0, 0) kSynchronous 65536 ()) [Given 7, Run] demo_worker w \<and>
     watched (wk_epoll w) = {7}"
proof -
  let ?ops = "redis_ops ref_string2l app wv" and ?fac = "redis_factory (0, 0) kSynchronous 65536 ()"
  let ?w1 = "snd (worker_MoveItemIn (connect_item (7, ''p'')) False demo_worker)"
  have s1: "worker_step ?ops ?fac (Given 7) demo_worker ?w1"
    using step_item [of ?ops ?fac "connect_item (7, ''p'')" demo_worker False] by (simp add: connect_item_def)
  have pipe: "ep_pipe (wk_epoll ?w1) = [connect_item (7, ''p'')]"
    by (simp add: worker_MoveItemIn_def Register_def demo_worker_def WorkerThread_new_def thread.defs)
  have "\<exists>w2. worker_notify ?fac (\<lambda>_. (2, 0)) EPOLLIN ?w1 = Some w2 \<and> watched (wk_epoll w2) = {7}"
    by (simp add: worker_notify_def has_flag_def EPOLLIN_def read_items_def worker_item_def connect_item_def worker_connect_def
        redis_factory_def SetNonblock_def Setnonblocking_def O_NONBLOCK_def Let_def RedisConn_new_def pink_conn.defs
        PinkConn_new_def worker_MoveItemIn_def Register_def
        demo_worker_def WorkerThread_new_def thread.defs watched_def PinkAddEvent_def)
  then obtain w2 where w2: "worker_notify ?fac (\<lambda>_. (2, 0)) EPOLLIN ?w1 = Some w2" "watched (wk_epoll w2) = {7}" by blast
  have "worker_step ?ops ?fac Run ?w1 w2"
    using step_notify [OF w2(1), of ?ops] pipe
    by (simp add: waits_present_def connects_ok_def Setnonblocking_def connect_item_def redis_factory_def)
  with s1 w2(2) show ?thesis by (blast intro: run_step run_none)
qed


text \<open>C14: A worker does not lose descriptors: along a run without the steps that drop one, everything it held at the
  start and that was not moved out is still in its table or waiting in its pipe, or was closed and reported closed.\<close>

theorem worker_no_leak:
  assumes "conn_server ops fac" "worker_run ops fac ls w w'" "worker_ok w" "Dropping \<notin> set ls" "KillAll \<notin> set ls"
  shows "\<exists>L. wk_log w' = wk_log w @ L \<and> held w \<subseteq> held w' \<union> (closed_in L \<inter> reported_in L) \<union> {fd. MovedOut fd \<in> set ls}"
proof -
  have "set ls \<inter> {Dropping, KillAll} = {}" using assms(4,5) by blast
  from conn_server.run_accounts [OF assms(1-3) this] show ?thesis
    by (fastforce simp: accounts_def moved_out_def)
qed

theorem worker_no_leak_witness:
  "\<exists>(w :: (unit, unit) redis_conn_ext worker) (w' :: (unit, unit) redis_conn_ext worker) L. 7 \<in> held w \<and> wk_log w' = wk_log w @ L \<and>
     held w \<subseteq> held w' \<union> (closed_in L \<inter> reported_in L) \<union> {fd. MovedOut fd \<in> set [Run]}"
proof -
  let ?ops = "redis_ops ref_string2l undefined undefined :: (unit, unit) redis_conn_ext conn_ops"
    and ?fac = "redis_factory (0, 0) kSynchronous 65536 () :: (unit, unit) redis_conn_ext factory"
  obtain w where w: "worker_run ?ops ?fac [Given 7, Run] demo_worker w" "watched (wk_epoll w) = {7}"
    using demo_run by blast
  have ok: "worker_ok w" using redis_server.run_ok [OF w(1)] by (simp add: demo_worker_def WorkerThread_new_ok)
  have run: "worker_run ?ops ?fac [Run] w (worker_Cleanup w)" by (blast intro: run_step run_none step_cleanup)
  obtain L where "wk_log (worker_Cleanup w) = wk_log w @ L"
      "held w \<subseteq> held (worker_Cleanup w) \<union> (closed_in L \<inter> reported_in L) \<union> {fd. MovedOut fd \<in> set [Run]}"
    using worker_no_leak [OF redis_server.conn_server_axioms run ok] by auto
  moreover have "7 \<in> held w" using ok w(2) by (auto simp: worker_ok_def held_def)
  ultimately show ?thesis by blast
qed

section \<open>Cron\<close>

definition to_kill :: "'a worker \<Rightarrow> 'a pink_conn_scheme \<Rightarrow> bool" where
  "to_kill w c \<longleftrightarrow> pc_ip_port c \<in> wk_deleting_conn_ipport w"

definition is_idle :: "'a worker \<Rightarrow> timeval \<Rightarrow> 'a pink_conn_scheme \<Rightarrow> bool" where
  "is_idle w now c \<longleftrightarrow> idle_too_long (wk_keepalive_timeout w) now c"

text \<open>C16: The cron task of a worker carries out the kill requests and time-outs: with distinct peers and no kill-all,
  the connections kept are exactly those of peers not to be killed that are not idle too long; the others are closed and
  reported, killed ones first, the idle ones also as timed out, in the order of descriptors; served requests are forgotten.\<close>

theorem worker_cron_exact:
  assumes "kKillAllConnsTask \<notin> wk_deleting_conn_ipport w" "distinct (ip_ports (wk_conns w))"
  shows "wk_conns (worker_DoCronTask ops i now w) =
      map (\<lambda>(fd, c). (fd, co_TryResizeBuffer ops i c)) (filter (\<lambda>(fd, c). \<not> to_kill w c \<and> \<not> is_idle w now c) (wk_conns w)) \<and>
    wk_log (worker_DoCronTask ops i now w) = wk_log w
      @ concat (map (\<lambda>(fd, c). close_calls c) (filter (\<lambda>(fd, c). to_kill w c) (wk_conns w)))
      @ concat (map (\<lambda>(fd, c). timeout_calls c) (filter (\<lambda>(fd, c). \<not> to_kill w c \<and> is_idle w now c) (wk_conns w))) \<and>
    wk_deleting_conn_ipport (worker_DoCronTask ops i now w) = wk_deleting_conn_ipport w - set (ip_ports (wk_conns w))"
proof -
  note walk = cron_walk_decides [OF assms(2), of delayed_del "co_TryResizeBuffer ops i" "wk_keepalive_timeout w" now
      "wk_deleting_conn_ipport w"]
  have del: "wk_deleting_conn_ipport (fold worker_CloseFd cs v) = wk_deleting_conn_ipport v"
    "wk_deleting_conn_ipport (fold (\<lambda>c w. worker_FdTimeout c (worker_CloseFd c w)) cs v) = wk_deleting_conn_ipport v" for cs v
    by (induction cs arbitrary: v) simp_all
  have close: "wk_conns (fold worker_CloseFd cs v) = wk_conns v"
    "wk_log (fold worker_CloseFd cs v) = wk_log v @ concat (map close_calls cs)" for cs v
    using fold_CloseFd [of cs v] by auto
  have tout: "wk_conns (fold (\<lambda>c w. worker_FdTimeout c (worker_CloseFd c w)) cs v) = wk_conns v"
    "wk_log (fold (\<lambda>c w. worker_FdTimeout c (worker_CloseFd c w)) cs v) = wk_log v @ concat (map timeout_calls cs)" for cs v
    using fold_timeout [of cs v] by auto
  have calls: "map timeout_calls (map (\<lambda>(fd, c). c) m) = map (\<lambda>(fd, c). timeout_calls c) m"
    "map close_calls (map (\<lambda>(fd, c). delayed_del c) m) = map (\<lambda>(fd, c). close_calls c) m" for m :: "'a conns"
    by (auto simp: close_calls_def delayed_del_def)
  show ?thesis
    using assms(1)
    by (simp add: worker_DoCronTask_def walk del close tout calls to_kill_def is_idle_def comp_def split_beta
        del: map_map list.map_comp)
qed

definition demo_conns :: "unit worker" where
  "demo_conns = (WorkerThread_new 0)\<lparr>wk_conns := [(5, PinkConn_new 5 ''a'' (100, 0)), (6, PinkConn_new 6 ''b'' (10, 0)),
     (7, PinkConn_new 7 ''c'' (100, 0))], wk_deleting_conn_ipport := {''a''}\<rparr>"

theorem worker_cron_exact_witness:
  "wk_log (worker_DoCronTask instant_ops no_io (110, 0) demo_conns) =
     [Close 5, FdClosedHandle 5 ''a'', Close 6, FdClosedHandle 6 ''b'', FdTimeoutHandle 6 ''b'']"
proof -
  note new = demo_conns_def WorkerThread_new_def thread.defs PinkConn_new_def
  show ?thesis
    using worker_cron_exact [where w = demo_conns and now = "(110, 0)" and ops = instant_ops and i = no_io]
    by (simp add: new kKillAllConnsTask_def ip_ports_def to_kill_def is_idle_def idle_too_long_def kDefaultKeepAliveTime_def
        close_calls_def timeout_calls_def)
qed

section \<open>Request and reply\<close>


definition instant_worker :: "unit worker" where
  "instant_worker = (WorkerThread_new 0)\<lparr>wk_conns := [(7, set_is_partial_request True (PinkConn_new 7 ''p'' (0, 0)))],
     wk_epoll := \<lparr>ep_events = [(7, EPOLLIN)], ep_pipe = []\<rparr>\<rparr>"


section \<open>Dispatcher\<close>



section \<open>The single-threaded server\<close>

text \<open>C19: The single-threaded server keeps account of its connections: over any number of turns of its loop in which
  accepted descriptors are new, with no kill-all requested, every connection it had stays in its table or is closed and
  reported closed, and the table stays well formed.\<close>

theorem holy_no_leak:
  assumes "conn_server ops fac" "holy_ok h" "fresh_turns holy_fresh (holy_ops ops fac nb) tus (tm, h)"
    and "server_loop (holy_ops ops fac nb) tus (tm, h) = Some (tm', h')"
  shows "conns_ok (ho_conns h') \<and> keys (ho_conns h') \<inter> sv_server_fds h' = {} \<and>
    (\<exists>L. sv_log h' = sv_log h @ L \<and> keys (ho_conns h) \<subseteq> keys (ho_conns h') \<union> (closed_in L \<inter> reported_in L))"
proof -
  have "holy_inv (keys (ho_conns h)) (sv_log h) h" using assms(2) by (auto simp: holy_inv_def)
  from conn_server.holy_loop_inv [OF assms(1) this assms(3,4)] show ?thesis by (auto simp: holy_inv_def holy_ok_def gone_in_def)
qed

definition hup_turn :: turn where
  "hup_turn = \<lparr>tu_now = (0, 0), tu_cron_now = (0, 0), tu_cron_io = no_io,
     tu_fired = [\<lparr>fe_fd = Some 7, fe_mask = EPOLLHUP, fe_io = no_io,
       fe_accept = \<lparr>ac_connfd = None, ac_nodelay = 0, ac_ip = [], ac_port = 0\<rparr>, fe_now = (0, 0)\<rparr>]\<rparr>"

definition demo_holy :: "unit holy" where
  "demo_holy = (HolyThread_new_any 80 0 None True)\<lparr>ho_conns := [(7, PinkConn_new 7 ''p'' (0, 0))],
     sv_epoll := \<lparr>ep_events = [(7, EPOLLIN)], ep_pipe = []\<rparr>\<rparr>"

theorem holy_no_leak_witness:
  "\<exists>tm' h'. server_loop (holy_ops instant_ops instant_factory (\<lambda>_. (2, 0))) [hup_turn] (timer_start 0 (0, 0), demo_holy) = Some (tm', h') \<and>
     ho_conns h' = [] \<and> keys (ho_conns h') \<inter> sv_server_fds h' = {} \<and> sv_log h' = [Close 7, FdClosedHandle 7 ''p'']"
proof -
  let ?ops = "holy_ops instant_ops instant_factory (\<lambda>_. (2, 0))"
  note new = demo_holy_def HolyThread_new_any_def ServerThread_new_any_def ServerThread_new_def server.defs thread.defs Thread_new_def
  have ok: "holy_ok demo_holy"
    by (simp add: new holy_ok_def conns_ok_def ep_ok_def om_ok_def PinkConn_new_def)
  have fresh: "fresh_turns holy_fresh ?ops [hup_turn] (timer_start 0 (0, 0), demo_holy)"
    by (simp add: hup_turn_def after_cron_def timer_tick_def new accepts_def split: option.splits)
  have "\<exists>tm' h'. server_loop ?ops [hup_turn] (timer_start 0 (0, 0), demo_holy) = Some (tm', h') \<and>
      ho_conns h' = [] \<and> sv_log h' = [Close 7, FdClosedHandle 7 ''p'']"
    by (simp add: hup_turn_def server_turn_def timer_tick_def server_event_def holy_ops_def holy_HandleConnEvent_def holy_serve_def
        holy_read_async_def holy_write_def has_flag_def EPOLLHUP_def EPOLLIN_def EPOLLERR_def EPOLLOUT_def new om_get_def holy_store_def
        holy_CloseFd_def sv_close_def sv_call_def om_del_def PinkConn_new_def)
  then obtain tm' h' where run: "server_loop ?ops [hup_turn] (timer_start 0 (0, 0), demo_holy) = Some (tm', h')"
    "ho_conns h' = []" "sv_log h' = [Close 7, FdClosedHandle 7 ''p'']"
    by blast
  from holy_no_leak [OF instant.conn_server_axioms ok fresh run(1)] run show ?thesis by blast
qed

section \<open>Where descriptors are lost\<close>

text \<open>
  Answering \<^verbatim>\<open>KillAllConns\<close>, the cron task empties the table and returns before it closes anything: the
  descriptors stay open and registered, and the next event of one refers to a connection that is gone.
\<close>

lemma kill_all_leaks:
  assumes "kKillAllConnsTask \<in> wk_deleting_conn_ipport w"
  shows "wk_conns (worker_DoCronTask ops i now w) = []" "wk_log (worker_DoCronTask ops i now w) = wk_log w"
    "wk_epoll (worker_DoCronTask ops i now w) = wk_epoll w"
    "worker_conn_event ops i' m now' fd (worker_DoCronTask ops i now w) = None"
  using assms by (simp_all add: worker_DoCronTask_def worker_conn_event_def)

lemma holy_kill_all_leaks:
  assumes "kKillAllConnsTask \<in> ho_deleting_conn_ipport h"
  shows "ho_conns (holy_DoCronTask ops i now h) = []" "sv_log (holy_DoCronTask ops i now h) = sv_log h"
  using assms by (simp_all add: holy_DoCronTask_def)

text \<open>
  A connection marked by \<^verbatim>\<open>TryKillConn\<close> that gets an event before the next cron task is dropped from table
  and multiplexer, and never closed: the cron task does not find it any more.
\<close>

lemma marked_event_leaks:
  assumes "worker_ok w" "om_get (wk_conns w) fd = Some c" "pc_is_waiting_del c"
  shows "\<exists>w'. worker_conn_event ops i m now fd w = Some w' \<and> fd \<notin> keys (wk_conns w') \<and> fd \<notin> watched (wk_epoll w') \<and>
    wk_log w' = wk_log w"
  using assms by (simp add: worker_conn_event_def worker_ok_def)

text \<open>
  A new connection for which the factory returns no object is given up without being closed.  One that cannot be made
  non-blocking has been closed by \<^verbatim>\<open>Setnonblocking\<close>, but the application is not told.
\<close>

lemma no_conn_leaks: "fac (it_fd it) (cstr (it_ip_port it)) = None \<Longrightarrow> worker_connect fac nb it w = w"
  by (simp add: worker_connect_def)

lemma failed_nonblock_unreported:
  assumes "fac (it_fd it) (cstr (it_ip_port it)) = Some c" "snd (Setnonblocking (nb (it_fd it)))"
  shows "wk_log (worker_connect fac nb it w) = wk_log w @ [Close (it_fd it)] \<and> wk_conns (worker_connect fac nb it w) = wk_conns w"
  using assms by (simp add: worker_connect_def SetNonblock_def Setnonblocking_closes Let_def)

text \<open>
  The single-threaded server does not look at the result: the closed descriptor stays in its table, no event will ever
  arrive for it, and it is closed once more when the connection times out, whoever owns the number by then.
\<close>

lemma failed_nonblock_kept:
  assumes "fac fd ip = Some c" "snd (Setnonblocking (nb fd))"
  shows "\<exists>h'. holy_HandleNewConn fac nb fd ip h = Some h' \<and> Close fd \<in> set (sv_log h') \<and> fd \<in> keys (ho_conns h') \<and>
    fd \<notin> watched (sv_epoll h')"
  using assms by (simp add: holy_HandleNewConn_def sv_nonblock_def sv_close_def sv_call_def Let_def)

text \<open>
  A listening socket with an error is closed but stays in the set of listening sockets: a connection that gets its number
  is then taken for a listening socket and never served, and the number is closed once more at the end.
\<close>

lemma closed_listener_kept:
  assumes "fe_fd fe = Some fd" "fd \<in> sv_server_fds s" "\<not> has_flag (fe_mask fe) EPOLLIN" "has_flag (fe_mask fe) (EPOLLHUP OR EPOLLERR)"
  shows "\<exists>s'. server_event ops fe s = Some s' \<and> Close fd \<in> set (sv_log s') \<and> fd \<in> sv_server_fds s' \<and> sv_server_sockets s' = sv_server_sockets s"
  using assms by (simp add: server_event_def sv_close_def sv_call_def)

text \<open>A worker that stops does not look into its pipe: a connection that was accepted but not yet read from it stays open.\<close>

lemma queued_conns_left: "it \<in> set (ep_pipe (wk_epoll w)) \<Longrightarrow> it \<in> set (ep_pipe (wk_epoll (worker_Cleanup w)))"
  by (simp add: worker_Cleanup_def fold_cleanup)

text \<open>
  When a worker cannot be started the workers before it are left running, and the server itself counts as not running.
\<close>

lemma failed_start_leaves_workers:
  assumes "di_workers d = [w1, w2]" "\<not> th_running w1" "data 0 = (0, p)" "data 1 = (0, q)" "create 0 = 0" "create 1 \<noteq> 0" "\<not> th_running w2"
  shows "\<exists>d'. dispatch_StartThread data create sockets own d = (Inr (create 1), d') \<and> th_running (di_workers d' ! 0) \<and> th_running d' = th_running d"
  using assms by (simp add: dispatch_StartThread_def Thread_StartThread_def Let_def)

text \<open>
  The item by which a redis connection announces failure (\<^verbatim>\<open>NotifyEpoll(false)\<close>) is ignored by a worker: the
  connection stays registered for no event at all.
\<close>

lemma noti_close_ignored: "it_notify_type it = kNotiClose \<Longrightarrow> worker_item fac nb it w = Some w"
  by (simp add: worker_item_def)

section \<open>Publish and subscribe\<close>

text \<open>C22: In every run of the publish/subscribe thread in which no write of a publication fails, the subscribers of a
  pattern are distinct, and each of them is a connection of the thread whose object carries that descriptor.\<close>

theorem pubsub_subscribers_known:
  assumes "conn_class ops" "pubsub_run ops match PubSubThread_new s" "om_get (ps_pubsub_pattern s) ch = Some v"
  shows "distinct v \<and> (\<forall>fd \<in> set v. fd \<in> keys (ps_conns s) \<and> (\<exists>c. om_get (ps_objs s) fd = Some c \<and> pc_fd c = fd))"
proof -
  have ok: "ps_ok s" using conn_class.pubsub_run_ok [OF assms(1,2) PubSubThread_new_ok] .
  have v: "vec_of (ps_pubsub_pattern s) ch = v" using assms(3) by (simp add: vec_of_def)
  have "\<exists>c. om_get (ps_objs s) fd = Some c \<and> pc_fd c = fd" if "fd \<in> keys (ps_conns s)" for fd
    using ps_ok_obj [OF ok that] .
  moreover have "distinct v" "set v \<subseteq> keys (ps_conns s)" using ok v by (auto simp: ps_ok_def)
  ultimately show ?thesis by blast
qed

definition demo_conn :: "fd \<Rightarrow> pink_conn" where
  "demo_conn fd = PinkConn_new fd ''p'' (0, 0)"

lemma demo_subscribe:
  "\<exists>result s. Subscribe (demo_conn 3) [''a''] True PubSubThread_new = Some (result, s) \<and>
     om_get (ps_pubsub_pattern s) ''a'' = Some [3]"
  by (simp add: Subscribe_def ClientChannelSize_def subscribed_in_def PubSubThread_new_def thread.defs pubsub_MoveConnIn_def
      PinkItem_new_def demo_conn_def PinkConn_new_def subscribe_one_def Let_def om_get_def)

theorem pubsub_subscribers_known_witness:
  "\<exists>s :: unit pubsub. om_get (ps_pubsub_pattern s) ''a'' = Some [3] \<and>
     (\<forall>fd \<in> set [3]. fd \<in> keys (ps_conns s) \<and> (\<exists>c. om_get (ps_objs s) fd = Some c \<and> pc_fd c = fd))"
proof -
  obtain result and s :: "unit pubsub" where s: "Subscribe (demo_conn 3) [''a''] True PubSubThread_new = Some (result, s)"
    "om_get (ps_pubsub_pattern s) ''a'' = Some [3]"
    using demo_subscribe by blast
  have "pubsub_run instant_ops (=) PubSubThread_new s"
    using s(1) by (blast intro: pubsub_run.intros pubsub_step.intros)
  from pubsub_subscribers_known [OF instant.conn_class_axioms this s(2)] s(2) show ?thesis
    by (intro exI [of _ s]) simp
qed

text \<open>Subscribing returns, adds exactly the given channels to those of the connection, leaves every other
  connection's subscriptions alone, and reports after each channel the number of channels subscribed so far.\<close>

lemma subscribe_reports:
  assumes "ps_ok s" "length (pc_ip_port c) < 43"
  shows "\<exists>result s'. Subscribe c chs p s = Some (result, s') \<and> ps_ok s' \<and>
    patterns_of (pc_fd c) s' = patterns_of (pc_fd c) s \<union> set chs \<and>
    (\<forall>fd. fd \<noteq> pc_fd c \<longrightarrow> patterns_of fd s' = patterns_of fd s) \<and>
    result = map (\<lambda>k. (chs ! k, card (patterns_of (pc_fd c) s \<union> set (take (Suc k) chs)))) [0..<length chs]"
proof -
  obtain result s' where "Subscribe c chs p s = Some (result, s')"
    using assms(2) by (cases "Subscribe c chs p s") (auto simp: Subscribe_def pubsub_MoveConnIn_def PinkItem_new_def Let_def split: if_splits)
  with Subscribe_ok [OF assms(1) this] show ?thesis by blast
qed

lemma demo_conn_simps: "pc_fd (demo_conn fd) = fd" "length (pc_ip_port (demo_conn fd)) < 43"
  by (simp_all add: demo_conn_def PinkConn_new_def)

text \<open>C23: Unsubscribing from patterns returns, takes away exactly the given ones (all of them when none is given), reports
  how many are left, touches no other connection, and a connection without subscriptions leaves the thread.\<close>

theorem unsubscribe_exact:
  assumes "ps_ok s"
  shows "\<exists>n result s'. UnSubscribe fd channels True s = Some (n, result, s') \<and> ps_ok s' \<and>
    patterns_of fd s' = (if channels = [] then {} else patterns_of fd s - set channels) \<and> n = int (card (patterns_of fd s')) \<and>
    (\<forall>fd'. fd' \<noteq> fd \<longrightarrow> patterns_of fd' s' = patterns_of fd' s) \<and>
    (patterns_of fd s \<noteq> {} \<and> patterns_of fd s' = {} \<longrightarrow> fd \<notin> keys (ps_conns s') \<and> fd \<notin> watched (ps_epoll s'))"
  using UnSubscribe_returns [OF assms, of fd channels True] by simp

theorem unsubscribe_exact_witness:
  "\<exists>(s :: unit pubsub) s' n result. patterns_of 3 s = {''a''} \<and> UnSubscribe 3 [''a''] True s = Some (n, result, s') \<and>
     patterns_of 3 s' = {} \<and> 3 \<notin> keys (ps_conns s')"
proof -
  obtain result and s :: "unit pubsub" where s: "Subscribe (demo_conn 3) [''a''] True PubSubThread_new = Some (result, s)"
    using demo_subscribe by blast
  have "patterns_of 3 (PubSubThread_new :: unit pubsub) = {}" by (simp add: patterns_of_def PubSubThread_new_def thread.defs)
  then have "ps_ok s" "patterns_of 3 s = {''a''}"
    using Subscribe_ok [OF PubSubThread_new_ok s] by (simp_all add: demo_conn_simps)
  moreover obtain n result s' where u: "UnSubscribe 3 [''a''] True s = Some (n, result, s')"
    "patterns_of 3 s' = (if [''a''] = [] then {} else patterns_of 3 s - set [''a''])"
    "patterns_of 3 s \<noteq> {} \<and> patterns_of 3 s' = {} \<longrightarrow> 3 \<notin> keys (ps_conns s') \<and> 3 \<notin> watched (ps_epoll s')"
    using unsubscribe_exact [OF \<open>ps_ok s\<close>, of 3 "[''a'']"] by blast
  ultimately have "patterns_of 3 s' = {}" "3 \<notin> keys (ps_conns s')" by auto
  with u(1) \<open>patterns_of 3 s = {''a''}\<close> show ?thesis by blast
qed

text \<open>C21: Publishing, when every write completes, delivers the message once to every ready subscriber of every pattern
  that matches, in the order of the patterns and of their subscribers, changes nothing else of the thread's
  connections and subscriptions, and returns the number of deliveries.\<close>

theorem publish_delivers:
  assumes "ps_ok s" "deliver_all ops (ios True) channel msg (publish_receivers match channel s) (ps_objs s) = Some objs"
  shows "Publish ops match ios channel msg s = Some (int (length (publish_receivers match channel s)),
    s\<lparr>ps_objs := objs, ps_channel := [], ps_message := [], ps_receivers := -1\<rparr>)"
  using assms by (rule Publish_all)

definition demo_pubsub :: "unit pubsub" where
  "demo_pubsub = PubSubThread_new\<lparr>ps_objs := [(3, demo_conn 3), (4, demo_conn 4)], ps_conns := [(3, kReady), (4, kReady)],
     ps_pubsub_pattern := [(''a'', [3, 4])]\<rparr>"

lemma demo_pubsub_ok: "ps_ok demo_pubsub"
  by (auto simp: ps_ok_def demo_pubsub_def PubSubThread_new_def thread.defs ep_ok_def om_ok_def vec_of_def om_get_def
      conns_ok_def demo_conn_def PinkConn_new_def split: if_splits)

theorem publish_delivers_witness:
  "Publish instant_ops (=) (\<lambda>_ _ _. no_io) ''a'' ''hi'' demo_pubsub = Some (2, demo_pubsub)"
proof -
  have R: "publish_receivers (=) ''a'' demo_pubsub = [(''a'', 3), (''a'', 4)]"
    by (simp add: publish_receivers_def demo_pubsub_def IsReady_def om_get_def)
  have d: "deliver_all instant_ops (\<lambda>_ _. no_io) ''a'' ''hi'' [(''a'', 3), (''a'', 4)] (ps_objs demo_pubsub) = Some (ps_objs demo_pubsub)"
    by (simp add: demo_pubsub_def om_get_def instant_ops_def)
  show ?thesis
    using publish_delivers [OF demo_pubsub_ok, of instant_ops "\<lambda>_ _ _. no_io" "''a''" "''hi''" "(=)"] d
    by (simp add: R) (simp add: demo_pubsub_def PubSubThread_new_def thread.defs)
qed

text \<open>
  When a write of a publication fails, the connection is erased from the vector it is named by, so that the next
  subscriber moves into its place: that one is dropped and closed, and the broken one stays.
\<close>

definition broken_ops :: "unit conn_ops" where
  "broken_ops = instant_ops\<lparr>co_SendReply := (\<lambda>i c. Some (if pc_fd c = 3 then kWriteError else kWriteAll, c))\<rparr>"

lemma publish_error_closes_other:
  "\<exists>n s. Publish broken_ops (=) (\<lambda>_ _ _. no_io) ''a'' ''hi'' demo_pubsub = Some (n, s) \<and>
     ps_log s = [Close 4] \<and> keys (ps_conns s) = {3} \<and> n = 0"
  by (simp add: Publish_def publish_event_def publish_post_def publish_collect_def demo_pubsub_def PubSubThread_new_def thread.defs
      publish_vec.simps subs_def vec_of_def om_get_def IsReady_def publish_to_def broken_ops_def instant_ops_def demo_conn_def
      PinkConn_new_def pubsub_MoveConnOut_def RemoveConn_def set_subs_def PinkDelEvent_def om_del_def pubsub_CloseFd_def
      sys_close_def Let_def)

text \<open>The channel map stays empty, so the statistics over it never report anything.\<close>

lemma channels_never_listed:
  assumes "conn_class ops" "pubsub_run ops match PubSubThread_new s"
  shows "PubSubChannels match' pattern s = [] \<and> PubSubNumSub chs s = map (\<lambda>ch. (ch, 0)) chs"
  using conn_class.pubsub_run_ok [OF assms PubSubThread_new_ok] by (simp add: ps_ok_def PubSubChannels_def PubSubNumSub_def)

end
