(* ===== verification/Clients.thy ===== *)
theory Clients
  imports BackendThread Servers
begin

text \<open>
  The client and backend threads with the connection classes of the library: the interface \<open>out_server\<close> interpreted on
  redis and protobuf connections, and the properties of the two threads.
\<close>

interpretation pb_out: out_server "pb_ops deal" "pb_factory now u" for deal now u
  by unfold_locales (simp add: pb_factory_def PbConn_new_def pink_conn.defs PinkConn_new_def)

interpretation redis_out: out_server "redis_ops s2l app wv" "redis_factory now ht len u" for s2l app wv now ht len u
  by unfold_locales (simp add: redis_factory_def RedisConn_new_def pink_conn.defs PinkConn_new_def)

interpretation instant_out: out_server instant_ops instant_factory
  by unfold_locales (simp add: instant_factory_def PinkConn_new_def)

section \<open>The client thread\<close>



text \<open>A run: a message is queued, notified and read, the connection is made, and a second message is queued.\<close>

definition demo_parse :: "bytes \<Rightarrow> (bytes \<times> int) option" where
  "demo_parse n = (if n = ''h:80'' then Some (''h'', 80) else None)"

definition demo_client :: "('u, unit) pb_conn_ext client_thread" where
  "demo_client = ClientThread_new 0 0 (Some (\<lambda>ip. (True, ip))) None"

definition demo_addrs :: "addr_answer list option" where
  "demo_addrs = Some [\<lparr>aa_socket = Some 7, aa_connect = InProgress, aa_local = (''l'', 1)\<rparr>]"

lemma demo_peer: "peer ''h'' 80 = ''h:80''" "peer_name demo_parse ''h:80''"
proof -
  have "to_string 80 = ''80''" by code_simp
  then show p: "peer ''h'' 80 = ''h:80''" by (simp add: peer_def print_int_def)
  then show "peer_name demo_parse ''h:80''" by (simp add: peer_name_def demo_parse_def)
qed

lemma demo_client_run:
  "\<exists>s. (client_step (pb_ops deal) (pb_factory (0, 0) u) (\<lambda>_. (2, 0)) demo_parse)\<^sup>*\<^sup>* (demo_client, [], []) (s, [], [''h:80'']) \<and>
     om_get (ct_to_send s) ''h:80'' = Some [''n''] \<and> om_get (ct_fd_conns s) 7 = Some 0"
proof -
  let ?step = "client_step (pb_ops deal) (pb_factory (0, 0) u) (\<lambda>_. (2, 0)) demo_parse"
  let ?ti = "\<lparr>it_fd = 0, it_ip_port = ''h:80'', it_notify_type = kNotiWrite, it_conn = None\<rparr>"
  let ?s0 = "demo_client :: ('a, unit) pb_conn_ext client_thread"
  let ?s1 = "?s0\<lparr>ct_to_send := [(''h:80'', [''m''])]\<rparr>"
  let ?s2 = "?s1\<lparr>ot_epoll := \<lparr>ep_events = [], ep_pipe = [?ti]\<rparr>\<rparr>"
  note defs = demo_client_def ClientThread_new_def out_thread.defs OutThread_new_def thread.defs Thread_new_def
  have "queue_msg ''h'' 80 ''m'' ?s0 = Some (OK, ''h:80'', ?s1)" by (simp add: queue_msg_def demo_peer defs kConnWriteBuf_def)
  then have 1: "?step (?s0, [], []) (?s1, [], [''h:80''])" by (rule client_step.queue) (rule demo_peer)
  have "client_NotifyWrite ''h:80'' ?s1 = Some ?s2" by (simp add: client_NotifyWrite_def PinkItem_new_def Register_def defs)
  then have 2: "?step (?s1, [], [''h:80'']) (?s2, [], [])" using client_step.notify [of "''h:80''" "[''h:80'']" ?s1 ?s2] by simp
  have "read_items 64 (ot_epoll ?s2) = ([?ti], \<lparr>ep_events = [], ep_pipe = []\<rparr>)" by (simp add: read_items_def)
  then have 3: "?step (?s2, [], []) (?s1, [?ti], [])" using client_step.read [of ?s2 "[?ti]"] by (simp add: defs)
  obtain s4 where s4: "client_item (pb_ops deal) (pb_factory (0, 0) u) (\<lambda>_. (2, 0)) demo_parse demo_addrs ?ti ?s1 = Some s4"
    "om_get (ct_fd_conns s4) 7 = Some 0" "ct_to_send s4 = []" "ot_handle s4 = Some (\<lambda>ip. (True, ip))"
    by (simp add: client_item_def write_item_def ScheduleConnect_def demo_addrs_def demo_parse_def defs NewConnection_def pb_factory_def
        demo_peer om_add_def hand_over_def om_get_def om_del_def SetWaitConnectOnEpoll_def out_nonblock_def Setnonblocking_def Let_def)
  have 4: "?step (?s1, [?ti], []) (s4, [], [])"
    by (rule client_step.item [OF _ _ s4(1)]) (simp_all add: fresh_sockets_def demo_addrs_def defs close_current_def)
  have "queue_msg ''h'' 80 ''n'' s4 = Some (OK, ''h:80'', s4\<lparr>ct_to_send := [(''h:80'', [''n''])]\<rparr>)"
    using s4 by (simp add: queue_msg_def demo_peer kConnWriteBuf_def)
  then have 5: "?step (s4, [], []) (s4\<lparr>ct_to_send := [(''h:80'', [''n''])]\<rparr>, [], [''h:80''])" by (rule client_step.queue) (rule demo_peer)
  have "?step\<^sup>*\<^sup>* (?s0, [], []) (s4\<lparr>ct_to_send := [(''h:80'', [''n''])]\<rparr>, [], [''h:80''])"
    using converse_rtranclp_into_rtranclp [where r = ?step, OF 1 converse_rtranclp_into_rtranclp [where r = ?step, OF 2
        converse_rtranclp_into_rtranclp [where r = ?step, OF 3 converse_rtranclp_into_rtranclp [where r = ?step, OF 4
        r_into_rtranclp [where r = ?step, OF 5]]]]] .
  with s4 show ?thesis by (intro exI [of _ "s4\<lparr>ct_to_send := [(''h:80'', [''n''])]\<rparr>"]) (simp add: om_get_def)
qed



section \<open>The backend thread\<close>

text \<open>C39: A write is refused without any effect on what will be sent (the connection is unknown, the peer is barred, or more than
  100 MB are waiting); an accepted message is queued after the ones waiting for its connection, and handling its
  notification hands all of them to the connection in order, empties the queue and waits for the socket to be writable.\<close>

theorem backend_write_delivered:
  assumes "backend_ok s" "backend_Write fd msg s = Some (st, s')"
  shows "if st = OK
    then \<exists>c ti. om_get (bt_conns s) fd = Some c \<and> ep_pipe (ot_epoll s') = ep_pipe (ot_epoll s) @ [ti] \<and>
      queued_for s' = (queued_for s)(fd := queued_for s fd @ [msg]) \<and>
      (\<exists>s2. backend_item relock ops ti s' = Some s2 \<and> om_get (bt_conns s2) fd = Some (fold (co_WriteResp ops) (queued_for s fd @ [msg]) c) \<and>
         queued_for s2 = (queued_for s)(fd := []) \<and>
         (fd \<in> watched (ot_epoll s) \<longrightarrow> om_get (ep_events (ot_epoll s2)) fd = Some (EPOLLOUT OR EPOLLIN)))
    else ep_pipe (ot_epoll s') = ep_pipe (ot_epoll s) \<and> queued_for s' = queued_for s \<and> bt_conns s' = bt_conns s"
proof -
  obtain st1 s1 where q: "backend_queue fd msg s = Some (st1, s1)" using assms(2) by (auto simp: backend_Write_def split: option.splits)
  have ts: "om_ok (bt_to_send s)" "om_ok (bt_conns s)" using assms(1) by (simp_all add: backend_ok_def)
  note s1 = backend_queue_cases [OF ts(1) q]
  show ?thesis
  proof (cases "st1 = OK")
    case False
    with assms(2) q have "st = st1" "s' = s1" by (auto simp: backend_Write_def)
    with False s1 show ?thesis by simp
  next
    case True
    obtain ti where ti: "it_fd ti = fd" "it_notify_type ti = kNotiWrite"
      "backend_NotifyWrite fd s1 = Some (s1\<lparr>ot_epoll := (ot_epoll s1)\<lparr>ep_pipe := ep_pipe (ot_epoll s1) @ [ti]\<rparr>\<rparr>)"
      using backend_NotifyWrite_pipe by blast
    with assms(2) q True have s': "st = OK" "s' = s1\<lparr>ot_epoll := (ot_epoll s1)\<lparr>ep_pipe := ep_pipe (ot_epoll s1) @ [ti]\<rparr>\<rparr>"
      by (auto simp: backend_Write_def)
    obtain c where c: "om_get (bt_conns s) fd = Some c" using s1 True by auto
    let ?e = "snd (PinkModEvent fd 0 (EPOLLOUT OR EPOLLIN) (ot_epoll s'))"
    let ?s2 = "s'\<lparr>ot_epoll := ?e, bt_conns := om_ins fd (fold (co_WriteResp ops) (queued_for s fd @ [msg]) c) (bt_conns s'), bt_to_send := om_del fd (bt_to_send s')\<rparr>"
    have "backend_item relock ops ti s' = Some ?s2" using s1 True c ti s' by (simp add: backend_item_def)
    moreover have "om_get (bt_conns ?s2) fd = Some (fold (co_WriteResp ops) (queued_for s fd @ [msg]) c)"
      using s1 s' ts by (simp add: om.get_ins)
    moreover have "queued_for ?s2 = (queued_for s)(fd := [])" using s1 True s' by (auto simp: queued_for_def om_get_del fun_eq_iff)
    moreover have "fd \<in> watched (ot_epoll s) \<Longrightarrow> om_get (ep_events (ot_epoll ?s2)) fd = Some (EPOLLOUT OR EPOLLIN)"
      using get_mod_event [of "ot_epoll s'" fd 0 "EPOLLOUT OR EPOLLIN"] s1 s' assms(1) by (simp add: backend_ok_def)
    moreover have "queued_for s' = (queued_for s)(fd := queued_for s fd @ [msg])" using s1 True s' by (simp add: queued_for_def fun_eq_iff)
    ultimately show ?thesis using c s' s1 by auto
  qed
qed

theorem backend_write_delivered_witness:
  "\<exists>(s' :: unit backend_thread) ti s2. backend_Write 7 ''m''
       ((BackendThread_new 0 0 (Some (\<lambda>ip. (True, ip))) None)\<lparr>bt_conns := [(7, PinkConn_new 7 ''p'' (0, 0))], bt_to_send := [(7, [''a''])]\<rparr>) = Some (OK, s') \<and>
     ep_pipe (ot_epoll s') = [ti] \<and> backend_item True instant_ops ti s' = Some s2 \<and> queued_for s2 7 = []"
proof -
  let ?s = "(BackendThread_new 0 0 (Some (\<lambda>ip. (True, ip))) None)\<lparr>bt_conns := [(7, PinkConn_new 7 ''p'' (0, 0))], bt_to_send := [(7, [''a''])]\<rparr> :: unit backend_thread"
  note defs = BackendThread_new_def out_thread.defs OutThread_new_def thread.defs Thread_new_def
  have ok: "backend_ok ?s" by (simp add: backend_ok_def defs conns_ok_def om_ok_def ep_ok_def PinkConn_new_def)
  have "om_get (bt_conns ?s) 7 \<noteq> None" "ot_handle ?s = Some (\<lambda>ip. (True, ip))" "queued_for ?s 7 = [''a'']"
    by (simp_all add: defs om_get_def queued_for_def)
  then obtain s' where w: "backend_Write 7 ''m'' ?s = Some (OK, s')"
    using backend_NotifyWrite_pipe [of 7] by (fastforce simp: backend_Write_def backend_queue_def kConnWriteBuf_def Let_def)
  have "ep_pipe (ot_epoll ?s) = []" by (simp add: defs)
  with backend_write_delivered [OF ok w, of True instant_ops] w show ?thesis by auto
qed

end
