(* ===== verification/TaskQueue.thy ===== *)
theory TaskQueue
  imports ServerThread "HOL-Library.Multiset"
begin

text \<open>
  The task queue of the thread pool (\<^verbatim>\<open>TaskQueue\<close> in \<^verbatim>\<open>src/thread_pool.cc\<close>) and, with the same code, of the background
  thread (\<^verbatim>\<open>src/bg_thread.cc\<close>): a bounded queue of tasks and a priority queue of tasks with a time.

  What a thread does under the mutex, from taking it to releasing it or waiting, is one function.  Other
  threads do not see the state in between, except the stop flag, which is read without the mutex: a
  function takes the values it reads.  Among timed tasks of the same time the one pushed first is on top
  (the C++ standard leaves that open; no theorem uses it).

  The threads around a queue are the step relation \<open>tq_step\<close>: producers that wait for room, workers that
  wait for tasks, the wake-ups that the condition variables send, and the thread that stops them.  A
  thread that has decided to wait still holds the mutex, and begins to wait in a step of its own: the
  stop request, which does not take the mutex, can come in between.
\<close>

section \<open>The queue\<close>

record 'x task_queue =
  tq_queue :: "'x list"
  tq_timer :: "(64 word \<times> 'x) list"

definition TaskQueue_new :: "'x task_queue" where
  "TaskQueue_new = \<lparr>tq_queue = [], tq_timer = []\<rparr>"

definition QUEUE_CAP :: nat where
  "QUEUE_CAP = 63"

fun timer_push :: "64 word \<Rightarrow> 'x \<Rightarrow> (64 word \<times> 'x) list \<Rightarrow> (64 word \<times> 'x) list" where
  "timer_push t x [] = [(t, x)]"
| "timer_push t x ((t', x') # q) = (if t' \<le> t then (t', x') # timer_push t x q else (t, x) # (t', x') # q)"

definition micros :: "timeval \<Rightarrow> 64 word" where
  "micros now = word_of_int (fst now) * 1000000 + word_of_int (snd now)"

definition exec_time :: "timeval \<Rightarrow> 64 word \<Rightarrow> 64 word" where
  "exec_time now timeout = word_of_int (fst now) * 1000000 + timeout * 1000 + word_of_int (snd now)"

datatype schedule_result = Accepted | Refused | Must_wait

definition tq_Schedule :: "nat \<Rightarrow> bool \<Rightarrow> 'x \<Rightarrow> 'x task_queue \<Rightarrow> schedule_result \<times> 'x task_queue" where
  "tq_Schedule full stop x q =
     (if full \<le> length (tq_queue q) \<and> \<not> stop then (Must_wait, q)
      else if \<not> stop then (Accepted, q\<lparr>tq_queue := tq_queue q @ [x]\<rparr>)
      else (Refused, q))"

definition tq_DelaySchedule :: "bool \<Rightarrow> timeval \<Rightarrow> 64 word \<Rightarrow> 'x \<Rightarrow> 'x task_queue \<Rightarrow> bool \<times> 'x task_queue" where
  "tq_DelaySchedule stop now timeout x q =
     (if \<not> stop then (True, q\<lparr>tq_timer := timer_push (exec_time now timeout) x (tq_timer q)\<rparr>) else (False, q))"

text \<open>
  What a worker does next.  \<open>stop0\<close>, \<open>stop1\<close> and \<open>stop2\<close> are the values of \<^verbatim>\<open>should_stop()\<close> in the condition of the
  waiting loop, after it, and before the timed wait.
\<close>

datatype 'x run_result = Wait_signal | Wait_timer "32 word" | Run_timed "64 word" 'x | Run 'x | Leave | Leave_locked

definition due :: "timeval \<Rightarrow> 64 word \<Rightarrow> bool" where
  "due now t \<longleftrightarrow> t div 1000 \<le> micros now div 1000"

definition tq_RunOnce :: "bool \<Rightarrow> bool \<Rightarrow> bool \<Rightarrow> timeval \<Rightarrow> 'x task_queue \<Rightarrow> 'x run_result \<times> 'x task_queue" where
  "tq_RunOnce stop0 stop1 stop2 now q =
     (if tq_queue q = [] \<and> tq_timer q = [] \<and> \<not> stop0 then (Wait_signal, q)
      else if stop1 then (Leave, q)
      else if tq_timer q \<noteq> [] \<and> due now (fst (hd (tq_timer q))) then
        (Run_timed (fst (hd (tq_timer q))) (snd (hd (tq_timer q))), q\<lparr>tq_timer := tl (tq_timer q)\<rparr>)
      else if tq_timer q \<noteq> [] \<and> tq_queue q = [] \<and> \<not> stop2 then
        (Wait_timer (ucast ((fst (hd (tq_timer q)) - micros now) div 1000)), q)
      else if tq_queue q \<noteq> [] then (Run (hd (tq_queue q)), q\<lparr>tq_queue := tl (tq_queue q)\<rparr>)
      else (Leave_locked, q))"

section \<open>The threads around a queue\<close>

datatype 'x lock = Free | Worker_waits | Producer_waits 'x | Never_released

text \<open>What happened to tasks, in order.\<close>

datatype 'x task_event = Queued 'x | Timed "64 word" 'x | Ran 'x | Ran_timed timeval "64 word" 'x | Cleared

record 'x pool_state =
  po_tq :: "'x task_queue"
  po_lock :: "'x lock"
  po_stop :: bool
  po_blocked :: "'x list"
  po_woken :: "'x list"
  po_awake :: nat
  po_asleep :: nat
  po_timed :: nat
  po_gone :: nat
  po_log :: "'x task_event list"

definition pool_start :: "nat \<Rightarrow> 'x pool_state" where
  "pool_start n = \<lparr>po_tq = TaskQueue_new, po_lock = Free, po_stop = False, po_blocked = [], po_woken = [],
     po_awake = n, po_asleep = 0, po_timed = 0, po_gone = 0, po_log = []\<rparr>"

text \<open>Signals wake one waiting thread, which one is not determined: \<open>b\<close> and \<open>i\<close> choose.\<close>

definition signal_reader :: "bool \<Rightarrow> 'x pool_state \<Rightarrow> 'x pool_state" where
  "signal_reader b s =
     (if 0 < po_asleep s \<and> (b \<or> po_timed s = 0) then s\<lparr>po_asleep := po_asleep s - 1, po_awake := po_awake s + 1\<rparr>
      else if 0 < po_timed s then s\<lparr>po_timed := po_timed s - 1, po_awake := po_awake s + 1\<rparr>
      else s)"

definition signal_writer :: "nat \<Rightarrow> 'x pool_state \<Rightarrow> 'x pool_state" where
  "signal_writer i s =
     (if po_blocked s = [] then s
      else let k = i mod length (po_blocked s)
           in s\<lparr>po_woken := po_woken s @ [po_blocked s ! k], po_blocked := take k (po_blocked s) @ drop (Suc k) (po_blocked s)\<rparr>)"

definition signal_all :: "'x pool_state \<Rightarrow> 'x pool_state" where
  "signal_all s = s\<lparr>po_awake := po_awake s + po_asleep s + po_timed s, po_asleep := 0, po_timed := 0,
     po_woken := po_woken s @ po_blocked s, po_blocked := []\<rparr>"

definition log_event :: "'x task_event \<Rightarrow> 'x pool_state \<Rightarrow> 'x pool_state" where
  "log_event e s = s\<lparr>po_log := po_log s @ [e]\<rparr>"

definition produce :: "nat \<Rightarrow> bool \<Rightarrow> 'x \<Rightarrow> 'x pool_state \<Rightarrow> 'x pool_state" where
  "produce full b x s =
     (case tq_Schedule full (po_stop s) x (po_tq s) of
        (Accepted, q) \<Rightarrow> log_event (Queued x) (signal_reader b (s\<lparr>po_tq := q\<rparr>))
      | (Refused, q) \<Rightarrow> s
      | (Must_wait, q) \<Rightarrow> s\<lparr>po_lock := Producer_waits x\<rparr>)"

definition produce_timed :: "bool \<Rightarrow> timeval \<Rightarrow> 64 word \<Rightarrow> 'x \<Rightarrow> 'x pool_state \<Rightarrow> 'x pool_state" where
  "produce_timed b now timeout x s =
     (case tq_DelaySchedule (po_stop s) now timeout x (po_tq s) of
        (True, q) \<Rightarrow> log_event (Timed (exec_time now timeout) x) (signal_reader b (s\<lparr>po_tq := q\<rparr>))
      | (False, q) \<Rightarrow> s)"

definition work :: "nat \<Rightarrow> bool \<Rightarrow> bool \<Rightarrow> timeval \<Rightarrow> 'x pool_state \<Rightarrow> 'x pool_state" where
  "work i stop1 stop2 now s =
     (case tq_RunOnce (po_stop s) stop1 stop2 now (po_tq s) of
        (Wait_signal, q) \<Rightarrow> s\<lparr>po_lock := Worker_waits, po_awake := po_awake s - 1\<rparr>
      | (Wait_timer ms, q) \<Rightarrow> s\<lparr>po_awake := po_awake s - 1, po_timed := po_timed s + 1\<rparr>
      | (Run_timed t x, q) \<Rightarrow> log_event (Ran_timed now t x) (s\<lparr>po_tq := q\<rparr>)
      | (Run x, q) \<Rightarrow> log_event (Ran x) (signal_writer i (s\<lparr>po_tq := q\<rparr>))
      | (Leave, q) \<Rightarrow> s\<lparr>po_awake := po_awake s - 1, po_gone := po_gone s + 1\<rparr>
      | (Leave_locked, q) \<Rightarrow> s\<lparr>po_lock := Never_released, po_awake := po_awake s - 1, po_gone := po_gone s + 1\<rparr>)"

text \<open>\<open>bg\<close> tells the background thread, whose stop request signals one thread of each kind and which can be cleared.\<close>

inductive tq_step :: "bool \<Rightarrow> nat \<Rightarrow> 'x pool_state \<Rightarrow> 'x pool_state \<Rightarrow> bool" for bg full where
  schedule: "po_lock s = Free \<Longrightarrow> tq_step bg full s (produce full b x s)"
| retry: "po_lock s = Free \<Longrightarrow> po_woken s = xs @ x # ys \<Longrightarrow> tq_step bg full s (produce full b x (s\<lparr>po_woken := xs @ ys\<rparr>))"
| delay: "po_lock s = Free \<Longrightarrow> tq_step bg full s (produce_timed b now timeout x s)"
| run: "po_lock s = Free \<Longrightarrow> 0 < po_awake s \<Longrightarrow> (po_stop s \<longrightarrow> stop1) \<Longrightarrow> (stop1 \<longrightarrow> stop2) \<Longrightarrow>
    tq_step bg full s ((work i stop1 stop2 now s)\<lparr>po_stop := stop2\<rparr>)"
| producer_sleeps: "po_lock s = Producer_waits x \<Longrightarrow> tq_step bg full s (s\<lparr>po_lock := Free, po_blocked := po_blocked s @ [x]\<rparr>)"
| worker_sleeps: "po_lock s = Worker_waits \<Longrightarrow> tq_step bg full s (s\<lparr>po_lock := Free, po_asleep := po_asleep s + 1\<rparr>)"
| timeout: "0 < po_timed s \<Longrightarrow> tq_step bg full s (s\<lparr>po_timed := po_timed s - 1, po_awake := po_awake s + 1\<rparr>)"
| spurious_reader: "tq_step bg full s (signal_reader b s)"
| spurious_writer: "tq_step bg full s (signal_writer i s)"
| leave: "0 < po_awake s \<Longrightarrow> po_stop s \<Longrightarrow> tq_step bg full s (s\<lparr>po_awake := po_awake s - 1, po_gone := po_gone s + 1\<rparr>)"
| stop: "tq_step bg full s (s\<lparr>po_stop := True\<rparr>)"
| signal_stop: "\<not> bg \<Longrightarrow> po_stop s \<Longrightarrow> tq_step bg full s (signal_all s)"
| signal_stop_one: "bg \<Longrightarrow> po_stop s \<Longrightarrow> tq_step bg full s (signal_writer i (signal_reader b s))"
| clear: "bg \<Longrightarrow> po_lock s = Free \<Longrightarrow>
    tq_step bg full s (log_event Cleared (signal_writer i (s\<lparr>po_tq := TaskQueue_new\<rparr>)))"

inductive tq_run :: "bool \<Rightarrow> nat \<Rightarrow> 'x pool_state \<Rightarrow> 'x pool_state \<Rightarrow> bool" for bg full where
  tq_run_refl: "tq_run bg full s s"
| tq_run_step: "tq_run bg full s s' \<Longrightarrow> tq_step bg full s' s'' \<Longrightarrow> tq_run bg full s s''"

section \<open>Invariant\<close>

fun queued_tasks :: "'x task_event list \<Rightarrow> 'x list" where
  "queued_tasks [] = []"
| "queued_tasks (e # L) = (case e of Queued x \<Rightarrow> x # queued_tasks L | _ \<Rightarrow> queued_tasks L)"

fun ran_tasks :: "'x task_event list \<Rightarrow> 'x list" where
  "ran_tasks [] = []"
| "ran_tasks (e # L) = (case e of Ran x \<Rightarrow> x # ran_tasks L | _ \<Rightarrow> ran_tasks L)"

fun timed_tasks :: "'x task_event list \<Rightarrow> (64 word \<times> 'x) list" where
  "timed_tasks [] = []"
| "timed_tasks (e # L) = (case e of Timed t x \<Rightarrow> (t, x) # timed_tasks L | _ \<Rightarrow> timed_tasks L)"

fun ran_timed_tasks :: "'x task_event list \<Rightarrow> (64 word \<times> 'x) list" where
  "ran_timed_tasks [] = []"
| "ran_timed_tasks (e # L) = (case e of Ran_timed now t x \<Rightarrow> (t, x) # ran_timed_tasks L | _ \<Rightarrow> ran_timed_tasks L)"

lemma tasks_append [simp]:
  "queued_tasks (L @ L') = queued_tasks L @ queued_tasks L'"
  "ran_tasks (L @ L') = ran_tasks L @ ran_tasks L'"
  "timed_tasks (L @ L') = timed_tasks L @ timed_tasks L'"
  "ran_timed_tasks (L @ L') = ran_timed_tasks L @ ran_timed_tasks L'"
  by (induction L) (auto split: task_event.splits)

text \<open>The queue: its bound, the order of the timed tasks, and what became of the tasks so far.\<close>

definition queue_ok :: "nat \<Rightarrow> 'x pool_state \<Rightarrow> bool" where
  "queue_ok full s \<longleftrightarrow> length (tq_queue (po_tq s)) \<le> full \<and> sorted (map fst (tq_timer (po_tq s))) \<and>
     (Cleared \<notin> set (po_log s) \<longrightarrow>
        queued_tasks (po_log s) = ran_tasks (po_log s) @ tq_queue (po_tq s) \<and>
        mset (timed_tasks (po_log s)) = mset (ran_timed_tasks (po_log s)) + mset (tq_timer (po_tq s))) \<and>
     (\<forall>now t x. Ran_timed now t x \<in> set (po_log s) \<longrightarrow> due now t)"

text \<open>The threads: all workers are accounted for, and nobody sleeps while there is something to do.\<close>

definition threads_ok :: "nat \<Rightarrow> 'x pool_state \<Rightarrow> bool" where
  "threads_ok n s \<longleftrightarrow>
     po_awake s + po_asleep s + po_timed s + po_gone s + (if po_lock s = Worker_waits then 1 else 0) = n \<and>
     (po_lock s = Worker_waits \<longrightarrow> tq_queue (po_tq s) = [] \<and> tq_timer (po_tq s) = []) \<and>
     (\<forall>x. po_lock s = Producer_waits x \<longrightarrow> tq_queue (po_tq s) \<noteq> []) \<and>
     (\<not> po_stop s \<longrightarrow> po_gone s = 0 \<and> po_lock s \<noteq> Never_released \<and>
        (tq_queue (po_tq s) \<noteq> [] \<or> tq_timer (po_tq s) \<noteq> [] \<longrightarrow> 0 < po_awake s + po_timed s) \<and>
        (po_blocked s \<noteq> [] \<longrightarrow> tq_queue (po_tq s) \<noteq> [] \<or> po_woken s \<noteq> []))"

lemma signal_reader_frame [simp]:
  "po_tq (signal_reader b s) = po_tq s" "po_lock (signal_reader b s) = po_lock s" "po_stop (signal_reader b s) = po_stop s"
  "po_blocked (signal_reader b s) = po_blocked s" "po_woken (signal_reader b s) = po_woken s"
  "po_gone (signal_reader b s) = po_gone s" "po_log (signal_reader b s) = po_log s"
  "po_awake (signal_reader b s) + po_asleep (signal_reader b s) + po_timed (signal_reader b s) = po_awake s + po_asleep s + po_timed s"
  by (simp_all add: signal_reader_def)

lemma signal_reader_awake:
  "0 < po_awake s + po_timed s \<Longrightarrow> 0 < po_awake (signal_reader b s) + po_timed (signal_reader b s)"
  "0 < po_awake s + po_asleep s + po_timed s \<Longrightarrow> 0 < po_awake (signal_reader b s) + po_timed (signal_reader b s)"
  by (auto simp: signal_reader_def)

lemma signal_writer_frame [simp]:
  "po_tq (signal_writer i s) = po_tq s" "po_lock (signal_writer i s) = po_lock s" "po_stop (signal_writer i s) = po_stop s"
  "po_awake (signal_writer i s) = po_awake s" "po_asleep (signal_writer i s) = po_asleep s" "po_timed (signal_writer i s) = po_timed s"
  "po_gone (signal_writer i s) = po_gone s" "po_log (signal_writer i s) = po_log s"
  by (simp_all add: signal_writer_def Let_def)

lemma signal_writer_woken: "po_blocked (signal_writer i s) \<noteq> [] \<Longrightarrow> po_woken (signal_writer i s) \<noteq> []"
  by (auto simp: signal_writer_def Let_def split: if_splits)

lemma signal_writer_blocked: "po_blocked (signal_writer i s) \<noteq> [] \<Longrightarrow> po_blocked s \<noteq> []"
  by (auto simp: signal_writer_def)

lemma signal_all_frame [simp]:
  "po_tq (signal_all s) = po_tq s" "po_lock (signal_all s) = po_lock s" "po_stop (signal_all s) = po_stop s"
  "po_gone (signal_all s) = po_gone s" "po_log (signal_all s) = po_log s" "po_blocked (signal_all s) = []"
  "po_awake (signal_all s) = po_awake s + po_asleep s + po_timed s" "po_asleep (signal_all s) = 0" "po_timed (signal_all s) = 0"
  by (simp_all add: signal_all_def)

lemma log_event_frame [simp]:
  "po_tq (log_event e s) = po_tq s" "po_lock (log_event e s) = po_lock s" "po_stop (log_event e s) = po_stop s"
  "po_blocked (log_event e s) = po_blocked s" "po_woken (log_event e s) = po_woken s" "po_gone (log_event e s) = po_gone s"
  "po_awake (log_event e s) = po_awake s" "po_asleep (log_event e s) = po_asleep s" "po_timed (log_event e s) = po_timed s"
  "po_log (log_event e s) = po_log s @ [e]"
  by (simp_all add: log_event_def)

lemma timer_push_mset [simp]: "mset (timer_push t x q) = add_mset (t, x) (mset q)"
  by (induction t x q rule: timer_push.induct) auto

lemma timer_push_set [simp]: "set (timer_push t x q) = insert (t, x) (set q)"
  by (induction t x q rule: timer_push.induct) auto

lemma timer_push_nonempty [simp]: "timer_push t x q \<noteq> []"
  by (cases q) (auto split: if_splits)

lemma timer_push_sorted: "sorted (map fst q) \<Longrightarrow> sorted (map fst (timer_push t x q))"
  by (induction t x q rule: timer_push.induct) (auto simp: less_imp_le)

lemma produce_queue_ok: "queue_ok full s \<Longrightarrow> queue_ok full (produce full b x s)"
  by (auto simp: produce_def tq_Schedule_def queue_ok_def)

lemma produce_timed_queue_ok: "queue_ok full s \<Longrightarrow> queue_ok full (produce_timed b now timeout x s)"
  by (auto simp: produce_timed_def tq_DelaySchedule_def queue_ok_def timer_push_sorted)

lemma tq_RunOnce_cases:
  obtains "tq_RunOnce stop0 stop1 stop2 now q = (Wait_signal, q)" "tq_queue q = []" "tq_timer q = []" "\<not> stop0"
  | "tq_RunOnce stop0 stop1 stop2 now q = (Leave, q)" "stop1"
  | t x ts where "tq_RunOnce stop0 stop1 stop2 now q = (Run_timed t x, q\<lparr>tq_timer := ts\<rparr>)" "tq_timer q = (t, x) # ts" "due now t"
  | ms where "tq_RunOnce stop0 stop1 stop2 now q = (Wait_timer ms, q)" "tq_timer q \<noteq> []" "tq_queue q = []" "\<not> stop2"
  | x xs where "tq_RunOnce stop0 stop1 stop2 now q = (Run x, q\<lparr>tq_queue := xs\<rparr>)" "tq_queue q = x # xs"
      "tq_timer q = [] \<or> \<not> due now (fst (hd (tq_timer q)))"
  | "tq_RunOnce stop0 stop1 stop2 now q = (Leave_locked, q)" "stop0 \<or> stop2"
proof (cases "tq_timer q")
  case Nil
  then show ?thesis using that by (cases "tq_queue q"; cases stop0; cases stop1) (auto simp: tq_RunOnce_def)
next
  case (Cons p ts)
  then show ?thesis using that
    by (cases p; cases "tq_queue q"; cases stop1; cases stop2; cases "due now (fst p)") (auto simp: tq_RunOnce_def)
qed

lemma work_queue_ok: "queue_ok full s \<Longrightarrow> queue_ok full (work i stop1 stop2 now s)"
  by (rule tq_RunOnce_cases [of "po_stop s" stop1 stop2 now "po_tq s"]) (auto simp: work_def queue_ok_def)

lemma workers_exist:
  "threads_ok n s \<Longrightarrow> po_lock s = Free \<Longrightarrow> 0 < n \<Longrightarrow> \<not> po_stop s \<Longrightarrow> 0 < po_awake s + po_asleep s + po_timed s"
  by (auto simp: threads_ok_def)

lemma produce_threads_ok:
  assumes "threads_ok n s" "po_lock s = Free" "0 < full" "0 < n"
  shows "threads_ok n (produce full b x s)"
proof -
  let ?s = "s\<lparr>po_tq := po_tq s\<lparr>tq_queue := tq_queue (po_tq s) @ [x]\<rparr>\<rparr>"
  have "0 < po_awake (signal_reader b ?s) + po_timed (signal_reader b ?s)" if "\<not> po_stop s"
    using workers_exist [OF assms(1,2,4) that] by (intro signal_reader_awake(2)) simp
  with assms signal_reader_frame(8) [of b ?s] show ?thesis
    by (auto simp: produce_def tq_Schedule_def threads_ok_def)
qed

lemma produce_woken:
  assumes "threads_ok n s" "po_lock s = Free" "po_woken s = xs @ x # ys" "0 < full" "0 < n"
  shows "threads_ok n (produce full b x (s\<lparr>po_woken := xs @ ys\<rparr>))"
proof (cases "tq_Schedule full (po_stop s) x (po_tq s)")
  case (Pair r q)
  let ?s = "s\<lparr>po_woken := xs @ ys, po_tq := q\<rparr>"
  have "0 < po_awake (signal_reader b ?s) + po_timed (signal_reader b ?s)" if "\<not> po_stop s"
    using workers_exist [OF assms(1,2,5) that] by (intro signal_reader_awake(2)) simp
  with assms Pair signal_reader_frame(8) [of b ?s] show ?thesis
    by (auto simp: produce_def tq_Schedule_def threads_ok_def split: if_splits)
qed

lemma produce_timed_threads_ok:
  assumes "threads_ok n s" "po_lock s = Free" "0 < n"
  shows "threads_ok n (produce_timed b now timeout x s)"
proof -
  let ?s = "s\<lparr>po_tq := po_tq s\<lparr>tq_timer := timer_push (exec_time now timeout) x (tq_timer (po_tq s))\<rparr>\<rparr>"
  have "0 < po_awake (signal_reader b ?s) + po_timed (signal_reader b ?s)" if "\<not> po_stop s"
    using workers_exist [OF assms that] by (intro signal_reader_awake(2)) simp
  with assms signal_reader_frame(8) [of b ?s] show ?thesis
    by (auto simp: produce_timed_def tq_DelaySchedule_def threads_ok_def)
qed

lemma signal_writer_threads_ok: "threads_ok n s \<Longrightarrow> threads_ok n (signal_writer i s)"
  using signal_writer_woken [of i s] signal_writer_blocked [of i s] by (auto simp: threads_ok_def)

lemma signal_reader_threads_ok: "threads_ok n s \<Longrightarrow> threads_ok n (signal_reader b s)"
  using signal_reader_frame(8) [of b s] signal_reader_awake(1) [of s b] by (auto simp: threads_ok_def)

lemma work_threads_ok:
  assumes "threads_ok n s" "po_lock s = Free" "0 < po_awake s" "po_stop s \<longrightarrow> stop1" "stop1 \<longrightarrow> stop2"
  shows "threads_ok n ((work i stop1 stop2 now s)\<lparr>po_stop := stop2\<rparr>)"
  by (rule tq_RunOnce_cases [of "po_stop s" stop1 stop2 now "po_tq s"])
    (use assms signal_writer_woken in \<open>auto simp: work_def threads_ok_def\<close>)

lemma tq_step_ok:
  assumes "tq_step bg full s s'" "queue_ok full s" "threads_ok n s" "0 < full" "0 < n"
  shows "queue_ok full s' \<and> threads_ok n s'"
  using assms
proof (induction rule: tq_step.induct)
  case (schedule s b x)
  then show ?case by (simp add: produce_queue_ok produce_threads_ok)
next
  case (retry s xs x ys b)
  then have "queue_ok full (s\<lparr>po_woken := xs @ ys\<rparr>)" by (simp add: queue_ok_def)
  with retry show ?case by (simp add: produce_queue_ok produce_woken)
next
  case (delay s b now timeout x)
  then show ?case by (simp add: produce_timed_queue_ok produce_timed_threads_ok)
next
  case (run s stop1 stop2 i now)
  then have "queue_ok full (work i stop1 stop2 now s)" by (simp add: work_queue_ok)
  with run show ?case using work_threads_ok by (simp add: queue_ok_def)
next
  case (clear s i)
  then show ?case using signal_writer_woken [of i "s\<lparr>po_tq := TaskQueue_new\<rparr>"]
    by (auto simp: queue_ok_def threads_ok_def TaskQueue_new_def)
next
  case (signal_stop_one s i b)
  then show ?case by (simp add: signal_writer_threads_ok signal_reader_threads_ok) (simp add: queue_ok_def)
next
  case (spurious_reader s b)
  then show ?case by (simp add: signal_reader_threads_ok) (simp add: queue_ok_def)
next
  case (spurious_writer s i)
  then show ?case by (simp add: signal_writer_threads_ok) (simp add: queue_ok_def)
qed (auto simp: queue_ok_def threads_ok_def)

lemma pool_start_ok: "queue_ok full (pool_start n) \<and> threads_ok n (pool_start n)"
  by (simp add: queue_ok_def threads_ok_def pool_start_def TaskQueue_new_def)

lemma tq_run_ok:
  assumes "tq_run bg full s s'" "queue_ok full s" "threads_ok n s" "0 < full" "0 < n"
  shows "queue_ok full s' \<and> threads_ok n s'"
  using assms by (induction rule: tq_run.induct) (auto dest: tq_step_ok)

lemma reachable_ok:
  "tq_run bg full (pool_start n) s \<Longrightarrow> 0 < full \<Longrightarrow> 0 < n \<Longrightarrow> queue_ok full s \<and> threads_ok n s"
  using tq_run_ok pool_start_ok by blast

section \<open>Properties\<close>

text \<open>C24: In every interleaving of producers and workers, unless the queue is cleared, the tasks run so far are the first
  of those accepted, in the order of acceptance and once each, the rest are waiting in that order, timed tasks
  are run once or still waiting, and the queue never exceeds its capacity.\<close>

theorem tasks_run_once_in_order:
  assumes "tq_run bg full (pool_start n) s" "0 < full" "0 < n" "Cleared \<notin> set (po_log s)"
  shows "queued_tasks (po_log s) = ran_tasks (po_log s) @ tq_queue (po_tq s) \<and>
    mset (timed_tasks (po_log s)) = mset (ran_timed_tasks (po_log s)) + mset (tq_timer (po_tq s)) \<and>
    length (tq_queue (po_tq s)) \<le> full"
  using reachable_ok [OF assms(1-3)] assms(4) by (simp add: queue_ok_def)

lemma demo_tq:
  "\<exists>s. tq_run False QUEUE_CAP (pool_start 1) s \<and> po_log s = [Queued (7 :: nat), Ran 7] \<and> \<not> po_stop s"
proof -
  let ?s0 = "pool_start 1 :: nat pool_state" and ?s1 = "produce QUEUE_CAP True 7 (pool_start 1) :: nat pool_state"
  have "tq_run False QUEUE_CAP ?s0 ?s1"
    by (rule tq_run_step [OF tq_run_refl schedule]) (simp add: pool_start_def)
  moreover have "tq_step False QUEUE_CAP ?s1 ((work 0 False False (0, 0) ?s1)\<lparr>po_stop := False\<rparr>)"
    by (rule run) (simp_all add: produce_def tq_Schedule_def pool_start_def TaskQueue_new_def QUEUE_CAP_def signal_reader_def log_event_def)
  ultimately have "tq_run False QUEUE_CAP ?s0 ((work 0 False False (0, 0) ?s1)\<lparr>po_stop := False\<rparr>)" by (rule tq_run_step)
  then show ?thesis
    by (intro exI [of _ "(work 0 False False (0, 0) ?s1)\<lparr>po_stop := False\<rparr>"])
      (simp add: produce_def tq_Schedule_def pool_start_def TaskQueue_new_def QUEUE_CAP_def signal_reader_def log_event_def work_def
        tq_RunOnce_def signal_writer_def)
qed

theorem tasks_run_once_in_order_witness:
  "\<exists>s :: nat pool_state. po_log s = [Queued 7, Ran 7] \<and> queued_tasks (po_log s) = ran_tasks (po_log s) @ tq_queue (po_tq s)"
proof -
  obtain s :: "nat pool_state" where s: "tq_run False QUEUE_CAP (pool_start 1) s" "po_log s = [Queued 7, Ran 7]" using demo_tq by blast
  from tasks_run_once_in_order [OF s(1)] s(2) show ?thesis by (intro exI [of _ s]) (simp add: QUEUE_CAP_def)
qed

text \<open>C25: No wake-up is lost before a stop request: whenever tasks are waiting, some worker is not asleep (or sleeps only
  until the next timed task), and whenever a producer is blocked, a task is waiting or another producer was woken.\<close>

theorem no_lost_wakeup:
  assumes "tq_run bg full (pool_start n) s" "0 < full" "0 < n" "\<not> po_stop s"
  shows "(tq_queue (po_tq s) \<noteq> [] \<or> tq_timer (po_tq s) \<noteq> [] \<longrightarrow> 0 < po_awake s + po_timed s) \<and>
    (po_blocked s \<noteq> [] \<longrightarrow> po_woken s \<noteq> [] \<or> tq_queue (po_tq s) \<noteq> [] \<and> 0 < po_awake s + po_timed s)"
  using reachable_ok [OF assms(1-3)] assms(4) by (auto simp: threads_ok_def)

theorem no_lost_wakeup_witness:
  "\<exists>s :: nat pool_state. po_log s = [Queued 7, Ran 7] \<and>
     (tq_queue (po_tq s) \<noteq> [] \<or> tq_timer (po_tq s) \<noteq> [] \<longrightarrow> 0 < po_awake s + po_timed s)"
proof -
  obtain s :: "nat pool_state" where s: "tq_run False QUEUE_CAP (pool_start 1) s" "po_log s = [Queued 7, Ran 7]" "\<not> po_stop s"
    using demo_tq by blast
  from no_lost_wakeup [OF s(1) _ _ s(3)] s(2) show ?thesis by (intro exI [of _ s]) (simp add: QUEUE_CAP_def)
qed

text \<open>A timed task runs only when it is due, and before every timed task of a later time; a task of the queue runs only
  when no timed task is due; and a worker keeps the mutex only if a stop request arrives while it decides.\<close>

lemma RunOnce_order:
  assumes "sorted (map fst (tq_timer q))" "stop0 \<longrightarrow> stop1"
  shows "case tq_RunOnce stop0 stop1 stop2 now q of
      (Run_timed t x, q') \<Rightarrow> due now t \<and> (\<forall>(t', x') \<in> set (tq_timer q'). t \<le> t') \<and> tq_timer q = (t, x) # tq_timer q' \<and> tq_queue q' = tq_queue q
    | (Run x, q') \<Rightarrow> (\<forall>(t, x') \<in> set (tq_timer q). \<not> due now t) \<and> tq_queue q = x # tq_queue q' \<and> tq_timer q' = tq_timer q
    | (Leave_locked, q') \<Rightarrow> stop2 \<and> \<not> stop1 \<and> q' = q
    | (_, q') \<Rightarrow> q' = q"
proof -
  have later: "\<not> due now t'" if "\<not> due now (fst (hd (tq_timer q)))" "(t', x') \<in> set (tq_timer q)" for t' x'
  proof -
    from that(2) assms(1) have "fst (hd (tq_timer q)) \<le> t'" by (cases "tq_timer q") auto
    with that(1) show ?thesis by (auto simp: due_def word_le_nat_alt unat_div intro: order_trans div_le_mono)
  qed
  show ?thesis
    by (rule tq_RunOnce_cases [of stop0 stop1 stop2 now q])
      (use assms later in \<open>auto simp: tq_RunOnce_def split: if_splits\<close>)
qed

text \<open>A delayed task is never run early: when it is due, the delay has passed up to one millisecond, as long as the times
  fit 64 bits.\<close>

lemma delayed_not_early:
  fixes timeout :: nat
  assumes "0 \<le> s" "0 \<le> us" "0 \<le> s'" "0 \<le> us'"
    and "s * 1000000 + int timeout * 1000 + us < 2 ^ 64" "s' * 1000000 + us' < 2 ^ 64"
    and "due (s', us') (exec_time (s, us) (of_nat timeout))"
  shows "s * 1000000 + us + int timeout * 1000 < s' * 1000000 + us' + 1000"
proof -
  have e: "exec_time (s, us) (of_nat timeout) = word_of_int (s * 1000000 + int timeout * 1000 + us)"
    by (simp add: exec_time_def)
  have m: "micros (s', us') = word_of_int (s' * 1000000 + us')" by (simp add: micros_def)
  have small: "uint (word_of_int x :: 64 word) = x" if "0 \<le> x" "x < 2 ^ 64" for x
    using that by (simp add: uint_word_of_int)
  have "uint (word_of_int (s * 1000000 + int timeout * 1000 + us) :: 64 word) = s * 1000000 + int timeout * 1000 + us"
    by (rule small) (use assms in simp_all)
  moreover have "uint (word_of_int (s' * 1000000 + us') :: 64 word) = s' * 1000000 + us'"
    by (rule small) (use assms in simp_all)
  ultimately have "(s * 1000000 + int timeout * 1000 + us) div 1000 \<le> (s' * 1000000 + us') div 1000"
    using assms(7) unfolding due_def e m word_le_def uint_div by simp
  then show ?thesis by linarith
qed

section \<open>Stopping\<close>

text \<open>
  A stop request sets its flag and signals without taking the mutex.  A worker that has just found nothing to do
  and no stop request begins to wait after the signal: it sleeps although stopping was requested, and the
  thread that joins it waits for ever.
\<close>

lemma stop_can_be_missed:
  "\<exists>s :: nat pool_state. tq_run False full (pool_start 1) s \<and> po_stop s \<and> po_lock s = Free \<and>
     po_asleep s = 1 \<and> po_awake s = 0 \<and> po_timed s = 0 \<and> po_gone s = 0"
proof -
  let ?s0 = "pool_start 1 :: nat pool_state"
  let ?s1 = "(work 0 False False (0, 0) ?s0)\<lparr>po_stop := False\<rparr>"
  let ?s3 = "signal_all (?s1\<lparr>po_stop := True\<rparr>)"
  have a: "tq_step False full ?s0 ?s1" by (rule run) (simp_all add: pool_start_def)
  have b: "tq_step False full ?s1 (?s1\<lparr>po_stop := True\<rparr>)" by (rule stop)
  have c: "tq_step False full (?s1\<lparr>po_stop := True\<rparr>) ?s3" by (rule signal_stop) simp_all
  have d: "tq_step False full ?s3 (?s3\<lparr>po_lock := Free, po_asleep := po_asleep ?s3 + 1\<rparr>)"
    by (rule worker_sleeps) (simp add: work_def tq_RunOnce_def pool_start_def TaskQueue_new_def)
  have "tq_run False full ?s0 (?s3\<lparr>po_lock := Free, po_asleep := po_asleep ?s3 + 1\<rparr>)"
    by (rule tq_run_step [OF tq_run_step [OF tq_run_step [OF tq_run_step [OF tq_run_refl a] b] c] d])
  then show ?thesis
    by (intro exI [of _ "?s3\<lparr>po_lock := Free, po_asleep := po_asleep ?s3 + 1\<rparr>"]) (simp add: work_def tq_RunOnce_def pool_start_def TaskQueue_new_def)
qed

text \<open>
  A worker that finds only timed tasks, none of them due, and then a stop request, goes on without
  releasing the mutex.  No thread gets it again.
\<close>

lemma mutex_never_released:
  "\<exists>q :: nat task_queue. fst (tq_RunOnce False False True (0, 0) q) = Leave_locked"
  by (rule exI [of _ "\<lparr>tq_queue = [], tq_timer = [(5000, 1)]\<rparr>"]) (simp add: tq_RunOnce_def due_def micros_def)

lemma never_released_stays:
  assumes "tq_run bg full s s'" "po_lock s = Never_released"
  shows "po_lock s' = Never_released \<and> po_tq s' = po_tq s"
  using assms
proof (induction rule: tq_run.induct)
  case (tq_run_step s s' s'')
  from tq_run_step(2,3,4) show ?case by (cases rule: tq_step.cases) auto
qed simp

end
