(* ===== verification/ThreadPool.thy ===== *)
theory ThreadPool
  imports TaskQueue
begin

text \<open>
  The thread pool (\<^verbatim>\<open>include/thread_pool.h\<close>, \<^verbatim>\<open>src/thread_pool.cc\<close>) and the background thread (\<^verbatim>\<open>include/bg_thread.h\<close>,
  \<^verbatim>\<open>src/bg_thread.cc\<close>), over the task queue: starting and stopping, scheduling, and what the background
  thread still runs when it stops.  The pool has one queue (\<^verbatim>\<open>FakeCoreLocal\<close>).  \<open>tp_live\<close> counts the threads
  created and not joined.
\<close>

section \<open>Thread pool\<close>

record 'x thread_pool =
  tp_worker_num :: nat
  tp_thread_pool_name :: bytes
  tp_workers :: "bool list"
  tp_running :: bool
  tp_should_stop :: bool
  tp_tq :: "'x task_queue"
  tp_live :: nat

definition ThreadPool_new :: "nat \<Rightarrow> nat \<Rightarrow> bytes \<Rightarrow> 'x thread_pool" where
  "ThreadPool_new worker_num max_queue_size name = \<lparr>tp_worker_num = worker_num, tp_thread_pool_name = name, tp_workers = [],
     tp_running = False, tp_should_stop = False, tp_tq = TaskQueue_new, tp_live = 0\<rparr>"

text \<open>A worker is its flag \<^verbatim>\<open>start_\<close>; \<open>create\<close> and \<open>join\<close> are the results of \<^verbatim>\<open>pthread_create\<close> and \<^verbatim>\<open>pthread_join\<close>.\<close>

definition Worker_start :: "int \<Rightarrow> bool \<Rightarrow> int \<times> bool" where
  "Worker_start create start = (if \<not> start then (if create \<noteq> 0 then (-1, start) else (0, True)) else (0, start))"

definition Worker_stop :: "int \<Rightarrow> bool \<Rightarrow> int \<times> bool" where
  "Worker_stop join start = (if start then (if join \<noteq> 0 then (-1, start) else (0, False)) else (0, start))"

text \<open>The loop of \<^verbatim>\<open>start_thread_pool\<close>: a new worker goes to the end, and the worker at the loop index is started.\<close>

function start_loop :: "(nat \<Rightarrow> int) \<Rightarrow> nat \<Rightarrow> nat \<Rightarrow> bool list \<Rightarrow> RetCode \<times> bool list" where
  "start_loop create n i ws =
     (if i < n then
        let ws = ws @ [False]; (res, w) = Worker_start (create i) (ws ! i); ws = ws[i := w]
        in if res \<noteq> 0 then (kCreateThreadError, ws) else start_loop create n (Suc i) ws
      else (kSuccess, ws))"
  by pat_completeness auto
termination
  by (relation "measure (\<lambda>(create, n, i, ws). n - i)") auto

declare start_loop.simps [simp del]

definition live_threads :: "bool list \<Rightarrow> nat" where
  "live_threads ws = length (filter id ws)"

definition start_thread_pool :: "(nat \<Rightarrow> int) \<Rightarrow> 'x thread_pool \<Rightarrow> RetCode \<times> 'x thread_pool" where
  "start_thread_pool create tp =
     (if \<not> tp_running tp then
        let (r, ws) = start_loop create (tp_worker_num tp) 0 (tp_workers tp);
            tp = tp\<lparr>tp_should_stop := False, tp_workers := ws, tp_live := tp_live tp + (live_threads ws - live_threads (tp_workers tp))\<rparr>
        in (r, if r = kSuccess then tp\<lparr>tp_running := True\<rparr> else tp)
      else (kSuccess, tp))"

text \<open>The loop of \<^verbatim>\<open>stop_thread_pool\<close>: its result and how many threads were joined.\<close>

fun stop_loop :: "int list \<Rightarrow> bool list \<Rightarrow> int \<times> nat" where
  "stop_loop joins [] = (0, 0)"
| "stop_loop joins (w # ws) =
     (let (join, joins) = (if w then (hd joins, tl joins) else (0, joins)); (res, w') = Worker_stop join w
      in if res \<noteq> 0 then (res, 0)
         else let (r, k) = stop_loop joins ws in (r, k + (if w then 1 else 0)))"

definition stop_thread_pool :: "int list \<Rightarrow> 'x thread_pool \<Rightarrow> int \<times> 'x thread_pool" where
  "stop_thread_pool joins tp =
     (if tp_running tp then
        let (res, k) = stop_loop joins (tp_workers tp)
        in (res, tp\<lparr>tp_should_stop := True, tp_workers := [], tp_running := False, tp_live := tp_live tp - k\<rparr>)
      else (0, tp))"

definition pool_should_stop :: "'x thread_pool \<Rightarrow> bool" where
  "pool_should_stop tp = tp_should_stop tp"

definition pool_set_should_stop :: "'x thread_pool \<Rightarrow> 'x thread_pool" where
  "pool_set_should_stop tp = tp\<lparr>tp_should_stop := True\<rparr>"

definition pool_Schedule :: "'x \<Rightarrow> 'x thread_pool \<Rightarrow> schedule_result \<times> 'x thread_pool" where
  "pool_Schedule x tp = (let (r, q) = tq_Schedule QUEUE_CAP (tp_should_stop tp) x (tp_tq tp) in (r, tp\<lparr>tp_tq := q\<rparr>))"

definition pool_DelaySchedule :: "timeval \<Rightarrow> 64 word \<Rightarrow> 'x \<Rightarrow> 'x thread_pool \<Rightarrow> 'x thread_pool" where
  "pool_DelaySchedule now timeout x tp = tp\<lparr>tp_tq := snd (tq_DelaySchedule (tp_should_stop tp) now timeout x (tp_tq tp))\<rparr>"

definition cur_queue_size :: "'x thread_pool \<Rightarrow> nat" where
  "cur_queue_size tp = length (tq_queue (tp_tq tp))"

definition cur_time_queue_size :: "'x thread_pool \<Rightarrow> nat" where
  "cur_time_queue_size tp = length (tq_timer (tp_tq tp))"

section \<open>Background thread\<close>

record 'x bg_thread = thread +
  bg_tq :: "'x task_queue"
  bg_full :: nat

definition BGThread_new :: "int \<Rightarrow> 'x bg_thread" where
  "BGThread_new full = thread.extend Thread_new \<lparr>bg_tq = TaskQueue_new, bg_full = nat (full mod 2 ^ 64)\<rparr>"

definition bg_Schedule :: "'x \<Rightarrow> 'x bg_thread \<Rightarrow> schedule_result \<times> 'x bg_thread" where
  "bg_Schedule x b = (let (r, q) = tq_Schedule (bg_full b) (th_should_stop b) x (bg_tq b) in (r, b\<lparr>bg_tq := q\<rparr>))"

definition bg_DelaySchedule :: "timeval \<Rightarrow> 64 word \<Rightarrow> 'x \<Rightarrow> 'x bg_thread \<Rightarrow> 'x bg_thread" where
  "bg_DelaySchedule now timeout x b = b\<lparr>bg_tq := snd (tq_DelaySchedule (th_should_stop b) now timeout x (bg_tq b))\<rparr>"

definition QueueSize :: "'x bg_thread \<Rightarrow> nat \<times> nat" where
  "QueueSize b = (length (tq_timer (bg_tq b)), length (tq_queue (bg_tq b)))"

definition QueueClear :: "'x bg_thread \<Rightarrow> 'x bg_thread" where
  "QueueClear b = b\<lparr>bg_tq := \<lparr>tq_queue = [], tq_timer = []\<rparr>\<rparr>"

definition bg_StopThread :: "int \<Rightarrow> 'x bg_thread \<Rightarrow> int \<times> 'x bg_thread" where
  "bg_StopThread join b = Thread_StopThread join (b\<lparr>th_should_stop := True\<rparr>)"

text \<open>The tasks that \<^verbatim>\<open>SwallowReadyTasks\<close> runs, and what it leaves.\<close>

fun swallow_queue :: "'x list \<Rightarrow> 'x list" where
  "swallow_queue [] = []"
| "swallow_queue (x # q) = x # swallow_queue q"

fun swallow_timers :: "64 word \<Rightarrow> (64 word \<times> 'x) list \<Rightarrow> 'x list \<times> (64 word \<times> 'x) list" where
  "swallow_timers unow [] = ([], [])"
| "swallow_timers unow ((t, x) # q) =
     (if unow div 1000 < t div 1000 then ([], (t, x) # q)
      else let (xs, q') = swallow_timers unow q in (x # xs, q'))"

definition SwallowReadyTasks :: "timeval \<Rightarrow> 'x task_queue \<Rightarrow> 'x list \<times> 'x task_queue" where
  "SwallowReadyTasks now q =
     (let (xs, timers) = swallow_timers (micros now) (tq_timer q)
      in (swallow_queue (tq_queue q) @ xs, \<lparr>tq_queue = [], tq_timer = timers\<rparr>))"

text \<open>
  The loop of \<^verbatim>\<open>ThreadMain\<close>.  Before each turn other threads act on the queue (\<open>others\<close>); the turn itself is that of a
  worker.  The result is the tasks run, the queue, and whether the mutex is still held.
\<close>

type_synonym 'x turn = "('x task_queue \<Rightarrow> 'x task_queue) \<times> bool \<times> bool \<times> bool \<times> timeval"

fun bg_loop :: "'x turn list \<Rightarrow> 'x task_queue \<Rightarrow> 'x list \<times> 'x task_queue \<times> bool" where
  "bg_loop [] q = ([], q, False)"
| "bg_loop ((others, stop0, stop1, stop2, now) # turns) q =
     (case tq_RunOnce stop0 stop1 stop2 now (others q) of
        (Run x, q') \<Rightarrow> (let (xs, r) = bg_loop turns q' in (x # xs, r))
      | (Run_timed t x, q') \<Rightarrow> (let (xs, r) = bg_loop turns q' in (x # xs, r))
      | (Leave, q') \<Rightarrow> ([], q', False)
      | (Leave_locked, q') \<Rightarrow> ([], q', True)
      | (_, q') \<Rightarrow> bg_loop turns q')"

text \<open>\<open>None\<close>: \<^verbatim>\<open>SwallowReadyTasks\<close> waits for ever for the mutex.\<close>

definition bg_ThreadMain :: "'x turn list \<Rightarrow> timeval \<Rightarrow> 'x task_queue \<Rightarrow> ('x list \<times> 'x task_queue) option" where
  "bg_ThreadMain turns now q =
     (let (xs, q', locked) = bg_loop turns q
      in if locked then None else let (ys, q'') = SwallowReadyTasks now q' in Some (xs @ ys, q''))"

section \<open>Period thread\<close>

text \<open>\<^verbatim>\<open>PeriodThread::ThreadMain\<close> runs its task once, then sleeps for the period and ends.\<close>

definition PeriodThread_ThreadMain :: "('s \<Rightarrow> 's) \<Rightarrow> (timeval \<Rightarrow> 's \<Rightarrow> 's) \<Rightarrow> timeval \<Rightarrow> 's \<Rightarrow> 's" where
  "PeriodThread_ThreadMain PeriodMain select period s = select period (PeriodMain s)"

section \<open>Starting and stopping\<close>

lemma start_loop_all:
  assumes "\<forall>j. create j = 0" "take i ws = replicate i True" "i \<le> n" "i \<le> length ws"
  shows "start_loop create n i ws = (kSuccess, replicate n True @ drop n (ws @ replicate (n - i) False))"
  using assms(2-4)
proof (induction "n - i" arbitrary: i ws)
  case 0
  then have "i = n" by simp
  with 0 append_take_drop_id [of n ws] show ?case by (subst start_loop.simps) simp
next
  case (Suc k)
  let ?ws = "(ws @ [False])[i := True]"
  have i: "i < n" "k = n - Suc i" using Suc.hyps(2) by auto
  have w: "Worker_start (create i) b = (0, True)" for b by (simp add: Worker_start_def assms(1))
  have t: "take (Suc i) ?ws = replicate (Suc i) True" "Suc i \<le> length ?ws"
    using Suc.prems by (simp_all add: take_Suc_conv_app_nth replicate_append_same take_update_cancel)
  have d: "drop n (?ws @ replicate (n - Suc i) False) = drop n (ws @ replicate (n - i) False)"
  proof -
    have "?ws @ replicate (n - Suc i) False = ((ws @ [False]) @ replicate (n - Suc i) False)[i := True]"
      using Suc.prems by (simp add: list_update_append)
    moreover have "(ws @ [False]) @ replicate (n - Suc i) False = ws @ replicate (n - i) False"
      using i by (simp add: Suc_diff_Suc [symmetric])
    ultimately show ?thesis using i by (simp add: drop_update_cancel)
  qed
  from Suc.hyps(1) [OF i(2) t(1) _ t(2)] i d w show ?case by (subst start_loop.simps) (simp add: Let_def)
qed

lemma stop_loop_all:
  "set joins \<subseteq> {0} \<Longrightarrow> live_threads ws \<le> length joins \<Longrightarrow> stop_loop joins ws = (0, live_threads ws)"
proof (induction ws arbitrary: joins)
  case (Cons w ws)
  show ?case
  proof (cases w)
    case True
    with Cons.prems obtain js where j: "joins = 0 # js" by (cases joins) (auto simp: live_threads_def)
    with Cons True show ?thesis by (simp add: live_threads_def Worker_stop_def)
  next
    case False
    with Cons show ?thesis by (simp add: live_threads_def Worker_stop_def)
  qed
qed (simp add: live_threads_def)

lemma live_threads_replicate: "live_threads (replicate n True @ ws) = n + live_threads ws"
  by (simp add: live_threads_def)

lemma live_threads_drop: "live_threads ws \<le> n + live_threads (drop n (ws @ replicate k False))"
proof -
  have "live_threads ws \<le> live_threads (take n ws) + live_threads (drop n ws)"
    by (metis append_take_drop_id filter_append length_append live_threads_def order_refl)
  moreover have "live_threads (take n ws) \<le> n" using length_filter_le [of id "take n ws"] by (simp add: live_threads_def)
  moreover have "live_threads (drop n ws) \<le> live_threads (drop n (ws @ replicate k False))" by (simp add: live_threads_def)
  ultimately show ?thesis by linarith
qed



text \<open>A start that fails half-way leaves the pool not running with threads alive: stopping it does nothing.\<close>

lemma failed_start_leaves_threads:
  "\<exists>tp1 :: nat thread_pool. start_thread_pool (\<lambda>j. if j = 0 then 0 else 11) (ThreadPool_new 2 100 ''p'') = (kCreateThreadError, tp1) \<and>
     tp_live tp1 = 1 \<and> stop_thread_pool joins tp1 = (0, tp1)"
  by (simp add: start_thread_pool_def ThreadPool_new_def start_loop.simps Worker_start_def live_threads_def stop_thread_pool_def)

section \<open>Swallowing the rest\<close>

lemma swallow_queue_id [simp]: "swallow_queue q = q"
  by (induction q) auto

lemma swallow_timers_sorted:
  "sorted (map fst q) \<Longrightarrow> swallow_timers (micros now) q =
     (map snd (filter (\<lambda>p. due now (fst p)) q), filter (\<lambda>p. \<not> due now (fst p)) q)"
proof (induction q)
  case (Cons p q)
  show ?case
  proof (cases "due now (fst p)")
    case True
    with Cons show ?thesis by (cases p) (simp add: due_def not_less)
  next
    case False
    have "\<not> due now (fst p')" if "p' \<in> set q" for p'
    proof -
      have "fst p \<le> fst p'" using Cons.prems that by simp
      with False show ?thesis by (auto simp: due_def word_le_nat_alt unat_div intro: order_trans div_le_mono)
    qed
    then have "filter (\<lambda>p. due now (fst p)) q = []" "filter (\<lambda>p. \<not> due now (fst p)) q = q" by (simp_all add: filter_id_conv)
    with False show ?thesis by (cases p) (simp add: due_def not_le)
  qed
qed simp

text \<open>A background thread that stops still runs every queued task, in order, and then exactly the timed tasks that are due,
  in the order of their times; the others stay unrun.\<close>

lemma swallow_exact:
  assumes "sorted (map fst (tq_timer q))"
  shows "SwallowReadyTasks now q =
    (tq_queue q @ map snd (filter (\<lambda>p. due now (fst p)) (tq_timer q)),
     \<lparr>tq_queue = [], tq_timer = filter (\<lambda>p. \<not> due now (fst p)) (tq_timer q)\<rparr>)"
  by (simp add: SwallowReadyTasks_def swallow_timers_sorted [OF assms])

text \<open>Stopping the background thread wakes one blocked producer; a second one is never woken, since tasks run while
  stopping do not signal.\<close>

lemma stop_wakes_one_producer:
  "length (po_blocked s) = Suc (Suc k) \<Longrightarrow> length (po_blocked (signal_writer i (signal_reader b s))) = Suc k"
proof -
  assume len: "length (po_blocked s) = Suc (Suc k)"
  have "i mod Suc (Suc k) < Suc (Suc k)" by simp
  with len show ?thesis by (auto simp: signal_writer_def Let_def)
qed

text \<open>A stop request during the decision of a turn leaves the background thread waiting for its own mutex.\<close>

lemma stop_deadlocks: "bg_ThreadMain [(id, False, False, True, (0, 0))] now \<lparr>tq_queue = [], tq_timer = [(5000, x)]\<rparr> = None"
  by (simp add: bg_ThreadMain_def tq_RunOnce_def due_def micros_def)

end
