(* ===== verification/HttpHead.thy ===== *)
theory HttpHead
  imports Ordered_Map
begin

text \<open>
  What the two HTTP connection classes share (the same code stands in \<^verbatim>\<open>src/http_conn.cc\<close> and \<^verbatim>\<open>src/simple_http_conn.cc\<close>):
  the status codes, the character automaton that reads a request head, and the parameters of a query.

  A request of either class is an extension of the record \<open>http_head\<close>.  \<^verbatim>\<open>slash::StringToLower\<close> is the parameter
  \<open>lower\<close>.  The lemmas show that a head and a parameter string are read back as they were written.
\<close>

section \<open>Status codes\<close>

definition http_status_map :: "(int \<times> bytes) list" where
  "http_status_map = [
     (100, ''Continue''), (101, ''Switching Protocols''), (102, ''Processing''),
     (200, ''OK''), (201, ''Created''), (202, ''Accepted''), (203, ''Non-Authoritative Information''), (204, ''No Content''),
     (205, ''Reset Content''), (206, ''Partial Content''), (207, ''Multi-Status''),
     (400, ''Bad Request''), (401, ''Unauthorized''), (402, ''''), (403, ''Forbidden''), (404, ''Not Found''),
     (405, ''Method Not Allowed''), (406, ''Not Acceptable''), (407, ''Proxy Authentication Required''),
     (408, ''Request Timeout''), (409, ''Conflict''), (416, ''Requested Range not satisfiable''),
     (500, ''Internal Server Error''), (501, ''Not Implemented''), (502, ''Bad Gateway''), (503, ''Service Unavailable''),
     (504, ''Gateway Timeout''), (505, ''HTTP Version Not Supported''), (506, ''Variant Also Negotiates''),
     (507, ''Insufficient Storage''), (508, ''Bandwidth Limit Exceeded''), (509, ''Not Extended'')]"

definition status_code_ok :: "int \<Rightarrow> bool" where
  "status_code_ok code \<longleftrightarrow> 100 \<le> code \<and> code \<le> 102 \<or> 200 \<le> code \<and> code \<le> 207 \<or> 400 \<le> code \<and> code \<le> 409 \<or>
     code = 416 \<or> 500 \<le> code \<and> code \<le> 509"

section \<open>Request heads\<close>

type_synonym params = "(bytes, bytes) omap"

datatype HeadStatus = kHeaderMethod | kHeaderPath | kHeaderVersion | kHeaderParamKey | kHeaderParamValue

record http_head =
  hh_method :: bytes
  hh_url :: bytes
  hh_version :: bytes
  hh_headers :: params
  hh_query_params :: params
  hh_parse_status :: HeadStatus

text \<open>The position of the first line feed, or the size.\<close>

fun find_lf :: "bytes \<Rightarrow> nat \<Rightarrow> nat" where
  "find_lf data 0 = 0"
| "find_lf [] (Suc n) = Suc n"
| "find_lf (c # data) (Suc n) = (if c = LF then 0 else Suc (find_lf data n))"

text \<open>One character of a line; the parameter's key and value are local to the line.\<close>

definition head_char :: "(bytes \<Rightarrow> bytes) \<Rightarrow> char \<Rightarrow> bytes \<times> bytes \<times> 'a http_head_scheme \<Rightarrow> bytes \<times> bytes \<times> 'a http_head_scheme" where
  "head_char lower c = (\<lambda>(key, val, h).
     case hh_parse_status h of
       kHeaderMethod \<Rightarrow>
         if c \<noteq> CHR '' '' then (key, val, h\<lparr>hh_method := hh_method h @ [c]\<rparr>) else (key, val, h\<lparr>hh_parse_status := kHeaderPath\<rparr>)
     | kHeaderPath \<Rightarrow>
         if c \<noteq> CHR '' '' then (key, val, h\<lparr>hh_url := hh_url h @ [c]\<rparr>) else (key, val, h\<lparr>hh_parse_status := kHeaderVersion\<rparr>)
     | kHeaderVersion \<Rightarrow>
         if c \<noteq> CR \<and> c \<noteq> LF then (key, val, h\<lparr>hh_version := hh_version h @ [c]\<rparr>)
         else if c = LF then (key, val, h\<lparr>hh_parse_status := kHeaderParamKey\<rparr>) else (key, val, h)
     | kHeaderParamKey \<Rightarrow>
         if c \<noteq> CHR '':'' \<and> c \<noteq> CHR '' '' then (key @ [c], val, h)
         else if c = CHR '' '' then (key, val, h\<lparr>hh_parse_status := kHeaderParamValue\<rparr>) else (key, val, h)
     | kHeaderParamValue \<Rightarrow>
         if c \<noteq> CR \<and> c \<noteq> LF then (key, val @ [c], h)
         else if c = CR then
           (key, val, h\<lparr>hh_headers := om_ins (lower key) val (hh_headers h), hh_parse_status := kHeaderParamKey\<rparr>)
         else (key, val, h))"

definition ParseHeadLine :: "(bytes \<Rightarrow> bytes) \<Rightarrow> bytes \<Rightarrow> nat \<Rightarrow> nat \<Rightarrow> 'a http_head_scheme \<Rightarrow> 'a http_head_scheme" where
  "ParseHeadLine lower data line_start line_end h =
     snd (snd (fold (head_char lower) (take (line_end + 1 - line_start) (drop line_start data)) ([], [], h)))"

text \<open>The loop over the lines: \<open>remain_size\<close> bytes are left, the last four of which end the head.\<close>

function head_loop :: "(bytes \<Rightarrow> bytes) \<Rightarrow> bytes \<Rightarrow> nat \<Rightarrow> int \<Rightarrow> 'a http_head_scheme \<Rightarrow> 'a http_head_scheme" where
  "head_loop lower data line_start remain_size h =
     (if remain_size > 4 then
        let line_end = line_start + find_lf (drop line_start data) (nat remain_size);
            h = ParseHeadLine lower data line_start line_end h
        in head_loop lower data (line_end + 1) (remain_size - (int line_end - int line_start + 1)) h
      else h)"
  by pat_completeness auto
termination
  by (relation "measure (\<lambda>(lower, data, line_start, remain_size, h). nat remain_size)") auto

declare head_loop.simps [simp del]

section \<open>Parameters\<close>

text \<open>\<^verbatim>\<open>std::string::find\<close> from a position, with the size for \<^verbatim>\<open>npos\<close>, and \<^verbatim>\<open>substr\<close>.\<close>

definition find_from :: "char \<Rightarrow> bytes \<Rightarrow> nat \<Rightarrow> nat" where
  "find_from c data pre = (case find_pos ((=) c) (drop pre data) of None \<Rightarrow> length data | Some i \<Rightarrow> pre + i)"

definition substr :: "bytes \<Rightarrow> nat \<Rightarrow> nat \<Rightarrow> bytes" where
  "substr data pos n = take n (drop pos data)"

function params_loop :: "bytes \<Rightarrow> nat \<Rightarrow> params \<Rightarrow> params" where
  "params_loop data pre m =
     (if pre < length data then
        let mid = find_from (CHR ''='') data pre; end' = find_from (CHR ''&'') data pre
        in if end' \<le> mid then params_loop data (end' + 1) (om_ins (substr data pre (end' - pre)) [] m)
           else params_loop data (end' + 1) (om_ins (substr data pre (mid - pre)) (substr data (mid + 1) (end' - mid - 1)) m)
      else m)"
  by pat_completeness auto
termination
  by (relation "measure (\<lambda>(data, pre, m). length data - pre)") (auto simp: find_from_def split: option.splits)

declare params_loop.simps [simp del]

text \<open>The position of a substring.\<close>

fun find_sub :: "bytes \<Rightarrow> bytes \<Rightarrow> nat option" where
  "find_sub pat s =
     (if take (length pat) s = pat then Some 0
      else case s of [] \<Rightarrow> None | c # s' \<Rightarrow> map_option Suc (find_sub pat s'))"

declare find_sub.simps [simp del]

text \<open>\<^verbatim>\<open>strstr\<close> on a buffer that is terminated after its contents: a NUL byte ends the search.\<close>

definition strstr :: "bytes \<Rightarrow> bytes \<Rightarrow> nat option" where
  "strstr buf pat = find_sub pat (cstr buf)"

definition header_end :: bytes where
  "header_end = CRLF @ CRLF"

section \<open>Reading back a head\<close>

definition header_line :: "bytes \<times> bytes \<Rightarrow> bytes" where
  "header_line = (\<lambda>(k, v). k @ '': '' @ v @ CRLF)"

definition render_head :: "bytes \<Rightarrow> bytes \<Rightarrow> bytes \<Rightarrow> (bytes \<times> bytes) list \<Rightarrow> bytes" where
  "render_head method url version hs =
     (method @ '' '' @ url @ '' '' @ version @ CRLF) @ concat (map header_line hs) @ CRLF"

definition header_ok :: "bytes \<times> bytes \<Rightarrow> bool" where
  "header_ok = (\<lambda>(k, v). set k \<inter> {CHR '' '', CHR '':'', LF, NUL} = {} \<and> set v \<inter> {CR, LF, NUL} = {})"

definition head_ok :: "bytes \<Rightarrow> bytes \<Rightarrow> bytes \<Rightarrow> (bytes \<times> bytes) list \<Rightarrow> bool" where
  "head_ok method url version hs \<longleftrightarrow> set method \<inter> {CHR '' '', LF, NUL} = {} \<and> set url \<inter> {CHR '' '', LF, NUL} = {} \<and>
     set version \<inter> {CR, LF, NUL} = {} \<and> (\<forall>h \<in> set hs. header_ok h)"

lemma fold_method:
  "CHR '' '' \<notin> set s \<Longrightarrow> hh_parse_status h = kHeaderMethod \<Longrightarrow>
   fold (head_char lower) s (k, v, h) = (k, v, h\<lparr>hh_method := hh_method h @ s\<rparr>)"
  by (induction s arbitrary: h) (auto simp: head_char_def)

lemma fold_url:
  "CHR '' '' \<notin> set s \<Longrightarrow> hh_parse_status h = kHeaderPath \<Longrightarrow>
   fold (head_char lower) s (k, v, h) = (k, v, h\<lparr>hh_url := hh_url h @ s\<rparr>)"
  by (induction s arbitrary: h) (auto simp: head_char_def)

lemma fold_version:
  "CR \<notin> set s \<Longrightarrow> LF \<notin> set s \<Longrightarrow> hh_parse_status h = kHeaderVersion \<Longrightarrow>
   fold (head_char lower) s (k, v, h) = (k, v, h\<lparr>hh_version := hh_version h @ s\<rparr>)"
  by (induction s arbitrary: h) (auto simp: head_char_def)

lemma fold_key:
  "CHR '' '' \<notin> set s \<Longrightarrow> CHR '':'' \<notin> set s \<Longrightarrow> hh_parse_status h = kHeaderParamKey \<Longrightarrow>
   fold (head_char lower) s (k, v, h) = (k @ s, v, h)"
  by (induction s arbitrary: k) (auto simp: head_char_def)

lemma fold_value:
  "CR \<notin> set s \<Longrightarrow> LF \<notin> set s \<Longrightarrow> hh_parse_status h = kHeaderParamValue \<Longrightarrow>
   fold (head_char lower) s (k, v, h) = (k, v @ s, h)"
  by (induction s arbitrary: v) (auto simp: head_char_def)

lemma first_line:
  assumes "set method \<inter> {CHR '' '', LF, NUL} = {}" "set url \<inter> {CHR '' '', LF, NUL} = {}" "set version \<inter> {CR, LF, NUL} = {}"
    and "hh_parse_status h = kHeaderMethod"
  shows "snd (snd (fold (head_char lower) (method @ '' '' @ url @ '' '' @ version @ CRLF) ([], [], h))) =
    h\<lparr>hh_method := hh_method h @ method, hh_url := hh_url h @ url, hh_version := hh_version h @ version, hh_parse_status := kHeaderParamKey\<rparr>"
  using assms by (simp add: fold_method fold_url fold_version head_char_def)

lemma param_line:
  assumes "header_ok (key, val)" "hh_parse_status h = kHeaderParamKey"
  shows "snd (snd (fold (head_char lower) (header_line (key, val)) ([], [], h))) = h\<lparr>hh_headers := om_ins (lower key) val (hh_headers h)\<rparr>"
  using assms by (simp add: header_ok_def header_line_def fold_key fold_value head_char_def)

lemma find_lf_line: "LF \<notin> set l \<Longrightarrow> length l < n \<Longrightarrow> find_lf (l @ LF # r) n = length l"
proof (induction l arbitrary: n)
  case Nil
  then show ?case by (cases n) auto
next
  case (Cons c l)
  then show ?case by (cases n) auto
qed

lemma head_loop_line:
  assumes "LF \<notin> set l" "4 < remain" "int (length l) < remain"
  shows "head_loop lower (pre @ (l @ [LF]) @ rest) (length pre) remain h =
    head_loop lower (pre @ (l @ [LF]) @ rest) (length (pre @ l @ [LF])) (remain - int (length (l @ [LF])))
      (snd (snd (fold (head_char lower) (l @ [LF]) ([], [], h))))"
proof -
  have "find_lf (drop (length pre) (pre @ (l @ [LF]) @ rest)) (nat remain) = length l"
    using assms by (simp add: find_lf_line)
  then show ?thesis using assms(2) by (subst head_loop.simps) (simp add: ParseHeadLine_def add.commute)
qed

lemma head_loop_params:
  assumes "\<forall>h \<in> set hs. header_ok h" "hh_parse_status h = kHeaderParamKey"
  shows "head_loop lower (pre @ concat (map header_line hs) @ CRLF @ rest) (length pre)
      (int (length (concat (map header_line hs) @ CRLF))) h =
    h\<lparr>hh_headers := fold (\<lambda>(k, v). om_ins (lower k) v) hs (hh_headers h)\<rparr>"
  using assms
proof (induction hs arbitrary: pre h)
  case Nil
  then show ?case by (subst head_loop.simps) simp
next
  case (Cons kv hs)
  obtain k v where kv: "kv = (k, v)" by (cases kv)
  let ?l = "k @ '': '' @ v @ [CR]" and ?rest = "concat (map header_line hs) @ CRLF @ rest"
  have l: "header_line kv = ?l @ [LF]" by (simp add: kv header_line_def)
  have ok: "header_ok (k, v)" using Cons.prems(1) kv by simp
  let ?h = "h\<lparr>hh_headers := om_ins (lower k) v (hh_headers h)\<rparr>"
  have "LF \<notin> set ?l" using ok by (auto simp: header_ok_def)
  from head_loop_line [OF this, of "int (length (concat (map header_line (kv # hs)) @ CRLF))" lower pre ?rest h]
  have "head_loop lower (pre @ (?l @ [LF]) @ ?rest) (length pre) (int (length (concat (map header_line (kv # hs)) @ CRLF))) h =
    head_loop lower ((pre @ ?l @ [LF]) @ ?rest) (length (pre @ ?l @ [LF])) (int (length (concat (map header_line hs) @ CRLF))) ?h"
    using param_line [OF ok Cons.prems(2), of lower] l kv by (simp add: header_line_def)
  also have "\<dots> = ?h\<lparr>hh_headers := fold (\<lambda>(k, v). om_ins (lower k) v) hs (hh_headers ?h)\<rparr>"
    using Cons.IH [of ?h "pre @ ?l @ [LF]"] Cons.prems by simp
  finally show ?case by (simp add: kv header_line_def)
qed

lemma head_loop_render:
  assumes "head_ok method url version hs" "hh_parse_status h = kHeaderMethod"
  shows "head_loop lower (render_head method url version hs @ rest) 0 (int (length (render_head method url version hs))) h =
    h\<lparr>hh_method := hh_method h @ method, hh_url := hh_url h @ url, hh_version := hh_version h @ version,
      hh_parse_status := kHeaderParamKey, hh_headers := fold (\<lambda>(k, v). om_ins (lower k) v) hs (hh_headers h)\<rparr>"
proof -
  let ?l = "method @ '' '' @ url @ '' '' @ version @ [CR]"
  let ?rest = "concat (map header_line hs) @ CRLF @ rest"
  let ?h = "h\<lparr>hh_method := hh_method h @ method, hh_url := hh_url h @ url, hh_version := hh_version h @ version,
      hh_parse_status := kHeaderParamKey\<rparr>"
  have "LF \<notin> set ?l" using assms(1) by (auto simp: head_ok_def)
  from head_loop_line [OF this, of "int (length (render_head method url version hs))" lower "[]" ?rest h]
  have "head_loop lower (render_head method url version hs @ rest) 0 (int (length (render_head method url version hs))) h =
    head_loop lower ((?l @ [LF]) @ ?rest) (length (?l @ [LF])) (int (length (concat (map header_line hs) @ CRLF))) ?h"
    using first_line [of "method" url version h lower] assms by (simp add: render_head_def head_ok_def)
  also have "\<dots> = ?h\<lparr>hh_headers := fold (\<lambda>(k, v). om_ins (lower k) v) hs (hh_headers ?h)\<rparr>"
    using head_loop_params [of hs ?h lower "?l @ [LF]" rest] assms(1) by (simp add: head_ok_def)
  finally show ?thesis by simp
qed

section \<open>The end of a head\<close>

lemma length_header_end [simp]: "length header_end = 4"
  by (simp add: header_end_def)

lemma find_sub_miss: "take (length pat) (c # s) \<noteq> pat \<Longrightarrow> find_sub pat (c # s) = map_option Suc (find_sub pat s)"
  by (subst find_sub.simps) simp

lemma find_sub_hit: "find_sub pat (pat @ t) = Some 0"
  by (subst find_sub.simps) simp

lemma find_sub_line:
  assumes "LF \<notin> set l" "take 2 t \<noteq> CRLF"
  shows "find_sub header_end (l @ CRLF @ t) = map_option (\<lambda>i. length l + 2 + i) (find_sub header_end t)"
  using assms(1)
proof (induction l)
  case Nil
  have "take (length header_end) (CR # LF # t) \<noteq> header_end" "take (length header_end) (LF # t) \<noteq> header_end"
    using assms(2) by (auto simp: header_end_def numeral_2_eq_2)
  then show ?case by (simp add: find_sub_miss option.map_comp comp_def del: length_header_end)
next
  case (Cons c l)
  have "take (length header_end) (c # l @ CRLF @ t) \<noteq> header_end" using Cons.prems by (cases l) (auto simp: header_end_def)
  with Cons show ?case by (simp add: find_sub_miss option.map_comp comp_def del: length_header_end)
qed

lemma find_sub_end:
  assumes "LF \<notin> set l"
  shows "find_sub header_end (l @ header_end @ t) = Some (length l)"
  using assms
proof (induction l)
  case (Cons c l)
  have "take (length header_end) (c # l @ header_end @ t) \<noteq> header_end" using Cons.prems by (cases l) (auto simp: header_end_def)
  with Cons show ?case by (simp add: find_sub_miss del: length_header_end)
qed (simp add: find_sub_hit)

lemma find_sub_headers:
  assumes "\<forall>h \<in> set hs. header_ok h" "LF \<notin> set l"
  shows "find_sub header_end (l @ CRLF @ concat (map header_line hs) @ CRLF @ t) =
    Some (length (l @ CRLF @ concat (map header_line hs) @ CRLF) - 4)"
  using assms
proof (induction hs arbitrary: l)
  case Nil
  then show ?case using find_sub_end [of l t] by (simp add: header_end_def)
next
  case (Cons kv hs)
  obtain k v where kv: "kv = (k, v)" by (cases kv)
  let ?l = "k @ '': '' @ v"
  have ok: "header_ok (k, v)" using Cons.prems(1) kv by simp
  have lf: "LF \<notin> set ?l" using ok by (auto simp: header_ok_def)
  have nl: "take 2 (header_line kv @ concat (map header_line hs) @ CRLF @ t) \<noteq> CRLF"
    using ok by (cases k; cases "tl k") (auto simp: header_ok_def header_line_def kv)
  have "find_sub header_end (l @ CRLF @ concat (map header_line (kv # hs)) @ CRLF @ t) =
    map_option (\<lambda>i. length l + 2 + i) (find_sub header_end (?l @ CRLF @ concat (map header_line hs) @ CRLF @ t))"
    using find_sub_line [OF Cons.prems(2) nl] by (simp add: kv header_line_def)
  also have "\<dots> = Some (length l + 2 + (length (?l @ CRLF @ concat (map header_line hs) @ CRLF) - 4))"
    using Cons.IH [OF _ lf] Cons.prems(1) by simp
  finally show ?case by (simp add: kv header_line_def)
qed

lemma cstr_id: "NUL \<notin> set s \<Longrightarrow> cstr s = s"
  unfolding cstr_def by (rule takeWhile_eq_all_conv [THEN iffD2]) blast

lemma cstr_append: "NUL \<notin> set a \<Longrightarrow> cstr (a @ b) = a @ cstr b"
  by (induction a) (auto simp: cstr_def)

lemma render_head_no_NUL: "head_ok method url version hs \<Longrightarrow> NUL \<notin> set (render_head method url version hs)"
  by (fastforce simp: head_ok_def render_head_def header_line_def header_ok_def)

lemma strstr_head:
  assumes "head_ok method url version hs"
  shows "strstr (render_head method url version hs @ rest) header_end = Some (length (render_head method url version hs) - 4)"
proof -
  let ?l = "method @ '' '' @ url @ '' '' @ version"
  have "LF \<notin> set ?l" using assms by (auto simp: head_ok_def)
  from find_sub_headers [OF _ this, of hs "cstr rest"] assms
  show ?thesis by (simp add: strstr_def cstr_append render_head_no_NUL) (simp add: head_ok_def render_head_def)
qed

lemma length_render_head: "6 \<le> length (render_head method url version hs)"
  by (simp add: render_head_def)

text \<open>Before the head is complete its end is not found.\<close>

lemma find_sub_bound: "find_sub pat s = Some i \<Longrightarrow> i + length pat \<le> length s \<and> take (length pat) (drop i s) = pat"
proof (induction s arbitrary: i)
  case Nil
  then show ?case by (subst (asm) find_sub.simps) (auto split: if_splits)
next
  case (Cons c s)
  show ?case
  proof (cases "take (length pat) (c # s) = pat")
    case True
    with Cons.prems have "i = 0" by (subst (asm) find_sub.simps) simp
    moreover have "length pat \<le> length (c # s)" using True by (metis length_take min.cobounded1)
    ultimately show ?thesis using True by simp
  next
    case False
    with Cons.prems obtain j where "find_sub pat s = Some j" "i = Suc j" by (subst (asm) find_sub.simps) auto
    with Cons.IH [of j] show ?thesis by simp
  qed
qed

lemma find_sub_append: "find_sub pat s = Some i \<Longrightarrow> find_sub pat (s @ t) = Some i"
proof (induction s arbitrary: i)
  case Nil
  then show ?case by (subst (asm) find_sub.simps, subst find_sub.simps) (auto split: if_splits)
next
  case (Cons c s)
  show ?case
  proof (cases "take (length pat) (c # s) = pat")
    case True
    moreover from this have "length pat \<le> length (c # s)" by (metis length_take min.cobounded1)
    ultimately have "take (length pat) ((c # s) @ t) = pat" by (simp only: take_append) simp
    with Cons.prems True show ?thesis by (subst (asm) find_sub.simps, subst find_sub.simps) simp
  next
    case False
    with Cons.prems obtain j where j: "find_sub pat s = Some j" "i = Suc j" by (subst (asm) find_sub.simps) auto
    have "take (length pat) ((c # s) @ t) \<noteq> pat"
    proof
      assume p: "take (length pat) ((c # s) @ t) = pat"
      have "length pat \<le> length (c # s)" using find_sub_bound [OF j(1)] by simp
      with p False show False by (simp only: take_append) simp
    qed
    with Cons.IH [OF j(1)] j(2) show ?thesis by (subst find_sub.simps) simp
  qed
qed

lemma strstr_partial:
  assumes "head_ok method url version hs" "s @ t = render_head method url version hs" "t \<noteq> []"
  shows "strstr s header_end = None"
proof (rule ccontr)
  assume "strstr s header_end \<noteq> None"
  then obtain i where i: "find_sub header_end (cstr s) = Some i" by (auto simp: strstr_def)
  have "NUL \<notin> set s" using render_head_no_NUL [OF assms(1)] assms(2) by (metis UnCI set_append)
  then have s: "cstr s = s" by (rule cstr_id)
  have "find_sub header_end (s @ t) = Some (length (s @ t) - 4)"
    using strstr_head [OF assms(1), of "[]"] cstr_id [OF render_head_no_NUL [OF assms(1)]] assms(2) by (simp add: strstr_def)
  with find_sub_append [of header_end s i t] i s have "i = length (s @ t) - 4" by simp
  moreover have "i + 4 \<le> length s" using find_sub_bound [of header_end s i] i s by simp
  moreover have "0 < length t" using assms(3) by simp
  ultimately show False unfolding length_append by arith
qed

section \<open>Reading back parameters\<close>

definition param_text :: "bytes \<times> bytes \<Rightarrow> bytes" where
  "param_text = (\<lambda>(k, v). k @ ''='' @ v)"

fun render_params :: "(bytes \<times> bytes) list \<Rightarrow> bytes" where
  "render_params [] = []"
| "render_params [kv] = param_text kv"
| "render_params (kv # kvs) = param_text kv @ ''&'' @ render_params kvs"

definition param_ok :: "bytes \<times> bytes \<Rightarrow> bool" where
  "param_ok = (\<lambda>(k, v). set k \<inter> {CHR ''='', CHR ''&''} = {} \<and> CHR ''&'' \<notin> set v)"

lemma params_loop_end: "params_loop data (length data + n) m = m"
  by (subst params_loop.simps) simp

lemma find_from_skip: "c \<notin> set s \<Longrightarrow> find_from c (pre @ s @ c # t) (length pre) = length pre + length s"
proof -
  assume "c \<notin> set s"
  then have "find_pos ((=) c) (s @ c # t) = Some (length s)" by (intro find_pos_skip) auto
  then show ?thesis by (simp add: find_from_def)
qed

lemma find_from_none: "c \<notin> set s \<Longrightarrow> find_from c (pre @ s) (length pre) = length pre + length s"
proof -
  assume "c \<notin> set s"
  then have "find_pos ((=) c) s = None" by (auto simp: find_pos_None)
  then show ?thesis by (simp add: find_from_def)
qed

lemma params_loop_render:
  "\<forall>kv \<in> set kvs. param_ok kv \<Longrightarrow>
   params_loop (pre @ render_params kvs) (length pre) m = fold (\<lambda>(k, v). om_ins k v) kvs m"
proof (induction kvs arbitrary: pre m rule: render_params.induct)
  case 1
  then show ?case using params_loop_end [of pre 0] by simp
next
  case (2 kv)
  obtain k v where kv: "kv = (k, v)" by (cases kv)
  have ok: "CHR ''='' \<notin> set k" "CHR ''&'' \<notin> set (k @ ''='' @ v)" using 2 by (auto simp: param_ok_def kv)
  let ?data = "pre @ k @ CHR ''='' # v"
  have "find_from (CHR ''='') ?data (length pre) = length pre + length k" "find_from (CHR ''&'') ?data (length pre) = length ?data"
    using find_from_skip [OF ok(1), of pre v] find_from_none [OF ok(2), of pre] by simp_all
  then show ?case using params_loop_end [of ?data 1]
    by (subst params_loop.simps) (simp add: kv param_text_def substr_def)
next
  case (3 kv kv' kvs)
  obtain k v where kv: "kv = (k, v)" by (cases kv)
  let ?rest = "render_params (kv' # kvs)"
  let ?data = "pre @ k @ CHR ''='' # v @ CHR ''&'' # ?rest"
  have ok: "CHR ''='' \<notin> set k" "CHR ''&'' \<notin> set (k @ ''='' @ v)" using 3 by (auto simp: param_ok_def kv)
  have f: "find_from (CHR ''='') ?data (length pre) = length pre + length k"
    "find_from (CHR ''&'') ?data (length pre) = length pre + length k + 1 + length v"
    using find_from_skip [OF ok(1), of pre "v @ CHR ''&'' # ?rest"] find_from_skip [OF ok(2), of pre ?rest] by simp_all
  have "params_loop ?data (length pre) m = params_loop ?data (length pre + length k + 1 + length v + 1) (om_ins k v m)"
    using f by (subst params_loop.simps) (simp add: substr_def)
  also have "\<dots> = fold (\<lambda>(k, v). om_ins k v) (kv' # kvs) (om_ins k v m)"
    using "3.IH" [of "pre @ k @ CHR ''='' # v @ ''&''" "om_ins k v m"] "3.prems" by (simp add: add.assoc)
  finally show ?case by (simp add: kv param_text_def)
qed

lemma status_code_known: "status_code_ok code \<Longrightarrow> \<exists>reason. map_of http_status_map code = Some reason"
proof -
  have all: "\<forall>code \<in> set ([100..102] @ [200..207] @ [400..409] @ [416] @ [500..509]). map_of http_status_map code \<noteq> None" by code_simp
  assume "status_code_ok code"
  then have "code \<in> set ([100..102] @ [200..207] @ [400..409] @ [416] @ [500..509])"
    unfolding status_code_ok_def set_append set_upto by auto
  with all show ?thesis by blast
qed

end
