(* ===== verification/HttpConn.thy ===== *)
theory HttpConn
  imports PinkConn HttpHead
begin

text \<open>
  The HTTP connection with handlers (\<^verbatim>\<open>include/http_conn.h\<close>, \<^verbatim>\<open>src/http_conn.cc\<close>): receiving a request head and its body,
  and sending a response piece by piece.

  The read buffer is its contents (\<^verbatim>\<open>rbuf_pos_\<close> is its length), the write buffer the bytes still to be sent, with
  their position.  The handlers of the application (\<^verbatim>\<open>HTTPHandles\<close>) act on a state of the application.  \<open>None\<close> is a
  run that leaves the defined behaviour: an uncaught exception (\<^verbatim>\<open>std::stoul\<close>, \<^verbatim>\<open>std::map::at\<close>), a failed assertion
  or an access outside a buffer.
\<close>

section \<open>Data\<close>

definition kHTTPMaxMessage :: nat where "kHTTPMaxMessage = 1024 * 1024 * 8"
definition kHTTPMaxHeader :: nat where "kHTTPMaxHeader = 1024 * 1024"

datatype RequestStatus = kNewRequest | kHeaderReceiving | kBodyReceiving | kBodyReceived

record http_request = http_head +
  hq_path :: bytes
  hq_content_type :: bytes
  hq_reply_100continue :: bool
  hq_postform_params :: params
  hq_client_ip_port :: bytes
  hq_req_status :: RequestStatus
  hq_rbuf :: bytes
  hq_remain_recv_len :: "64 word"

datatype ResponseStatus = kPrepareHeader | kSendingHeader | kSendingBody

record http_response =
  hr_resp_status :: ResponseStatus
  hr_wbuf :: bytes
  hr_wbuf_pos :: nat
  hr_buf_len :: int
  hr_remain_send_len :: "64 word"
  hr_finished :: bool
  hr_status_code :: int
  hr_headers :: params

text \<open>What \<^verbatim>\<open>WriteResponseBody\<close> answers: the bytes it has put into the buffer, or a negative code.\<close>

datatype body_answer = Filled bytes | Code int

record 'u http_handles =
  ha_HandleRequest :: "http_request \<Rightarrow> 'u \<Rightarrow> bool \<times> 'u"
  ha_HandleBodyData :: "bytes \<Rightarrow> 'u \<Rightarrow> 'u"
  ha_PrepareResponse :: "http_response \<Rightarrow> 'u \<Rightarrow> http_response \<times> 'u"
  ha_WriteResponseBody :: "nat \<Rightarrow> 'u \<Rightarrow> body_answer \<times> 'u"
  ha_HandleConnClosed :: "'u \<Rightarrow> 'u"

record 'u http_conn = pink_conn +
  hc_request :: http_request
  hc_response :: http_response
  hc_user :: 'u

definition HTTPRequest_new :: http_request where
  "HTTPRequest_new = \<lparr>hh_method = [], hh_url = [], hh_version = [], hh_headers = [], hh_query_params = [],
     hh_parse_status = kHeaderMethod, hq_path = [], hq_content_type = [], hq_reply_100continue = False,
     hq_postform_params = [], hq_client_ip_port = [], hq_req_status = kNewRequest, hq_rbuf = [], hq_remain_recv_len = 0\<rparr>"

definition HTTPResponse_new :: http_response where
  "HTTPResponse_new = \<lparr>hr_resp_status = kPrepareHeader, hr_wbuf = [], hr_wbuf_pos = 0, hr_buf_len = 0,
     hr_remain_send_len = 0, hr_finished = True, hr_status_code = 200, hr_headers = []\<rparr>"

definition HTTPConn_new :: "fd \<Rightarrow> bytes \<Rightarrow> timeval \<Rightarrow> 'u \<Rightarrow> 'u http_conn" where
  "HTTPConn_new fd ip_port now u = pink_conn.extend (PinkConn_new fd ip_port now)
     \<lparr>hc_request = HTTPRequest_new, hc_response = HTTPResponse_new, hc_user = u\<rparr>"

section \<open>Requests\<close>

definition HTTPRequest_Reset :: "bytes \<Rightarrow> http_request \<Rightarrow> http_request" where
  "HTTPRequest_Reset ip_port r = r\<lparr>hq_rbuf := [], hh_method := [], hq_path := [], hh_version := [], hh_url := [],
     hq_content_type := [], hq_remain_recv_len := 0, hq_reply_100continue := False, hq_postform_params := [],
     hh_query_params := [], hh_headers := [], hh_parse_status := kHeaderMethod, hq_client_ip_port := ip_port\<rparr>"

definition query_value :: "bytes \<Rightarrow> http_request \<Rightarrow> bytes" where
  "query_value field r = (case om_get (hh_query_params r) field of Some v \<Rightarrow> v | None \<Rightarrow> [])"

definition postform_value :: "bytes \<Rightarrow> http_request \<Rightarrow> bytes" where
  "postform_value field r = (case om_get (hq_postform_params r) field of Some v \<Rightarrow> v | None \<Rightarrow> [])"

definition ParseGetUrl :: "http_request \<Rightarrow> http_request" where
  "ParseGetUrl r =
     (let path = hh_url r;
          path = (case om_get (hh_headers r) ''host'' of
                    None \<Rightarrow> path
                  | Some host \<Rightarrow>
                      if find_sub host path \<noteq> None \<and> length path > 7 + length host then drop (7 + length host) path else path)
      in case find_pos ((=) (CHR ''?'')) path of
           None \<Rightarrow> r\<lparr>hq_path := path\<rparr>
         | Some n \<Rightarrow> r\<lparr>hq_path := take n path, hh_query_params := params_loop path (n + 1) (hh_query_params r)\<rparr>)"

text \<open>\<^verbatim>\<open>std::stoul\<close>: leading white space, a sign, digits; \<open>None\<close> is an exception.\<close>

definition stoul :: "bytes \<Rightarrow> (64 word) option" where
  "stoul s =
     (let s = dropWhile c_isspace s;
          neg = (case s of c # _ \<Rightarrow> c = CHR ''-'' | [] \<Rightarrow> False);
          s = (case s of c # s' \<Rightarrow> if c = CHR ''-'' \<or> c = CHR ''+'' then s' else s | [] \<Rightarrow> []);
          digits = takeWhile c_isdigit s; v = dec_val digits
      in if digits = [] \<or> v \<ge> 2 ^ 64 then None else Some (if neg then - word_of_int v else word_of_int v))"

definition expects_continue :: "http_request \<Rightarrow> bool" where
  "expects_continue r \<longleftrightarrow> om_get (hh_headers r) ''expect'' \<in> {Some ''100-Continue'', Some ''100-continue''}"

definition ParseHeader :: "(bytes \<Rightarrow> bytes) \<Rightarrow> http_request \<Rightarrow> (int \<times> http_request) option" where
  "ParseHeader lower r =
     (if length (hq_rbuf r) \<ge> kHTTPMaxMessage then None
      else case strstr (hq_rbuf r) header_end of
        None \<Rightarrow> Some (0, r)
      | Some sep \<Rightarrow>
          let header_len = int sep + 4
          in if header_len \<le> 5 then Some (-1, r)
             else
               let r = ParseGetUrl (head_loop lower (hq_rbuf r) 0 header_len r)
               in (case (case om_get (hh_headers r) ''content-length'' of None \<Rightarrow> Some 0 | Some s \<Rightarrow> stoul s) of
                     None \<Rightarrow> None
                   | Some n \<Rightarrow>
                       Some (header_len,
                         r\<lparr>hq_remain_recv_len := n,
                           hq_content_type := (case om_get (hh_headers r) ''content-type'' of Some t \<Rightarrow> t | None \<Rightarrow> hq_content_type r),
                           hq_reply_100continue := hq_reply_100continue r \<or> expects_continue r\<rparr>)))"

text \<open>
  What follows a read, plain or through TLS: \<open>read_done\<close> takes the bytes over and counts them, or gives the reason why there
  are none.
\<close>

definition read_done :: "read_result \<Rightarrow> http_request \<Rightarrow> ReadStatus \<times> http_request" where
  "read_done res r =
     (case res of
        Rerror e \<Rightarrow> (if e = EAGAIN then kReadHalf else kReadClose, r)
      | Nread s \<Rightarrow>
          if s = [] then (kReadClose, r)
          else (kOk, r\<lparr>hq_rbuf := hq_rbuf r @ s,
                       hq_remain_recv_len := (if hq_req_status r = kBodyReceiving then hq_remain_recv_len r - of_nat (length s)
                                              else hq_remain_recv_len r)\<rparr>))"

definition DoRead :: "read_answer list \<Rightarrow> http_request \<Rightarrow> ReadStatus \<times> http_request \<times> read_answer list" where
  "DoRead as r =
     (case sys_read (kHTTPMaxMessage - length (hq_rbuf r)) as of
        (res, as') \<Rightarrow> (case read_done res r of (s, r') \<Rightarrow> (s, r', as')))"

lemmas DoRead_unfold = DoRead_def read_done_def

section \<open>Responses\<close>

definition HTTPResponse_Reset :: "http_response \<Rightarrow> http_response" where
  "HTTPResponse_Reset p = p\<lparr>hr_headers := [], hr_status_code := 200, hr_finished := False, hr_remain_send_len := 0,
     hr_wbuf := [], hr_wbuf_pos := 0, hr_buf_len := 0, hr_resp_status := kPrepareHeader\<rparr>"

definition Finished :: "http_response \<Rightarrow> bool" where
  "Finished p = hr_finished p"

definition HTTPResponse_SetStatusCode :: "int \<Rightarrow> http_response \<Rightarrow> http_response option" where
  "HTTPResponse_SetStatusCode code p = (if status_code_ok code then Some (p\<lparr>hr_status_code := code\<rparr>) else None)"

definition HTTPResponse_SetHeaders :: "bytes \<Rightarrow> bytes \<Rightarrow> http_response \<Rightarrow> http_response" where
  "HTTPResponse_SetHeaders key val p = p\<lparr>hr_headers := om_ins key val (hr_headers p)\<rparr>"

definition SetContentLength :: "64 word \<Rightarrow> http_response \<Rightarrow> http_response" where
  "SetContentLength sz p =
     (let p = p\<lparr>hr_remain_send_len := sz\<rparr>
      in if om_get (hr_headers p) ''Content-Length'' \<noteq> None \<or> om_get (hr_headers p) ''content-length'' \<noteq> None then p
         else HTTPResponse_SetHeaders ''Content-Length'' (to_string (unat sz)) p)"

text \<open>The pieces that \<^verbatim>\<open>SerializeHeader\<close> prints one after the other.\<close>

definition status_line :: "int \<Rightarrow> bytes \<Rightarrow> bytes" where
  "status_line code reason = ''HTTP/1.1 '' @ to_string (nat code) @ '' '' @ reason @ CRLF"

definition header_pieces :: "int \<Rightarrow> bytes \<Rightarrow> params \<Rightarrow> bytes list" where
  "header_pieces code reason hs =
     status_line code reason # map (\<lambda>(k, v). cstr k @ '': '' @ cstr v @ CRLF) hs @ [CRLF]"

text \<open>
  A piece that ends exactly at the limit is refused.  Beyond the limit the size given to \<^verbatim>\<open>snprintf\<close> wraps around, so
  that the printing goes on until the end of the buffer.
\<close>

fun print_pieces :: "nat \<Rightarrow> bytes list \<Rightarrow> (bool \<times> nat) option" where
  "print_pieces sz [] = Some (True, sz)"
| "print_pieces sz (p # ps) =
     (let sz' = sz + length p
      in if kHTTPMaxMessage \<le> sz' then None
         else if sz' = kHTTPMaxHeader then Some (False, sz')
         else print_pieces sz' ps)"

definition SerializeHeader :: "http_response \<Rightarrow> (bool \<times> http_response) option" where
  "SerializeHeader p =
     (case map_of http_status_map (hr_status_code p) of
        None \<Rightarrow> None
      | Some reason \<Rightarrow>
          let ps = header_pieces (hr_status_code p) reason (hr_headers p)
          in map_option (\<lambda>(ok, sz). (ok, if ok then p\<lparr>hr_wbuf := concat ps, hr_buf_len := int sz\<rparr> else p)) (print_pieces 0 ps))"

text \<open>
  The three parts of \<^verbatim>\<open>Flush\<close>; \<open>Inl b\<close> is a return.  The write itself is a parameter, since the code has a plain and a TLS
  branch at this place: it is given the position and the bytes to write and the state of the transport, and either makes
  \<^verbatim>\<open>Flush\<close> return or leaves a result of \<^verbatim>\<open>write\<close>.
\<close>

type_synonym 's writer = "nat \<times> bytes \<Rightarrow> 's \<Rightarrow> (bool + write_result) \<times> 's"

definition flush_prepare :: "http_response \<Rightarrow> (bool + unit) option \<times> http_response" where
  "flush_prepare p =
     (if hr_resp_status p = kPrepareHeader then
        (case SerializeHeader p of
           None \<Rightarrow> (None, p)
         | Some (ok, p) \<Rightarrow>
             if \<not> ok \<or> hr_buf_len p > int kHTTPMaxHeader then (Some (Inl False), p)
             else (Some (Inr ()), p\<lparr>hr_resp_status := kSendingHeader\<rparr>))
      else (Some (Inr ()), p))"

definition flush_header_with :: "'s writer \<Rightarrow> 's \<Rightarrow> http_response \<Rightarrow> (bool + unit) \<times> bytes \<times> http_response \<times> 's" where
  "flush_header_with wr as p =
     (if hr_resp_status p = kSendingHeader then
        (case wr (hr_wbuf_pos p, hr_wbuf p) as of
           (Inl b, as) \<Rightarrow> (Inl b, [], p, as)
         | (Inr (Werror e), as) \<Rightarrow> (Inl (e = EAGAIN), [], p, as)
         | (Inr (Nwritten k), as) \<Rightarrow>
             if k = 0 then (Inl False, [], p, as)
             else if int k = hr_buf_len p then
               let p' = p\<lparr>hr_wbuf := [], hr_wbuf_pos := 0, hr_buf_len := 0\<rparr>
               in if hr_status_code p = 100 then (Inl True, hr_wbuf p, p'\<lparr>hr_resp_status := kPrepareHeader, hr_finished := True\<rparr>, as)
                  else (Inr (), hr_wbuf p, p'\<lparr>hr_resp_status := kSendingBody\<rparr>, as)
             else (Inr (), take k (hr_wbuf p),
                   p\<lparr>hr_wbuf := drop k (hr_wbuf p), hr_wbuf_pos := hr_wbuf_pos p + k, hr_buf_len := hr_buf_len p - int k\<rparr>, as))
      else (Inr (), [], p, as))"

text \<open>Asking the application for the next piece of the body; more bytes than asked for would leave the buffer.\<close>

definition fill_body :: "'u http_handles \<Rightarrow> 'u \<Rightarrow> http_response \<Rightarrow> (http_response \<times> 'u) option" where
  "fill_body h u p =
     (if hr_buf_len p = 0 then
        let needed_size = min (kHTTPMaxMessage - hr_wbuf_pos p) (unat (hr_remain_send_len p))
        in (case ha_WriteResponseBody h needed_size u of
              (Filled s, u) \<Rightarrow> if length s > needed_size then None else Some (p\<lparr>hr_wbuf := s, hr_buf_len := int (length s)\<rparr>, u)
            | (Code k, u) \<Rightarrow> if k < 0 then Some (p\<lparr>hr_wbuf := [], hr_buf_len := k\<rparr>, u) else None)
      else Some (p, u))"

definition flush_body_with :: "'s writer \<Rightarrow> 'u http_handles \<Rightarrow> 's \<Rightarrow> 'u \<Rightarrow> http_response \<Rightarrow> (bool \<times> bytes \<times> http_response \<times> 'u \<times> 's) option" where
  "flush_body_with wr h as u p =
     (if hr_resp_status p = kSendingBody then
        if hr_remain_send_len p = 0 then Some (True, [], p\<lparr>hr_finished := True, hr_resp_status := kPrepareHeader\<rparr>, u, as)
        else case fill_body h u p of
          None \<Rightarrow> None
        | Some (p, u) \<Rightarrow>
            if hr_buf_len p = -1 then Some (False, [], p, u, as)
            else if hr_buf_len p < 0 then None
            else (case wr (hr_wbuf_pos p, hr_wbuf p) as of
                (Inl b, as) \<Rightarrow> Some (b, [], p, u, as)
              | (Inr (Werror e), as) \<Rightarrow> Some (e = EAGAIN, [], p, u, as)
              | (Inr (Nwritten k), as) \<Rightarrow>
                  if k = 0 then Some (False, [], p, u, as)
                  else
                    let pos = hr_wbuf_pos p + k; pos = (if pos = kHTTPMaxMessage then 0 else pos)
                    in Some (True, take k (hr_wbuf p),
                         p\<lparr>hr_wbuf := drop k (hr_wbuf p), hr_wbuf_pos := pos, hr_buf_len := hr_buf_len p - int k,
                           hr_remain_send_len := hr_remain_send_len p - of_nat k\<rparr>, u, as))
      else Some (True, [], p, u, as))"

definition Flush_with :: "'s writer \<Rightarrow> 'u http_handles \<Rightarrow> 's \<Rightarrow> 'u \<Rightarrow> http_response \<Rightarrow> (bool \<times> bytes \<times> http_response \<times> 'u \<times> 's) option" where
  "Flush_with wr h as u p =
     (case flush_prepare p of
        (None, p) \<Rightarrow> None
      | (Some (Inl b), p) \<Rightarrow> Some (b, [], p, u, as)
      | (Some (Inr _), p) \<Rightarrow>
          (case flush_header_with wr as p of
             (Inl b, out, p, as) \<Rightarrow> Some (b, out, p, u, as)
           | (Inr _, out, p, as) \<Rightarrow> map_option (\<lambda>(b, out', p, u, as). (b, out @ out', p, u, as)) (flush_body_with wr h as u p)))"

text \<open>The plain socket.\<close>

definition plain_writer :: "write_answer list writer" where
  "plain_writer = (\<lambda>(pos, buf) as. case sys_write buf as of (w, as) \<Rightarrow> (Inr w, as))"

definition flush_header :: "write_answer list \<Rightarrow> http_response \<Rightarrow> (bool + unit) \<times> bytes \<times> http_response \<times> write_answer list" where
  "flush_header = flush_header_with plain_writer"

definition flush_body :: "'u http_handles \<Rightarrow> write_answer list \<Rightarrow> 'u \<Rightarrow> http_response \<Rightarrow>
    (bool \<times> bytes \<times> http_response \<times> 'u \<times> write_answer list) option" where
  "flush_body = flush_body_with plain_writer"

definition Flush :: "'u http_handles \<Rightarrow> write_answer list \<Rightarrow> 'u \<Rightarrow> http_response \<Rightarrow>
    (bool \<times> bytes \<times> http_response \<times> 'u \<times> write_answer list) option" where
  "Flush = Flush_with plain_writer"

lemmas flush_header_unfold = flush_header_def flush_header_with_def plain_writer_def
lemmas flush_body_unfold = flush_body_def flush_body_with_def plain_writer_def

lemma Flush_unfold:
  "Flush h as u p =
     (case flush_prepare p of
        (None, p) \<Rightarrow> None
      | (Some (Inl b), p) \<Rightarrow> Some (b, [], p, u, as)
      | (Some (Inr _), p) \<Rightarrow>
          (case flush_header as p of
             (Inl b, out, p, as) \<Rightarrow> Some (b, out, p, u, as)
           | (Inr _, out, p, as) \<Rightarrow> map_option (\<lambda>(b, out', p, u, as). (b, out @ out', p, u, as)) (flush_body h as u p)))"
  unfolding Flush_def Flush_with_def flush_header_def flush_body_def ..

section \<open>The connection\<close>

datatype ('u, 's) http_step = Continue "'u http_conn" 's | Finish ReadStatus "'u http_conn" 's | Abort

definition closed_by :: "'u http_handles \<Rightarrow> 'u http_conn \<Rightarrow> 'u http_conn" where
  "closed_by h c = c\<lparr>hc_user := ha_HandleConnClosed h (hc_user c)\<rparr>"

definition deliver_body :: "'u http_handles \<Rightarrow> 'u http_conn \<Rightarrow> 'u http_conn" where
  "deliver_body h c = c\<lparr>hc_user := ha_HandleBodyData h (hq_rbuf (hc_request c)) (hc_user c)\<rparr>"

text \<open>A complete head: the application may want to reply at once; the rest of the buffer is body.\<close>

definition head_received :: "'u http_handles \<Rightarrow> nat \<Rightarrow> 's \<Rightarrow> 'u http_conn \<Rightarrow> ('u, 's) http_step" where
  "head_received h header_len as c =
     (let c = c\<lparr>hc_request := (hc_request c)\<lparr>hq_req_status := kBodyReceiving\<rparr>\<rparr>;
          (need_reply, u) = ha_HandleRequest h (hc_request c) (hc_user c);
          c = c\<lparr>hc_user := u\<rparr>; r = hc_request c
      in if need_reply then Continue (c\<lparr>hc_request := r\<lparr>hq_req_status := kBodyReceived\<rparr>\<rparr>) as
         else
           let r = r\<lparr>hq_rbuf := drop header_len (hq_rbuf r),
                     hq_remain_recv_len := hq_remain_recv_len r - of_nat (length (hq_rbuf r) - header_len)\<rparr>
           in if hq_reply_100continue r \<and> hq_remain_recv_len r \<noteq> 0 then
                (case HTTPResponse_SetStatusCode 100 (hc_response c) of
                   None \<Rightarrow> Abort
                 | Some p \<Rightarrow> Finish kReadAll (c\<lparr>hc_request := r\<lparr>hq_reply_100continue := False\<rparr>, hc_response := p\<rparr>) as)
              else if hq_remain_recv_len r = 0 then
                Continue (deliver_body h (c\<lparr>hc_request := r\<lparr>hq_req_status := kBodyReceived\<rparr>\<rparr>)) as
              else Continue (c\<lparr>hc_request := r\<rparr>) as)"

text \<open>One turn of the loop of \<^verbatim>\<open>ReadData\<close> over a transport \<open>rd\<close>, the function \<^verbatim>\<open>DoRead\<close> of a plain or a TLS connection.\<close>

definition read_step_with :: "('s \<Rightarrow> http_request \<Rightarrow> (ReadStatus \<times> http_request \<times> 's) option) \<Rightarrow> (bytes \<Rightarrow> bytes) \<Rightarrow> 'u http_handles \<Rightarrow>
    's \<Rightarrow> 'u http_conn \<Rightarrow> ('u, 's) http_step" where
  "read_step_with rd lower h as c =
     (case hq_req_status (hc_request c) of
        kHeaderReceiving \<Rightarrow>
          (case rd as (hc_request c) of
             None \<Rightarrow> Abort
           | Some (s, r, as) \<Rightarrow>
               if s \<noteq> kOk then Finish s (closed_by h (c\<lparr>hc_request := r\<rparr>)) as
               else
                 (case ParseHeader lower r of
                    None \<Rightarrow> Abort
                  | Some (header_len, r) \<Rightarrow>
                      let c = c\<lparr>hc_request := r\<rparr>
                      in if header_len < 0 \<or> length (hq_rbuf r) > kHTTPMaxHeader then Finish kReadError (closed_by h c) as
                         else if header_len > 0 then head_received h (nat header_len) as c
                         else Continue c as))
      | kBodyReceiving \<Rightarrow>
          (case rd as (hc_request c) of
             None \<Rightarrow> Abort
           | Some (s, r, as) \<Rightarrow>
               let c = c\<lparr>hc_request := r\<rparr>
               in if s \<noteq> kOk then Finish s (closed_by h c) as
                  else
                    let c = (if length (hq_rbuf r) = kHTTPMaxMessage \<or> hq_remain_recv_len r = 0
                             then (deliver_body h c)\<lparr>hc_request := r\<lparr>hq_rbuf := []\<rparr>\<rparr> else c);
                        r = hc_request c
                    in Continue (if hq_remain_recv_len r = 0 then c\<lparr>hc_request := r\<lparr>hq_req_status := kBodyReceived\<rparr>\<rparr> else c) as)
      | kBodyReceived \<Rightarrow>
          let (p, u) = ha_PrepareResponse h (hc_response c) (hc_user c)
          in Finish kReadAll (c\<lparr>hc_request := (hc_request c)\<lparr>hq_req_status := kNewRequest\<rparr>, hc_response := p, hc_user := u\<rparr>) as
      | kNewRequest \<Rightarrow> Abort)"

definition read_step :: "(bytes \<Rightarrow> bytes) \<Rightarrow> 'u http_handles \<Rightarrow> read_answer list \<Rightarrow> 'u http_conn \<Rightarrow> ('u, read_answer list) http_step" where
  "read_step = read_step_with (\<lambda>as r. Some (DoRead as r))"

lemmas read_step_unfold = read_step_def read_step_with_def

text \<open>The loop of \<^verbatim>\<open>ReadData\<close> ends: every turn takes an answer of the script, or the request is complete.\<close>

lemma DoRead_consumes: "DoRead as r = (kOk, r', as') \<Longrightarrow> script_size as' < script_size as"
  by (auto simp: DoRead_unfold split: prod.splits read_result.splits if_splits dest: sys_read_consumes)

lemma head_received_as: "head_received h n as c = Continue c' as' \<Longrightarrow> as' = as"
  by (auto simp: head_received_def Let_def split: prod.splits if_splits option.splits)

lemma read_step_consumes:
  "read_step lower h as c = Continue c' as' \<Longrightarrow> script_size as' < script_size as"
  by (auto simp: read_step_unfold Let_def split: RequestStatus.splits prod.splits if_splits option.splits
      dest!: head_received_as dest: DoRead_consumes)

function read_loop :: "(bytes \<Rightarrow> bytes) \<Rightarrow> 'u http_handles \<Rightarrow> read_answer list \<Rightarrow> 'u http_conn \<Rightarrow>
    (ReadStatus \<times> 'u http_conn \<times> read_answer list) option" where
  "read_loop lower h as c =
     (case read_step lower h as c of
        Continue c' as' \<Rightarrow> read_loop lower h as' c'
      | Finish s c' as' \<Rightarrow> Some (s, c', as')
      | Abort \<Rightarrow> None)"
  by pat_completeness auto
termination
  by (relation "measure (\<lambda>(lower, h, as, c). script_size as)") (auto dest: read_step_consumes)

declare read_loop.simps [simp del]

text \<open>\<open>loop\<close> is the loop over the transport of the connection.\<close>

definition ReadData_with :: "('s \<Rightarrow> 'u http_conn \<Rightarrow> (ReadStatus \<times> 'u http_conn \<times> 's) option) \<Rightarrow> 's \<Rightarrow> 'u http_conn \<Rightarrow>
    (ReadStatus \<times> 'u http_conn \<times> 's) option" where
  "ReadData_with loop as c =
     (if hq_req_status (hc_request c) = kNewRequest then
        let r = HTTPRequest_Reset (pc_ip_port c) (hc_request c)
        in if Finished (hc_response c) then
             loop as (c\<lparr>hc_request := r\<lparr>hq_req_status := kHeaderReceiving\<rparr>,
               hc_response := HTTPResponse_Reset (hc_response c)\<rparr>)
           else Some (kReadHalf, c\<lparr>hc_request := r\<rparr>, as)
      else loop as c)"

definition ReadData :: "(bytes \<Rightarrow> bytes) \<Rightarrow> 'u http_handles \<Rightarrow> read_answer list \<Rightarrow> 'u http_conn \<Rightarrow>
    (ReadStatus \<times> 'u http_conn \<times> read_answer list) option" where
  "ReadData lower h = ReadData_with (read_loop lower h)"

lemmas ReadData_unfold = ReadData_def ReadData_with_def

text \<open>A complete request asks for a reply.\<close>

definition mark_reply :: "ReadStatus \<times> 'u http_conn \<times> 's \<Rightarrow> ReadStatus \<times> 'u http_conn \<times> 's" where
  "mark_reply = (\<lambda>(s, c, as). (s, if s = kReadAll then base_set_is_reply True c else c, as))"

definition HTTPConn_GetRequest :: "(bytes \<Rightarrow> bytes) \<Rightarrow> 'u http_handles \<Rightarrow> read_answer list \<Rightarrow> 'u http_conn \<Rightarrow>
    (ReadStatus \<times> 'u http_conn \<times> read_answer list) option" where
  "HTTPConn_GetRequest lower h as c = map_option mark_reply (ReadData lower h as c)"

lemmas GetRequest_unfold = HTTPConn_GetRequest_def mark_reply_def

text \<open>The result of \<^verbatim>\<open>SendReply\<close> from that of \<^verbatim>\<open>Flush\<close>.\<close>

definition flush_status :: "bool \<Rightarrow> http_response \<Rightarrow> WriteStatus" where
  "flush_status ok p = (if \<not> ok then kWriteError else if Finished p then kWriteAll else kWriteHalf)"

definition HTTPConn_SendReply :: "'u http_handles \<Rightarrow> write_answer list \<Rightarrow> 'u http_conn \<Rightarrow> (WriteStatus \<times> bytes \<times> 'u http_conn) option" where
  "HTTPConn_SendReply h as c =
     map_option (\<lambda>(ok, out, p, u, _). (flush_status ok p, out, c\<lparr>hc_response := p, hc_user := u\<rparr>))
       (Flush h as (hc_user c) (hc_response c))"

lemmas SendReply_unfold = HTTPConn_SendReply_def flush_status_def

definition http_ops :: "(bytes \<Rightarrow> bytes) \<Rightarrow> 'u http_handles \<Rightarrow> ('u, unit) http_conn_ext conn_ops" where
  "http_ops lower h =
     \<lparr>co_GetRequest = (\<lambda>i c. map_option (\<lambda>(s, c, _). (s, c)) (HTTPConn_GetRequest lower h (io_reads i) c)),
      co_SendReply = (\<lambda>i c. map_option (\<lambda>(s, _, c). (s, c)) (HTTPConn_SendReply h (io_writes i) c)),
      co_WriteResp = (\<lambda>_ c. c), co_TryResizeBuffer = (\<lambda>_ c. c), co_set_is_reply = base_set_is_reply, co_is_reply = pc_is_reply\<rparr>"

section \<open>The connection class\<close>

lemma head_received_same:
  "(case head_received h n as c of Continue c' _ \<Rightarrow> same_conn c c' | Finish _ c' _ \<Rightarrow> same_conn c c' | Abort \<Rightarrow> True)"
  by (auto simp: head_received_def deliver_body_def same_conn_def Let_def split: prod.splits option.splits)

lemma read_step_same:
  "(case read_step lower h as c of Continue c' _ \<Rightarrow> same_conn c c' | Finish _ c' _ \<Rightarrow> same_conn c c' | Abort \<Rightarrow> True)"
proof (cases "hq_req_status (hc_request c)")
  case kHeaderReceiving
  obtain s r as' where d: "DoRead as (hc_request c) = (s, r, as')" by (cases "DoRead as (hc_request c)")
  show ?thesis
  proof (cases "ParseHeader lower r")
    case None
    with kHeaderReceiving d show ?thesis by (simp add: read_step_unfold closed_by_def same_conn_def)
  next
    case (Some p)
    obtain n r' where p: "p = (n, r')" by (cases p)
    from head_received_same [where h = h and n = "nat n" and as = as' and c = "c\<lparr>hc_request := r'\<rparr>"] Some p kHeaderReceiving d show ?thesis
      by (auto simp: read_step_unfold closed_by_def same_conn_def Let_def split: http_step.splits)
  qed
qed (auto simp: read_step_unfold closed_by_def deliver_body_def same_conn_def Let_def split: prod.splits)

lemma read_loop_same: "read_loop lower h as c = Some (s, c', as') \<Longrightarrow> same_conn c c'"
proof (induction lower h as c rule: read_loop.induct)
  case (1 lower h as c)
  then show ?case using read_step_same [where lower = lower and h = h and as = as and c = c]
    by (cases "read_step lower h as c") (auto simp: read_loop.simps [of lower h as c] intro: same_conn_trans)
qed

lemma GetRequest_http_same: "HTTPConn_GetRequest lower h as c = Some (s, c', as') \<Longrightarrow> same_conn c c'"
  by (fastforce simp: GetRequest_unfold ReadData_unfold Let_def same_conn_def base_set_is_reply_def split: if_splits dest: read_loop_same)

interpretation http: conn_class "http_ops lower h" for lower h
  by unfold_locales
    (auto simp: http_ops_def SendReply_unfold same_conn_def base_set_is_reply_def dest: GetRequest_http_same [unfolded same_conn_def])

section \<open>Receiving a request\<close>

lemma stoul_to_string: "n < 2 ^ 64 \<Longrightarrow> stoul (to_string n) = Some (of_nat n)"
proof -
  assume n: "n < 2 ^ 64"
  obtain c s where cs: "to_string n = c # s" by (cases "to_string n") auto
  have digits: "\<forall>c \<in> set (to_string n). c_isdigit c" by (rule to_string_digits)
  then have c: "c_isdigit c" using cs by simp
  have sp: "\<not> c_isspace c" using c by (auto simp: c_isdigit_def c_isspace_def)
  have "takeWhile c_isdigit (c # s) = c # s" using digits cs by (metis takeWhile_eq_all_conv)
  moreover have "dec_val (c # s) = int n" using dec_val_to_string [of n] cs by simp
  ultimately show ?thesis using n sp digit_not_special [OF c] by (simp add: stoul_def cs)
qed

definition headers_of :: "(bytes \<Rightarrow> bytes) \<Rightarrow> (bytes \<times> bytes) list \<Rightarrow> params" where
  "headers_of lower hs = fold (\<lambda>(k, v). om_ins (lower k) v) hs []"

text \<open>A well-formed request: its head, the query of its url, the headers that matter, and the length of its body.\<close>

definition request_ok :: "(bytes \<Rightarrow> bytes) \<Rightarrow> bytes \<Rightarrow> bytes \<Rightarrow> (bytes \<times> bytes) list \<Rightarrow> bytes \<Rightarrow> (bytes \<times> bytes) list \<Rightarrow> nat \<Rightarrow> bool" where
  "request_ok lower method path qs version hs n \<longleftrightarrow>
     head_ok method (path @ ''?'' @ render_params qs) version hs \<and> CHR ''?'' \<notin> set path \<and> (\<forall>kv \<in> set qs. param_ok kv) \<and>
     om_get (headers_of lower hs) ''host'' = None \<and> om_get (headers_of lower hs) ''expect'' = None \<and>
     om_get (headers_of lower hs) ''content-length'' = Some (to_string n) \<and> n < 2 ^ 64"

definition request_head :: "bytes \<Rightarrow> bytes \<Rightarrow> (bytes \<times> bytes) list \<Rightarrow> bytes \<Rightarrow> (bytes \<times> bytes) list \<Rightarrow> bytes" where
  "request_head method path qs version hs = render_head method (path @ ''?'' @ render_params qs) version hs"

text \<open>The request as the handlers see it.\<close>

definition parsed_request :: "(bytes \<Rightarrow> bytes) \<Rightarrow> bytes \<Rightarrow> bytes \<Rightarrow> bytes \<Rightarrow> (bytes \<times> bytes) list \<Rightarrow> bytes \<Rightarrow> (bytes \<times> bytes) list \<Rightarrow> nat \<Rightarrow>
    http_request" where
  "parsed_request lower ip_port method path qs version hs n =
     (HTTPRequest_Reset ip_port HTTPRequest_new)\<lparr>hh_method := method, hh_url := path @ ''?'' @ render_params qs, hh_version := version,
        hh_parse_status := kHeaderParamKey, hh_headers := headers_of lower hs, hq_path := path,
        hh_query_params := fold (\<lambda>(k, v). om_ins k v) qs [], hq_remain_recv_len := of_nat n,
        hq_content_type := (case om_get (headers_of lower hs) ''content-type'' of Some t \<Rightarrow> t | None \<Rightarrow> []),
        hq_req_status := kHeaderReceiving\<rparr>"

definition receiving :: "bytes \<Rightarrow> bytes \<Rightarrow> http_request" where
  "receiving ip_port s = (HTTPRequest_Reset ip_port HTTPRequest_new)\<lparr>hq_req_status := kHeaderReceiving, hq_rbuf := s\<rparr>"

lemma ParseHeader_complete:
  assumes "request_ok lower method path qs version hs n" "length (request_head method path qs version hs @ rest) < kHTTPMaxMessage"
  shows "ParseHeader lower (receiving ip (request_head method path qs version hs @ rest)) =
    Some (int (length (request_head method path qs version hs)),
      (parsed_request lower ip method path qs version hs n)\<lparr>hq_rbuf := request_head method path qs version hs @ rest\<rparr>)"
proof -
  let ?url = "path @ ''?'' @ render_params qs"
  let ?head = "request_head method path qs version hs"
  have ok: "head_ok method ?url version hs" "\<forall>kv \<in> set qs. param_ok kv" and q: "CHR ''?'' \<notin> set path"
    using assms(1) by (simp_all add: request_ok_def)
  have sep: "strstr (?head @ rest) header_end = Some (length ?head - 4)" using strstr_head [OF ok(1)] by (simp add: request_head_def)
  have len: "6 \<le> length ?head" by (simp add: request_head_def length_render_head)
  have loop: "head_loop lower (?head @ rest) 0 (int (length ?head)) (receiving ip (?head @ rest)) =
    (receiving ip (?head @ rest))\<lparr>hh_method := method, hh_url := ?url, hh_version := version, hh_parse_status := kHeaderParamKey,
      hh_headers := headers_of lower hs\<rparr>"
    using head_loop_render [OF ok(1), of "receiving ip (?head @ rest)" lower rest]
    by (simp add: request_head_def receiving_def HTTPRequest_Reset_def headers_of_def)
  have "find_pos ((=) (CHR ''?'')) (path @ CHR ''?'' # render_params qs) = Some (length path)"
    by (rule find_pos_skip) (use q in auto)
  moreover have "params_loop (path @ ''?'' @ render_params qs) (Suc (length path)) [] = fold (\<lambda>(k, v). om_ins k v) qs []"
    using params_loop_render [OF ok(2), of "path @ ''?''" "[]"] by simp
  ultimately have url: "ParseGetUrl ((receiving ip (?head @ rest))\<lparr>hh_method := method, hh_url := ?url, hh_version := version,
      hh_parse_status := kHeaderParamKey, hh_headers := headers_of lower hs\<rparr>) =
    (receiving ip (?head @ rest))\<lparr>hh_method := method, hh_url := ?url, hh_version := version, hh_parse_status := kHeaderParamKey,
      hh_headers := headers_of lower hs, hq_path := path, hh_query_params := fold (\<lambda>(k, v). om_ins k v) qs []\<rparr>"
    using assms(1) by (simp add: ParseGetUrl_def request_ok_def receiving_def HTTPRequest_Reset_def)
  have rb: "hq_rbuf (receiving ip (?head @ rest)) = ?head @ rest" by (simp add: receiving_def)
  have hl: "int (length ?head - 4) + 4 = int (length ?head)" using len by simp
  have "\<not> int (length ?head) \<le> 5" using len by simp
  with assms sep loop url rb hl stoul_to_string [of n] show ?thesis
    by (simp add: ParseHeader_def Let_def request_ok_def expects_continue_def)
      (simp add: parsed_request_def receiving_def HTTPRequest_Reset_def HTTPRequest_new_def split: option.splits)
qed

lemma ParseHeader_partial:
  assumes "request_ok lower method path qs version hs n" "s @ t = request_head method path qs version hs" "t \<noteq> []"
    "length s < kHTTPMaxMessage"
  shows "ParseHeader lower (receiving ip s) = Some (0, receiving ip s)"
  using strstr_partial [of "method" "path @ ''?'' @ render_params qs" version hs s t] assms
  by (simp add: ParseHeader_def receiving_def request_ok_def request_head_def)

text \<open>What has happened once the body is complete: it went to the handler as one piece, and the response was prepared.\<close>

definition served :: "'u http_handles \<Rightarrow> bytes \<Rightarrow> 'u \<Rightarrow> 'u http_conn \<Rightarrow> 'u http_conn \<Rightarrow> bool" where
  "served h body u c c' \<longleftrightarrow> (hc_response c', hc_user c') = ha_PrepareResponse h (hc_response c) (ha_HandleBodyData h body u) \<and>
     hq_req_status (hc_request c') = kNewRequest"

lemma of_nat_64_zero: "n < 2 ^ 64 \<Longrightarrow> (of_nat n :: 64 word) = 0 \<longleftrightarrow> n = 0"
  by (auto simp: word_of_nat_eq_0_iff dest: dvd_imp_le)

lemma received_finishes:
  assumes "hq_req_status (hc_request c) = kBodyReceived"
  shows "\<exists>c'. read_loop lower h as c = Some (kReadAll, c', as) \<and>
    (hc_response c', hc_user c') = ha_PrepareResponse h (hc_response c) (hc_user c) \<and> hq_req_status (hc_request c') = kNewRequest"
  using assms by (subst read_loop.simps) (simp add: read_step_unfold split: prod.splits)

lemma DoRead_chunk:
  assumes "ch \<noteq> []" "length (hq_rbuf r @ ch) < kHTTPMaxMessage"
  shows "DoRead (Bytes ch # as) r = (kOk, r\<lparr>hq_rbuf := hq_rbuf r @ ch,
      hq_remain_recv_len := (if hq_req_status r = kBodyReceiving then hq_remain_recv_len r - of_nat (length ch)
        else hq_remain_recv_len r)\<rparr>, as)"
  using assms by (simp add: DoRead_unfold)

lemma body_phase:
  assumes "concat chunks = b2" "b2 \<noteq> []" "\<forall>ch \<in> set chunks. ch \<noteq> []" "length (b1 @ b2) < kHTTPMaxMessage"
    and "hq_req_status (hc_request c) = kBodyReceiving" "hq_rbuf (hc_request c) = b1" "hq_remain_recv_len (hc_request c) = of_nat (length b2)"
  shows "\<exists>c'. read_loop lower h (map Bytes chunks) c = Some (kReadAll, c', []) \<and> served h (b1 @ b2) (hc_user c) c c'"
  using assms
proof (induction chunks arbitrary: b1 b2 c)
  case (Cons ch chunks)
  let ?r = "hc_request c" and ?b = "concat chunks"
  have b2: "b2 = ch @ ?b" and ch: "ch \<noteq> []" using Cons.prems by simp_all
  let ?r1 = "?r\<lparr>hq_rbuf := b1 @ ch, hq_remain_recv_len := of_nat (length ?b)\<rparr>"
  have read: "DoRead (Bytes ch # map Bytes chunks) ?r = (kOk, ?r1, map Bytes chunks)"
    using DoRead_chunk [OF ch, of ?r "map Bytes chunks"] Cons.prems b2 by simp
  have max: "length (b1 @ ch) \<noteq> kHTTPMaxMessage" "length ?b < 2 ^ 64"
    using Cons.prems(4) b2 by (simp_all add: kHTTPMaxMessage_def)
  show ?case
  proof (cases "?b = []")
    case True
    then have "chunks = []" using Cons.prems(3) by (cases chunks) auto
    let ?c = "(deliver_body h (c\<lparr>hc_request := ?r1\<rparr>))\<lparr>hc_request := ?r1\<lparr>hq_rbuf := [], hq_req_status := kBodyReceived\<rparr>\<rparr>"
    have "read_step lower h (map Bytes (ch # chunks)) c = Continue ?c (map Bytes chunks)"
      using read Cons.prems(5) \<open>chunks = []\<close> by (simp add: read_step_unfold)
    with received_finishes [of ?c lower h "map Bytes chunks"] True b2 \<open>chunks = []\<close> show ?thesis
      by (subst read_loop.simps) (simp add: served_def deliver_body_def)
  next
    case False
    then have "(of_nat (length ?b) :: 64 word) \<noteq> 0" using of_nat_64_zero [OF max(2)] by simp
    then have "read_step lower h (map Bytes (ch # chunks)) c = Continue (c\<lparr>hc_request := ?r1\<rparr>) (map Bytes chunks)"
      using read max Cons.prems(5) by (simp add: read_step_unfold)
    moreover have "\<exists>c'. read_loop lower h (map Bytes chunks) (c\<lparr>hc_request := ?r1\<rparr>) = Some (kReadAll, c', []) \<and>
        served h ((b1 @ ch) @ ?b) (hc_user (c\<lparr>hc_request := ?r1\<rparr>)) (c\<lparr>hc_request := ?r1\<rparr>) c'"
      by (rule Cons.IH) (use Cons.prems False b2 in simp_all)
    ultimately show ?thesis using b2 by (subst read_loop.simps) (simp add: served_def)
  qed
qed simp

lemma buf_status_commute: "(r :: http_request)\<lparr>hq_rbuf := s, hq_req_status := st\<rparr> = r\<lparr>hq_req_status := st, hq_rbuf := s\<rparr>"
  by (cases r) simp

lemma head_received_body:
  assumes "request_ok lower method path qs version hs (length (b1 @ b2))"
    and "hc_request c = (parsed_request lower ip method path qs version hs (length (b1 @ b2)))\<lparr>hq_rbuf := head @ b1\<rparr>"
    and "\<forall>r s u. ha_HandleRequest h (r\<lparr>hq_rbuf := s\<rparr>) u = ha_HandleRequest h r u"
    and "ha_HandleRequest h ((parsed_request lower ip method path qs version hs (length (b1 @ b2)))\<lparr>hq_req_status := kBodyReceiving\<rparr>) (hc_user c) = (False, u)"
    and "concat chunks = b2" "\<forall>ch \<in> set chunks. ch \<noteq> []" "length (b1 @ b2) < kHTTPMaxMessage"
  shows "\<exists>c'. (case head_received h (length head) (map Bytes chunks) c of
      Continue c1 as \<Rightarrow> read_loop lower h as c1 | Finish s c1 as \<Rightarrow> Some (s, c1, as) | Abort \<Rightarrow> None) = Some (kReadAll, c', []) \<and>
    served h (b1 @ b2) u c c'"
proof -
  let ?req = "parsed_request lower ip method path qs version hs (length (b1 @ b2))"
  let ?r = "?req\<lparr>hq_req_status := kBodyReceiving, hq_rbuf := head @ b1\<rparr>"
  let ?r2 = "?req\<lparr>hq_req_status := kBodyReceiving, hq_rbuf := b1, hq_remain_recv_len := of_nat (length b2)\<rparr>"
  have hr: "ha_HandleRequest h (?req\<lparr>hq_rbuf := head @ b1, hq_req_status := kBodyReceiving\<rparr>) (hc_user c) = (False, u)"
  proof -
    have "ha_HandleRequest h (?req\<lparr>hq_req_status := kBodyReceiving\<rparr>\<lparr>hq_rbuf := head @ b1\<rparr>) (hc_user c) = (False, u)"
      using assms(3,4) by (simp only:)
    then show ?thesis by (simp only: buf_status_commute)
  qed
  have no100: "\<not> hq_reply_100continue ?req" by (simp add: parsed_request_def HTTPRequest_Reset_def)
  have rem: "hq_remain_recv_len ?req - of_nat (length b1) = of_nat (length b2)" by (simp add: parsed_request_def)
  have len: "length b2 < 2 ^ 64" using assms(7) by (simp add: kHTTPMaxMessage_def)
  show ?thesis
  proof (cases "b2 = []")
    case True
    then have "chunks = []" using assms(5,6) by (cases chunks) auto
    let ?c = "deliver_body h (c\<lparr>hc_user := u, hc_request := ?r2\<lparr>hq_req_status := kBodyReceived\<rparr>\<rparr>)"
    have "head_received h (length head) (map Bytes chunks) c = Continue ?c []"
      using hr no100 rem True \<open>chunks = []\<close> by (simp add: head_received_def assms(2))
    with received_finishes [of ?c lower h "[]"] True show ?thesis by (simp add: served_def deliver_body_def)
  next
    case False
    then have "(of_nat (length b2) :: 64 word) \<noteq> 0" using of_nat_64_zero [OF len] by simp
    then have "head_received h (length head) (map Bytes chunks) c = Continue (c\<lparr>hc_user := u, hc_request := ?r2\<rparr>) (map Bytes chunks)"
      using hr no100 rem by (simp add: head_received_def assms(2))
    moreover have "\<exists>c'. read_loop lower h (map Bytes chunks) (c\<lparr>hc_user := u, hc_request := ?r2\<rparr>) = Some (kReadAll, c', []) \<and>
        served h (b1 @ b2) (hc_user (c\<lparr>hc_user := u, hc_request := ?r2\<rparr>)) (c\<lparr>hc_user := u, hc_request := ?r2\<rparr>) c'"
      by (rule body_phase) (use assms(5-7) False in simp_all)
    ultimately show ?thesis by (simp add: served_def)
  qed
qed

lemma append_split: "xs @ ys = zs @ ws \<Longrightarrow> length zs \<le> length xs \<Longrightarrow> \<exists>b. xs = zs @ b \<and> b @ ys = ws"
proof -
  assume e: "xs @ ys = zs @ ws" and l: "length zs \<le> length xs"
  have "take (length zs) (xs @ ys) = zs" by (simp add: e)
  with l have x: "xs = zs @ drop (length zs) xs" by (simp add: append_eq_conv_conj [symmetric]) (metis append_take_drop_id)
  with e have "drop (length zs) xs @ ys = ws" by (metis append.assoc append_same_eq same_append_eq)
  with x show ?thesis by blast
qed

lemma receiving_read:
  assumes "ch \<noteq> []" "length (s @ ch) < kHTTPMaxMessage"
  shows "DoRead (Bytes ch # as) (receiving ip s) = (kOk, receiving ip (s @ ch), as)"
  using DoRead_chunk [of ch "receiving ip s" as] assms by (simp add: receiving_def HTTPRequest_Reset_def HTTPRequest_new_def)

lemma header_phase:
  fixes c :: "'u http_conn"
  assumes "request_ok lower method path qs version hs (length body)"
    and "\<forall>r s u. ha_HandleRequest h (r\<lparr>hq_rbuf := s\<rparr>) u = ha_HandleRequest h r u"
    and "ha_HandleRequest h ((parsed_request lower ip method path qs version hs (length body))\<lparr>hq_req_status := kBodyReceiving\<rparr>) (hc_user c) = (False, u)"
    and "length (request_head method path qs version hs @ body) \<le> kHTTPMaxHeader"
    and "s @ concat chunks = request_head method path qs version hs @ body" "length s < length (request_head method path qs version hs)"
    and "\<forall>ch \<in> set chunks. ch \<noteq> []" "hc_request c = receiving ip s"
  shows "\<exists>c'. read_loop lower h (map Bytes chunks) c = Some (kReadAll, c', []) \<and> served h body u c c'"
  using assms(3,5-8)
proof (induction chunks arbitrary: s c)
  case Nil
  then have "length s = length (request_head method path qs version hs) + length body" by (metis append_Nil2 concat.simps(1) length_append)
  with Nil.prems(3) show ?case by simp
next
  case (Cons ch chunks)
  let ?head = "request_head method path qs version hs"
  have ch: "ch \<noteq> []" using Cons.prems by simp
  have "length s + length ch + length (concat chunks) = length ?head + length body"
    using arg_cong [OF Cons.prems(2), of length] by simp
  then have len: "length (s @ ch) \<le> kHTTPMaxHeader" "length (s @ ch) < kHTTPMaxMessage"
    using assms(4) by (simp_all add: kHTTPMaxHeader_def kHTTPMaxMessage_def)
  note read = receiving_read [OF ch len(2), of "map Bytes chunks" ip]
  show ?case
  proof (cases "length (s @ ch) < length ?head")
    case True
    obtain t where t: "(s @ ch) @ t = ?head" "t \<noteq> []"
    proof -
      have "take (length ?head) ((s @ ch) @ concat chunks) = ?head" using Cons.prems(2) by simp
      then have "(s @ ch) @ take (length ?head - length (s @ ch)) (concat chunks) = ?head" using True by (simp only: take_append) simp
      with True that show thesis by (metis append_Nil2 less_irrefl)
    qed
    note none = ParseHeader_partial [OF assms(1) t len(2), of ip]
    have "read_step lower h (map Bytes (ch # chunks)) c = Continue (c\<lparr>hc_request := receiving ip (s @ ch)\<rparr>) (map Bytes chunks)"
      using read none len Cons.prems(5) by (simp add: read_step_unfold) (simp add: receiving_def)
    moreover have "\<exists>c'. read_loop lower h (map Bytes chunks) (c\<lparr>hc_request := receiving ip (s @ ch)\<rparr>) = Some (kReadAll, c', []) \<and>
        served h body u (c\<lparr>hc_request := receiving ip (s @ ch)\<rparr>) c'"
      by (rule Cons.IH) (use Cons.prems True in simp_all)
    ultimately show ?thesis by (subst read_loop.simps) (simp add: served_def)
  next
    case False
    obtain b1 where b1: "s @ ch = ?head @ b1" "b1 @ concat chunks = body"
      using append_split [of "s @ ch" "concat chunks" ?head body] Cons.prems(2) False by auto
    let ?req = "parsed_request lower ip method path qs version hs (length (b1 @ concat chunks))"
    let ?c = "c\<lparr>hc_request := ?req\<lparr>hq_rbuf := ?head @ b1\<rparr>\<rparr>"
    have parsed: "ParseHeader lower (receiving ip (?head @ b1)) = Some (int (length ?head), ?req\<lparr>hq_rbuf := ?head @ b1\<rparr>)"
      by (rule ParseHeader_complete) (use assms(1) b1 len in simp_all)
    have "0 < length ?head" using length_render_head by (simp add: request_head_def render_head_def)
    then have "read_step lower h (map Bytes (ch # chunks)) c = head_received h (length ?head) (map Bytes chunks) ?c"
      using read parsed len Cons.prems(5) b1(1) by (simp add: read_step_unfold) (simp add: receiving_def)
    moreover have "\<exists>c'. (case head_received h (length ?head) (map Bytes chunks) ?c of
        Continue c1 as \<Rightarrow> read_loop lower h as c1 | Finish s c1 as \<Rightarrow> Some (s, c1, as) | Abort \<Rightarrow> None) = Some (kReadAll, c', []) \<and>
      served h (b1 @ concat chunks) u ?c c'"
      by (rule head_received_body [where ?b1.0 = b1 and ?b2.0 = "concat chunks"])
        (use assms(1,2,4) Cons.prems b1 len in \<open>simp_all add: kHTTPMaxHeader_def kHTTPMaxMessage_def\<close>)
    ultimately show ?thesis using b1(2) by (subst read_loop.simps) (simp add: served_def)
  qed
qed

lemma http_request_served:
  fixes c :: "'u http_conn"
  assumes "request_ok lower method path qs version hs (length body)"
    and "\<forall>r s u. ha_HandleRequest h (r\<lparr>hq_rbuf := s\<rparr>) u = ha_HandleRequest h r u"
    and "ha_HandleRequest h ((parsed_request lower (pc_ip_port c) method path qs version hs (length body))\<lparr>hq_req_status := kBodyReceiving\<rparr>)
      (hc_user c) = (False, u)"
    and "length (request_head method path qs version hs @ body) \<le> kHTTPMaxHeader"
    and "concat chunks = request_head method path qs version hs @ body" "\<forall>ch \<in> set chunks. ch \<noteq> []"
    and "hq_req_status (hc_request c) = kNewRequest" "hr_finished (hc_response c)"
  shows "\<exists>c'. HTTPConn_GetRequest lower h (map Bytes chunks) c = Some (kReadAll, c', []) \<and> pc_is_reply c' \<and>
    (hc_response c', hc_user c') = ha_PrepareResponse h (HTTPResponse_Reset (hc_response c)) (ha_HandleBodyData h body u)"
proof -
  let ?c = "c\<lparr>hc_request := receiving (pc_ip_port c) [], hc_response := HTTPResponse_Reset (hc_response c)\<rparr>"
  have "(HTTPRequest_Reset ip r)\<lparr>hq_req_status := kHeaderReceiving\<rparr> = receiving ip []" for ip r
    by (cases r) (simp add: HTTPRequest_Reset_def receiving_def HTTPRequest_new_def)
  then have "ReadData lower h (map Bytes chunks) c = read_loop lower h (map Bytes chunks) ?c"
    using assms(7,8) by (simp add: ReadData_unfold Finished_def)
  moreover have "\<exists>c'. read_loop lower h (map Bytes chunks) ?c = Some (kReadAll, c', []) \<and> served h body u ?c c'"
    by (rule header_phase [where s = "[]"]) (use assms in \<open>simp_all add: request_head_def render_head_def\<close>)
  ultimately show ?thesis by (auto simp: GetRequest_unfold served_def base_set_is_reply_def)
qed


definition demo_handles :: "bytes list http_handles" where
  "demo_handles = \<lparr>ha_HandleRequest = (\<lambda>r u. (False, u @ [hh_method r, hq_path r])), ha_HandleBodyData = (\<lambda>s u. u @ [s]),
     ha_PrepareResponse = (\<lambda>p u. (SetContentLength 2 p, u)), ha_WriteResponseBody = (\<lambda>n u. (Filled (take n (last u)), u)),
     ha_HandleConnClosed = id\<rparr>"


section \<open>Sending a response\<close>

lemma print_pieces_fit:
  "sz + length (concat ps) < kHTTPMaxHeader \<Longrightarrow> print_pieces sz ps = Some (True, sz + length (concat ps))"
proof (induction ps arbitrary: sz)
  case (Cons p ps)
  then have "sz + length p < kHTTPMaxHeader" by simp
  moreover have "kHTTPMaxHeader < kHTTPMaxMessage" by (simp add: kHTTPMaxHeader_def kHTTPMaxMessage_def)
  ultimately show ?case using Cons.IH [of "sz + length p"] Cons.prems by (simp add: Let_def add.assoc)
qed simp

text \<open>An application that fills the buffer with the bytes of its body one after the other; \<open>rest u\<close> is what it still holds.\<close>

definition streams :: "'u http_handles \<Rightarrow> ('u \<Rightarrow> bytes) \<Rightarrow> bool" where
  "streams h rest \<longleftrightarrow> (\<forall>n u. 0 < n \<longrightarrow> rest u \<noteq> [] \<longrightarrow>
     (\<exists>k u'. ha_WriteResponseBody h n u = (Filled (take k (rest u)), u') \<and> rest u' = drop k (rest u) \<and> 0 < k \<and> k \<le> n))"

definition response_head :: "http_response \<Rightarrow> bytes" where
  "response_head p = concat (header_pieces (hr_status_code p) (the (map_of http_status_map (hr_status_code p))) (hr_headers p))"

text \<open>Where a response stands when \<open>wire\<close> has been sent of the head \<open>H\<close> and the body.\<close>

definition reply_inv :: "('u \<Rightarrow> bytes) \<Rightarrow> bytes \<Rightarrow> bytes \<Rightarrow> bytes \<Rightarrow> http_response \<Rightarrow> 'u \<Rightarrow> bool" where
  "reply_inv rest H body wire p u \<longleftrightarrow> hr_status_code p \<noteq> 100 \<and> length body < 2 ^ 64 \<and>
     (case hr_resp_status p of
        kPrepareHeader \<Rightarrow>
          if hr_finished p then wire = H @ body
          else wire = [] \<and> rest u = body \<and> hr_remain_send_len p = of_nat (length body) \<and> hr_wbuf_pos p = 0 \<and>
            status_code_ok (hr_status_code p) \<and> response_head p = H \<and> length H < kHTTPMaxHeader
      | kSendingHeader \<Rightarrow> \<not> hr_finished p \<and> wire @ hr_wbuf p = H \<and> hr_wbuf p \<noteq> [] \<and> rest u = body \<and>
          hr_remain_send_len p = of_nat (length body) \<and> hr_buf_len p = int (length (hr_wbuf p))
      | kSendingBody \<Rightarrow> \<not> hr_finished p \<and> wire @ hr_wbuf p @ rest u = H @ body \<and> length (hr_wbuf p) + length (rest u) \<le> length body \<and>
          hr_remain_send_len p = of_nat (length (hr_wbuf p) + length (rest u)) \<and> hr_buf_len p = int (length (hr_wbuf p)) \<and>
          hr_wbuf_pos p + length (hr_wbuf p) \<le> kHTTPMaxMessage \<and> hr_wbuf_pos p < kHTTPMaxMessage)"

lemma prepare_inv:
  assumes "reply_inv rest H body wire p u" "\<not> hr_finished p"
  shows "\<exists>p'. flush_prepare p = (Some (Inr ()), p') \<and> reply_inv rest H body wire p' u \<and> hr_resp_status p' \<noteq> kPrepareHeader"
proof (cases "hr_resp_status p = kPrepareHeader")
  case False
  with assms show ?thesis by (simp add: flush_prepare_def)
next
  case True
  with assms have i: "wire = []" "rest u = body" "hr_remain_send_len p = of_nat (length body)" "status_code_ok (hr_status_code p)"
    "response_head p = H" "length H < kHTTPMaxHeader" "hr_status_code p \<noteq> 100" "length body < 2 ^ 64"
    by (simp_all add: reply_inv_def)
  obtain reason where reason: "map_of http_status_map (hr_status_code p) = Some reason" using status_code_known [OF i(4)] by blast
  have H: "concat (header_pieces (hr_status_code p) reason (hr_headers p)) = H" using i(5) reason by (simp add: response_head_def)
  then have ne: "H \<noteq> []" by (auto simp: header_pieces_def status_line_def)
  have "SerializeHeader p = Some (True, p\<lparr>hr_wbuf := H, hr_buf_len := int (length H)\<rparr>)"
    using print_pieces_fit [of 0 "header_pieces (hr_status_code p) reason (hr_headers p)"] H i(6) reason
    by (simp add: SerializeHeader_def Let_def)
  with True i ne assms(2) show ?thesis
    by (simp add: flush_prepare_def) (simp add: reply_inv_def)
qed

lemma header_inv:
  assumes "reply_inv rest H body wire p u" "\<not> hr_finished p" "hr_resp_status p \<noteq> kPrepareHeader"
  shows "\<exists>r out p' as'. flush_header as p = (r, out, p', as') \<and> reply_inv rest H body (wire @ out) p' u \<and> \<not> hr_finished p' \<and>
    hr_resp_status p' \<noteq> kPrepareHeader"
proof (cases "hr_resp_status p = kSendingHeader")
  case False
  with assms show ?thesis by (simp add: flush_header_unfold)
next
  case True
  obtain w as' where w: "sys_write (hr_wbuf p) as = (w, as')" by (cases "sys_write (hr_wbuf p) as")
  show ?thesis
  proof (cases w)
    case (Werror e)
    with True w assms show ?thesis by (simp add: flush_header_unfold)
  next
    case (Nwritten k)
    have k: "k \<le> length (hr_wbuf p)" using sys_write_length [of "hr_wbuf p" as k as'] w Nwritten by simp
    show ?thesis
    proof (cases "k = 0 \<or> k = length (hr_wbuf p)")
      case True
      with \<open>hr_resp_status p = kSendingHeader\<close> w Nwritten assms show ?thesis
        by (auto simp: flush_header_unfold reply_inv_def kHTTPMaxMessage_def)
    next
      case False
      with \<open>hr_resp_status p = kSendingHeader\<close> w Nwritten k assms show ?thesis
        by (auto simp: flush_header_unfold reply_inv_def of_nat_diff)
    qed
  qed
qed

lemma take_drop_append: "take k xs @ drop k xs @ ys = xs @ ys"
  by (metis append.assoc append_take_drop_id)

lemma fill_inv:
  assumes "reply_inv rest H body wire p u" "hr_resp_status p = kSendingBody" "hr_remain_send_len p \<noteq> 0" "streams h rest"
  shows "\<exists>p' u'. fill_body h u p = Some (p', u') \<and> reply_inv rest H body wire p' u' \<and> hr_resp_status p' = kSendingBody \<and>
    hr_wbuf p' \<noteq> [] \<and> hr_finished p' = hr_finished p"
proof (cases "hr_wbuf p = []")
  case False
  with assms show ?thesis by (auto simp: fill_body_def reply_inv_def)
next
  case True
  let ?m = "min (kHTTPMaxMessage - hr_wbuf_pos p) (unat (hr_remain_send_len p))"
  have i: "length (rest u) < 2 ^ 64" "hr_wbuf_pos p < kHTTPMaxMessage" "hr_remain_send_len p = of_nat (length (rest u))" "hr_buf_len p = 0"
    using assms(1,2) True by (auto simp: reply_inv_def)
  have rem: "unat (hr_remain_send_len p) = length (rest u)" using i(1,3) by (simp add: unat_of_nat)
  have ne: "rest u \<noteq> []" using assms(3) i(3) by auto
  then have m: "0 < ?m" using i(2) rem by simp
  obtain k u' where k: "ha_WriteResponseBody h ?m u = (Filled (take k (rest u)), u')" "rest u' = drop k (rest u)" "0 < k" "k \<le> ?m"
    using assms(4) [unfolded streams_def, rule_format, OF m ne] by blast
  have le: "length (take k (rest u)) \<le> ?m" "k \<le> length (rest u)" using k(4) rem by simp_all
  then have "fill_body h u p = Some (p\<lparr>hr_wbuf := take k (rest u), hr_buf_len := int (length (take k (rest u)))\<rparr>, u')"
    using k(1) i(4) by (simp add: fill_body_def Let_def not_less)
  moreover have "take k (rest u) \<noteq> []" using ne k(3) by simp
  moreover have "reply_inv rest H body wire (p\<lparr>hr_wbuf := take k (rest u), hr_buf_len := int (length (take k (rest u)))\<rparr>) u'"
    using assms(1,2) True k(2,4) le i by (auto simp: reply_inv_def)
  ultimately show ?thesis using assms(2) by simp
qed

lemma body_inv:
  assumes "reply_inv rest H body wire p u" "\<not> hr_finished p" "hr_resp_status p \<noteq> kPrepareHeader" "streams h rest"
  shows "\<exists>b out p' u' as'. flush_body h as u p = Some (b, out, p', u', as') \<and> reply_inv rest H body (wire @ out) p' u' \<and>
    (hr_finished p' \<longrightarrow> hr_resp_status p' = kPrepareHeader)"
proof (cases "hr_resp_status p = kSendingBody")
  case False
  with assms show ?thesis by (simp add: flush_body_unfold) blast
next
  case body: True
  show ?thesis
  proof (cases "hr_remain_send_len p = 0")
    case True
    have "length (hr_wbuf p) + length (rest u) < 2 ^ 64" using assms(1) body by (auto simp: reply_inv_def)
    then have "hr_wbuf p = []" "rest u = []"
      using of_nat_64_zero [of "length (hr_wbuf p) + length (rest u)"] assms(1) body True by (auto simp: reply_inv_def)
    with True body assms(1) show ?thesis by (simp add: flush_body_unfold reply_inv_def) blast
  next
    case False
    then obtain p1 u1 where f: "fill_body h u p = Some (p1, u1)" and inv: "reply_inv rest H body wire p1 u1" and st: "hr_resp_status p1 = kSendingBody"
      and ne: "hr_wbuf p1 \<noteq> []" and fin: "hr_finished p1 = hr_finished p"
      using fill_inv [OF assms(1) body _ assms(4)] by blast
    have len: "hr_buf_len p1 = int (length (hr_wbuf p1))" using inv st by (simp add: reply_inv_def)
    obtain w as' where w: "sys_write (hr_wbuf p1) as = (w, as')" by (cases "sys_write (hr_wbuf p1) as")
    show ?thesis
    proof (cases w)
      case (Werror e)
      with body False f inv len w fin assms(2) show ?thesis by (simp add: flush_body_unfold)
    next
      case (Nwritten k)
      have k: "k \<le> length (hr_wbuf p1)" using sys_write_length [of "hr_wbuf p1" as k as'] w Nwritten by simp
      show ?thesis
      proof (cases "k = 0")
        case True
        with body False f inv len w Nwritten fin assms(2) show ?thesis by (simp add: flush_body_unfold) blast
      next
        case pos: False
        let ?pos = "if hr_wbuf_pos p1 + k = kHTTPMaxMessage then 0 else hr_wbuf_pos p1 + k"
        let ?p = "p1\<lparr>hr_wbuf := drop k (hr_wbuf p1), hr_wbuf_pos := ?pos, hr_buf_len := hr_buf_len p1 - int k,
          hr_remain_send_len := hr_remain_send_len p1 - of_nat k\<rparr>"
        have "flush_body h as u p = Some (True, take k (hr_wbuf p1), ?p, u1, as')"
          using body False f len w Nwritten pos by (simp add: flush_body_unfold Let_def)
        moreover have "reply_inv rest H body (wire @ take k (hr_wbuf p1)) ?p u1"
        proof -
          have "hr_remain_send_len p1 - of_nat k = of_nat (length (hr_wbuf p1) - k + length (rest u1))"
            using inv st k by (simp add: reply_inv_def of_nat_diff)
          with inv st k len pos show ?thesis by (auto simp: reply_inv_def of_nat_diff take_drop_append kHTTPMaxMessage_def)
        qed
        ultimately show ?thesis using fin assms(2) by (simp, blast)
      qed
    qed
  qed
qed

lemma Flush_inv:
  assumes "reply_inv rest H body wire p u" "\<not> hr_finished p" "streams h rest"
  shows "\<exists>b out p' u' as'. Flush h as u p = Some (b, out, p', u', as') \<and> reply_inv rest H body (wire @ out) p' u' \<and>
    (hr_finished p' \<longrightarrow> hr_resp_status p' = kPrepareHeader)"
proof -
  obtain p1 where p1: "flush_prepare p = (Some (Inr ()), p1)" "reply_inv rest H body wire p1 u" "hr_resp_status p1 \<noteq> kPrepareHeader"
    using prepare_inv [OF assms(1,2)] by blast
  have nf: "\<not> hr_finished p1" using p1(2,3) by (cases "hr_resp_status p1") (simp_all add: reply_inv_def)
  obtain r out p2 as2 where p2: "flush_header as p1 = (r, out, p2, as2)" "reply_inv rest H body (wire @ out) p2 u" "\<not> hr_finished p2"
    "hr_resp_status p2 \<noteq> kPrepareHeader"
    using header_inv [OF p1(2) nf p1(3)] by blast
  show ?thesis
  proof (cases r)
    case (Inl b)
    with p1(1) p2 show ?thesis by (simp add: Flush_unfold)
  next
    case (Inr x)
    obtain b out' p3 u3 as3 where "flush_body h as2 u p2 = Some (b, out', p3, u3, as3)" "reply_inv rest H body ((wire @ out) @ out') p3 u3"
      "hr_finished p3 \<longrightarrow> hr_resp_status p3 = kPrepareHeader"
      using body_inv [OF p2(2-4) assms(3), where as = as2] by blast
    with p1(1) p2(1) Inr show ?thesis by (simp add: Flush_unfold)
  qed
qed

text \<open>The calls of \<^verbatim>\<open>SendReply\<close> for one response: as long as it answers \<open>kWriteHalf\<close> it is called again.\<close>

fun send_calls :: "'u http_handles \<Rightarrow> write_answer list list \<Rightarrow> 'u http_conn \<Rightarrow> (WriteStatus \<times> bytes \<times> 'u http_conn) option" where
  "send_calls h [] c = Some (kWriteHalf, [], c)"
| "send_calls h (as # ass) c =
     (case HTTPConn_SendReply h as c of
        None \<Rightarrow> None
      | Some (s, out, c) \<Rightarrow>
          if s = kWriteHalf then map_option (\<lambda>(s, out', c). (s, out @ out', c)) (send_calls h ass c) else Some (s, out, c))"

lemma send_calls_inv:
  fixes c :: "'u http_conn"
  assumes "reply_inv rest H body wire (hc_response c) (hc_user c)" "\<not> hr_finished (hc_response c)" "streams h rest"
  shows "\<exists>s out c'. send_calls h ass c = Some (s, out, c') \<and> (\<exists>more. (wire @ out) @ more = H @ body) \<and>
    (s = kWriteAll \<longrightarrow> wire @ out = H @ body)"
  using assms(1,2)
proof (induction ass arbitrary: c wire)
  case Nil
  have "\<exists>more. wire @ more = H @ body"
    using Nil by (cases "hr_resp_status (hc_response c)") (auto simp: reply_inv_def)
  then show ?case by simp
next
  case (Cons as ass)
  obtain b out p u as' where f: "Flush h as (hc_user c) (hc_response c) = Some (b, out, p, u, as')" and inv: "reply_inv rest H body (wire @ out) p u"
    and fin: "hr_finished p \<longrightarrow> hr_resp_status p = kPrepareHeader"
    using Flush_inv [OF Cons.prems assms(3), where as = as] by blast
  have pre: "\<exists>more. (wire @ out) @ more = H @ body"
    using inv fin by (cases "hr_resp_status p") (auto simp: reply_inv_def split: if_splits, metis append.right_neutral)
  consider (error) "\<not> b" | (all) "b" "hr_finished p" | (half) "b" "\<not> hr_finished p" by blast
  then show ?case
  proof cases
    case error
    with f pre show ?thesis by (simp add: SendReply_unfold)
  next
    case all
    with fin inv have "wire @ out = H @ body" by (simp add: reply_inv_def)
    moreover from this have "\<exists>more. wire @ out @ more = H @ body" by (intro exI [of _ "[]"]) simp
    ultimately show ?thesis using all f by (simp add: SendReply_unfold Finished_def)
  next
    case half
    let ?c = "c\<lparr>hc_response := p, hc_user := u\<rparr>"
    have "\<exists>s out' c'. send_calls h ass ?c = Some (s, out', c') \<and> (\<exists>more. ((wire @ out) @ out') @ more = H @ body) \<and>
        (s = kWriteAll \<longrightarrow> (wire @ out) @ out' = H @ body)"
      by (rule Cons.IH) (use inv half in simp_all)
    with f half show ?thesis by (auto simp: SendReply_unfold Finished_def)
  qed
qed

lemma http_reply_sent:
  fixes c :: "'u http_conn"
  assumes "streams h rest" "rest (hc_user c) = body" "length body < 2 ^ 64" "hr_remain_send_len (hc_response c) = of_nat (length body)"
    and "hr_resp_status (hc_response c) = kPrepareHeader" "\<not> hr_finished (hc_response c)" "hr_wbuf_pos (hc_response c) = 0"
    and "status_code_ok (hr_status_code (hc_response c))" "hr_status_code (hc_response c) \<noteq> 100"
    and "length (response_head (hc_response c)) < kHTTPMaxHeader"
  shows "\<exists>s wire c'. send_calls h ass c = Some (s, wire, c') \<and> (\<exists>more. wire @ more = response_head (hc_response c) @ body) \<and>
    (s = kWriteAll \<longrightarrow> wire = response_head (hc_response c) @ body)"
proof -
  have "reply_inv rest (response_head (hc_response c)) body [] (hc_response c) (hc_user c)" using assms by (simp add: reply_inv_def)
  from send_calls_inv [OF this assms(6,1), of ass] show ?thesis by auto
qed


definition stream_handles :: "bytes http_handles" where
  "stream_handles = \<lparr>ha_HandleRequest = (\<lambda>r u. (False, u)), ha_HandleBodyData = (\<lambda>s u. u), ha_PrepareResponse = Pair,
     ha_WriteResponseBody = (\<lambda>n u. (Filled (take (min n 2) u), drop (min n 2) u)), ha_HandleConnClosed = id\<rparr>"

definition demo_reply :: "bytes http_conn" where
  "demo_reply = (HTTPConn_new 7 ''p'' (0, 0) ''abc'')\<lparr>hc_response := SetContentLength 3 (HTTPResponse_Reset HTTPResponse_new)\<rparr>"

lemma stream_handles_stream: "streams stream_handles id"
proof -
  have "\<exists>k. take (min n 2) u = take k u \<and> drop (min n 2) u = drop k u \<and> 0 < k \<and> k \<le> n" if "0 < n" for n and u :: bytes
    using that by (intro exI [of _ "min n 2"]) simp
  then show ?thesis unfolding streams_def stream_handles_def by simp
qed

lemma demo_reply_head: "response_head (hc_response demo_reply) = ''HTTP/1.1 200 OK'' @ CRLF @ ''Content-Length: 3'' @ CRLF @ CRLF"
proof -
  have "to_string 200 = ''200''" "to_string 3 = ''3''" by code_simp+
  then show ?thesis
    by (simp add: response_head_def demo_reply_def SetContentLength_def HTTPResponse_Reset_def HTTPResponse_new_def
        HTTPResponse_SetHeaders_def om_get_def header_pieces_def status_line_def http_status_map_def cstr_def)
qed


section \<open>Where the code departs from its intent\<close>

text \<open>The application is told that the connection was closed whenever there is nothing to read yet.\<close>

lemma closed_while_open:
  assumes "hq_req_status (hc_request c) = kHeaderReceiving" "length (hq_rbuf (hc_request c)) < kHTTPMaxMessage"
  shows "ReadData lower h [] c = Some (kReadHalf, closed_by h c, [])"
  using assms by (simp add: ReadData_unfold read_loop.simps read_step_unfold DoRead_unfold)

text \<open>
  After a 100-continue reply \<^verbatim>\<open>finished_\<close> stays set, so the first call for the real response reports it complete
  although only a part of its body was sent.
\<close>

lemma continue_truncates:
  "case HTTPConn_SendReply stream_handles [Accept 100, Accept 1] (demo_reply\<lparr>hc_response := (hc_response demo_reply)\<lparr>hr_finished := True\<rparr>\<rparr>) of
     Some (s, wire, c) \<Rightarrow> s = kWriteAll \<and> hr_remain_send_len (hc_response c) = 2 | None \<Rightarrow> False"
proof -
  let ?p = "(hc_response demo_reply)\<lparr>hr_finished := True\<rparr>"
  have p: "hr_resp_status ?p = kPrepareHeader" "hr_status_code ?p = 200" "hr_remain_send_len ?p = 3" "hr_wbuf_pos ?p = 0" "hc_user demo_reply = ''abc''"
    by (simp_all add: demo_reply_def HTTPConn_new_def pink_conn.defs PinkConn_new_def SetContentLength_def HTTPResponse_Reset_def
        HTTPResponse_new_def HTTPResponse_SetHeaders_def om_get_def)
  have H: "concat (header_pieces 200 ''OK'' (hr_headers ?p)) = ''HTTP/1.1 200 OK'' @ CRLF @ ''Content-Length: 3'' @ CRLF @ CRLF"
    using demo_reply_head p(2) by (simp add: response_head_def http_status_map_def)
  have "SerializeHeader ?p = Some (True, ?p\<lparr>hr_wbuf := ''HTTP/1.1 200 OK'' @ CRLF @ ''Content-Length: 3'' @ CRLF @ CRLF, hr_buf_len := 38\<rparr>)"
    using print_pieces_fit [of 0 "header_pieces 200 ''OK'' (hr_headers ?p)"] p(2) H
    by (simp add: SerializeHeader_def http_status_map_def kHTTPMaxHeader_def)
  then show ?thesis using p
    by (simp add: SendReply_unfold Flush_unfold flush_prepare_def kHTTPMaxHeader_def flush_header_unfold flush_body_unfold fill_body_def
        stream_handles_def kHTTPMaxMessage_def Finished_def Let_def)
qed

text \<open>More bytes than the announced length, for instance of a following request, make the remaining length wrap around.\<close>

lemma pipelined_wraps:
  assumes "snd (DoRead [Bytes s] r) = (r', [])" "hq_req_status r = kBodyReceiving" "hq_remain_recv_len r = 1" "length s = 2" "hq_rbuf r = []"
  shows "hq_remain_recv_len r' = - 1"
  using assms by (cases s) (auto simp: DoRead_unfold kHTTPMaxMessage_def)

text \<open>A malformed length is an uncaught exception.\<close>

lemma bad_length_throws: "stoul ''abc'' = None" "stoul ''99999999999999999999'' = None"
  by code_simp+

end
