(* ===== verification/Tls.thy ===== *)
theory Tls
  imports HttpConn WorkerThread
begin

text \<open>
  The code under \<^verbatim>\<open>__ENABLE_SSL\<close>: setting up the TLS context of a server (\<^verbatim>\<open>ServerThread::EnableSecurity\<close>), the TLS object of a
  connection (\<^verbatim>\<open>PinkConn::CreateSSL\<close>) and the worker that asks for it, and the reads and writes of an HTTP connection
  through \<^verbatim>\<open>SSL_read\<close> and \<^verbatim>\<open>SSL_write\<close>.

  A connection takes the mark of its server when it is made (\<^verbatim>\<open>HTTPConn::security_\<close>) and then uses one branch for all its reads and writes, so the
  TLS connection has functions of its own beside those of the plain one.

  OpenSSL is not part of the program: what its functions answer is given by records and scripts of answers, as for the system calls.
  A function that answers 0 or less is asked for the reason (\<^verbatim>\<open>SSL_get_error\<close>), and may have set \<^verbatim>\<open>errno\<close>.

  The theorems relate a TLS connection to a plain one: \<open>plain_read\<close> and \<open>plain_write\<close> translate the answers of OpenSSL into answers of
  the operating system on which the plain code behaves in the same way.
\<close>

section \<open>The context of a server\<close>

datatype ssl_option = SSL_OP_NO_SSLv2 | SSL_OP_NO_SSLv3 | SSL_OP_NO_TLSv1 | SSL_OP_NO_TLSv1_1 | SSL_OP_SINGLE_ECDH_USE

record ssl_ctx =
  cx_certificate :: "bytes option"
  cx_private_key :: "bytes option"
  cx_read_ahead :: bool
  cx_options :: "ssl_option list"
  cx_tmp_ecdh :: bool

text \<open>
  The members of \<^verbatim>\<open>ServerThread\<close> for TLS, with the mutexes for OpenSSL (the thread that holds each) and the number of contexts
  that were made and not freed.
\<close>

record server_tls =
  st_security :: bool
  st_ssl_ctx :: "ssl_ctx option"
  st_ssl_mutex :: "nat option list"
  st_live_ctxs :: nat

definition ServerThread_tls_new :: server_tls where
  "ServerThread_tls_new = \<lparr>st_security = False, st_ssl_ctx = None, st_ssl_mutex = [], st_live_ctxs = 0\<rparr>"

text \<open>The callback that OpenSSL locks and unlocks with; \<open>None\<close> is a mutex that is not free, not one's own, or not there.\<close>

definition SSLLockingCallback :: "nat \<Rightarrow> bool \<Rightarrow> nat \<Rightarrow> nat option list \<Rightarrow> nat option list option" where
  "SSLLockingCallback self lock type ms =
     (if type < length ms then
        if lock then (if ms ! type = None then Some (ms[type := Some self]) else None)
        else (if ms ! type = Some self then Some (ms[type := None]) else None)
      else None)"

record ssl_setup_answers =
  sa_num_locks :: nat
  sa_ctx_new :: bool
  sa_use_certificate_file :: int
  sa_use_PrivateKey_file :: int
  sa_check_private_key :: int
  sa_ec_key_new :: bool

text \<open>Empty file names are only logged.  The steps stop at the first that fails; the context stays as it is then.\<close>

definition EnableSecurity :: "ssl_setup_answers \<Rightarrow> bytes \<Rightarrow> bytes \<Rightarrow> server_tls \<Rightarrow> int \<times> server_tls" where
  "EnableSecurity a cert_file key_file s =
     (let s = s\<lparr>st_ssl_mutex := replicate (sa_num_locks a) None\<rparr>
      in if \<not> sa_ctx_new a then (-1, s\<lparr>st_ssl_ctx := None\<rparr>)
         else
           let ctx = \<lparr>cx_certificate = None, cx_private_key = None, cx_read_ahead = False, cx_options = [], cx_tmp_ecdh = False\<rparr>;
               s = s\<lparr>st_ssl_ctx := Some ctx, st_live_ctxs := st_live_ctxs s + 1\<rparr>
           in if sa_use_certificate_file a \<noteq> 1 then (-1, s)
              else
                let ctx = ctx\<lparr>cx_certificate := Some cert_file\<rparr>; s = s\<lparr>st_ssl_ctx := Some ctx\<rparr>
                in if sa_use_PrivateKey_file a \<noteq> 1 then (-1, s)
                   else
                     let ctx = ctx\<lparr>cx_private_key := Some key_file\<rparr>; s = s\<lparr>st_ssl_ctx := Some ctx\<rparr>
                     in if sa_check_private_key a \<noteq> 1 then (-1, s)
                        else
                          let ctx = ctx\<lparr>cx_read_ahead := True, cx_options := [SSL_OP_NO_SSLv2, SSL_OP_NO_SSLv3, SSL_OP_NO_TLSv1]\<rparr>;
                              s = s\<lparr>st_ssl_ctx := Some ctx\<rparr>
                          in if \<not> sa_ec_key_new a then (-1, s)
                             else
                               (0, s\<lparr>st_ssl_ctx := Some (ctx\<lparr>cx_options := cx_options ctx @ [SSL_OP_SINGLE_ECDH_USE], cx_tmp_ecdh := True\<rparr>),
                                     st_security := True\<rparr>))"

text \<open>The part of \<^verbatim>\<open>~ServerThread\<close> for TLS.\<close>

definition ServerThread_tls_free :: "server_tls \<Rightarrow> server_tls" where
  "ServerThread_tls_free s = (if st_security s then s\<lparr>st_live_ctxs := st_live_ctxs s - 1\<rparr> else s)"

section \<open>Connections\<close>

text \<open>\<open>Some ()\<close> is a TLS object; \<^verbatim>\<open>SSL_new\<close> fails on a null context.  The object stays when \<^verbatim>\<open>SSL_set_fd\<close> fails.\<close>

record ssl_conn_answers =
  sc_ssl_new :: bool
  sc_set_fd :: int

definition CreateSSL :: "ssl_conn_answers \<Rightarrow> ssl_ctx option \<Rightarrow> bool \<times> unit option" where
  "CreateSSL a ctx =
     (if ctx = None \<or> \<not> sc_ssl_new a then (False, None)
      else if sc_set_fd a = 0 then (False, Some ())
      else (True, Some ()))"

text \<open>
  The branch of the worker for a new connection, in a build with TLS.  Beside the worker it updates the set of descriptors whose
  connection object has a TLS object.
\<close>

definition worker_connect_tls :: "server_tls \<Rightarrow> ssl_conn_answers \<Rightarrow> 'a factory \<Rightarrow> (fd \<Rightarrow> fcntl_answers) \<Rightarrow> pink_item \<Rightarrow>
    'a worker \<times> fd set \<Rightarrow> 'a worker \<times> fd set" where
  "worker_connect_tls sec a fac nb it = (\<lambda>(w, ssls).
     case fac (it_fd it) (cstr (it_ip_port it)) of
       None \<Rightarrow> (w, ssls)
     | Some tc \<Rightarrow>
         let (ok, tc) = SetNonblock (nb (it_fd it)) tc;
             w = (if snd (Setnonblocking (nb (it_fd it)))
                  then w\<lparr>wk_epoll := sys_close (it_fd it) (wk_epoll w), wk_log := wk_log w @ [Close (it_fd it)]\<rparr> else w)
         in if \<not> ok then (w, ssls)
            else
              let (created, ssl) = (if st_security sec then CreateSSL a (st_ssl_ctx sec) else (True, None))
              in if \<not> created then (worker_CloseFd tc w, ssls)
                 else (w\<lparr>wk_conns := om_ins (it_fd it) tc (wk_conns w),
                         wk_epoll := snd (PinkAddEvent (pc_fd tc) EPOLLIN (wk_epoll w))\<rparr>,
                       if ssl = None then ssls - {it_fd it} else insert (it_fd it) ssls))"

section \<open>Reading and writing\<close>

datatype ssl_error = SSL_ERROR_SSL | SSL_ERROR_WANT_READ | SSL_ERROR_WANT_WRITE | SSL_ERROR_WANT_X509_LOOKUP | SSL_ERROR_SYSCALL
  | SSL_ERROR_ZERO_RETURN | SSL_ERROR_WANT_CONNECT | SSL_ERROR_WANT_ACCEPT

text \<open>
  A failed call: its result (0 or less), the reason and \<^verbatim>\<open>errno\<close>.  \<open>Decrypted []\<close> is the orderly end of the TLS stream, and so is a write
  of which nothing is taken.  A call beyond the script wants to read more.
\<close>

type_synonym ssl_failure = "int \<times> ssl_error \<times> errno"

datatype ssl_read_answer = Decrypted bytes | ReadFailed ssl_failure
datatype ssl_write_answer = Encrypted nat | WriteFailed ssl_failure

fun SSL_read :: "nat \<Rightarrow> ssl_read_answer list \<Rightarrow> (bytes + ssl_failure) \<times> ssl_read_answer list" where
  "SSL_read n [] = (Inr (-1, SSL_ERROR_WANT_READ, EAGAIN), [])"
| "SSL_read n (ReadFailed f # as) = (Inr f, as)"
| "SSL_read n (Decrypted s # as) =
     (if s = [] then (Inr (0, SSL_ERROR_ZERO_RETURN, EAGAIN), as)
      else if length s \<le> n then (Inl s, as)
      else (Inl (take n s), Decrypted (drop n s) # as))"

fun SSL_write :: "bytes \<Rightarrow> ssl_write_answer list \<Rightarrow> (nat + ssl_failure) \<times> ssl_write_answer list" where
  "SSL_write s [] = (Inr (-1, SSL_ERROR_WANT_WRITE, EAGAIN), [])"
| "SSL_write s (WriteFailed f # as) = (Inr f, as)"
| "SSL_write s (Encrypted k # as) =
     (if min k (length s) = 0 then (Inr (0, SSL_ERROR_ZERO_RETURN, EAGAIN), as) else (Inl (min k (length s)), as))"

text \<open>The switch on the reason: come back later, give up, or go on to the code after the branch.\<close>

definition ssl_switch :: "'r \<Rightarrow> 'r \<Rightarrow> ssl_error \<Rightarrow> 'r option" where
  "ssl_switch later failed err =
     (case err of
        SSL_ERROR_WANT_READ \<Rightarrow> Some later
      | SSL_ERROR_WANT_WRITE \<Rightarrow> Some later
      | SSL_ERROR_SYSCALL \<Rightarrow> None
      | _ \<Rightarrow> Some failed)"

text \<open>
  The TLS branch of \<^verbatim>\<open>DoRead\<close>.  The size it gives is that of the whole buffer, not of what is left of it behind \<^verbatim>\<open>rbuf_pos_\<close>: bytes that
  do not fit are stored outside the buffer, \<open>None\<close>.
\<close>

definition DoRead_tls :: "ssl_read_answer list \<Rightarrow> http_request \<Rightarrow> (ReadStatus \<times> http_request \<times> ssl_read_answer list) option" where
  "DoRead_tls as r =
     (case SSL_read kHTTPMaxMessage as of
        (Inl s, as') \<Rightarrow>
          if kHTTPMaxMessage < length (hq_rbuf r) + length s then None
          else (case read_done (Nread s) r of (st, r') \<Rightarrow> Some (st, r', as'))
      | (Inr (nread, err, errno), as') \<Rightarrow>
          (case ssl_switch kReadHalf kReadClose err of
             Some st \<Rightarrow> Some (st, r, as')
           | None \<Rightarrow> (case read_done (if nread = -1 then Rerror errno else Nread []) r of (st, r') \<Rightarrow> Some (st, r', as'))))"

definition read_step_tls :: "(bytes \<Rightarrow> bytes) \<Rightarrow> 'u http_handles \<Rightarrow> ssl_read_answer list \<Rightarrow> 'u http_conn \<Rightarrow>
    ('u, ssl_read_answer list) http_step" where
  "read_step_tls = read_step_with DoRead_tls"

text \<open>How much a script of \<^verbatim>\<open>SSL_read\<close> still holds; the loop of \<^verbatim>\<open>ReadData\<close> ends as for a plain connection.\<close>

fun ssl_size :: "ssl_read_answer list \<Rightarrow> nat" where
  "ssl_size [] = 0"
| "ssl_size (Decrypted s # as) = Suc (length s + ssl_size as)"
| "ssl_size (ReadFailed f # as) = Suc (ssl_size as)"

lemma SSL_read_consumes: "SSL_read n as = (Inl s, as') \<Longrightarrow> 0 < n \<Longrightarrow> ssl_size as' < ssl_size as"
  by (cases as rule: ssl_size.cases) (auto split: if_splits)

lemma read_done_ok: "read_done res r = (kOk, r') \<Longrightarrow> \<exists>s. res = Nread s \<and> s \<noteq> []"
  by (auto simp: read_done_def split: read_result.splits if_splits)

lemma DoRead_tls_consumes: "DoRead_tls as r = Some (kOk, r', as') \<Longrightarrow> ssl_size as' < ssl_size as"
  by (auto simp: DoRead_tls_def ssl_switch_def kHTTPMaxMessage_def split: prod.splits sum.splits if_splits option.splits ssl_error.splits
      dest: read_done_ok intro: SSL_read_consumes [of 8388608])

lemma read_step_tls_consumes: "read_step_tls lower h as c = Continue c' as' \<Longrightarrow> ssl_size as' < ssl_size as"
  by (auto simp: read_step_tls_def read_step_with_def Let_def split: RequestStatus.splits prod.splits if_splits option.splits
      dest!: head_received_as dest: DoRead_tls_consumes)

function read_loop_tls :: "(bytes \<Rightarrow> bytes) \<Rightarrow> 'u http_handles \<Rightarrow> ssl_read_answer list \<Rightarrow> 'u http_conn \<Rightarrow>
    (ReadStatus \<times> 'u http_conn \<times> ssl_read_answer list) option" where
  "read_loop_tls lower h as c =
     (case read_step_tls lower h as c of
        Continue c' as' \<Rightarrow> read_loop_tls lower h as' c'
      | Finish s c' as' \<Rightarrow> Some (s, c', as')
      | Abort \<Rightarrow> None)"
  by pat_completeness auto
termination
  by (relation "measure (\<lambda>(lower, h, as, c). ssl_size as)") (auto dest: read_step_tls_consumes)

declare read_loop_tls.simps [simp del]

definition GetRequest_tls :: "(bytes \<Rightarrow> bytes) \<Rightarrow> 'u http_handles \<Rightarrow> ssl_read_answer list \<Rightarrow> 'u http_conn \<Rightarrow>
    (ReadStatus \<times> 'u http_conn \<times> ssl_read_answer list) option" where
  "GetRequest_tls lower h as c = map_option mark_reply (ReadData_with (read_loop_tls lower h) as c)"

text \<open>
  The TLS branches of \<^verbatim>\<open>Flush\<close>.  The state of the transport is the script of answers and the calls of \<^verbatim>\<open>SSL_write\<close> so far: the position and
  the bytes each was given, and whether it was told to come back.
\<close>

type_synonym ssl_call = "(nat \<times> bytes) \<times> bool"

definition wants_retry :: "ssl_error \<Rightarrow> bool" where
  "wants_retry err \<longleftrightarrow> err \<in> {SSL_ERROR_WANT_READ, SSL_ERROR_WANT_WRITE}"

definition tls_writer :: "(ssl_write_answer list \<times> ssl_call list) writer" where
  "tls_writer a = (\<lambda>(as, calls).
     case SSL_write (snd a) as of
       (Inl k, as) \<Rightarrow> (Inr (Nwritten k), as, calls @ [(a, False)])
     | (Inr (nwritten, err, errno), as) \<Rightarrow>
         ((case ssl_switch True False err of
             Some b \<Rightarrow> Inl b
           | None \<Rightarrow> Inr (if nwritten = -1 then Werror errno else Nwritten 0)), as, calls @ [(a, wants_retry err)]))"

definition SendReply_tls :: "'u http_handles \<Rightarrow> ssl_write_answer list \<times> ssl_call list \<Rightarrow> 'u http_conn \<Rightarrow>
    (WriteStatus \<times> bytes \<times> 'u http_conn \<times> ssl_call list) option" where
  "SendReply_tls h s c =
     map_option (\<lambda>(ok, out, p, u, s). (flush_status ok p, out, c\<lparr>hc_response := p, hc_user := u\<rparr>, snd s))
       (Flush_with tls_writer h s (hc_user c) (hc_response c))"

text \<open>The calls of \<^verbatim>\<open>SendReply\<close> for one response, as \<open>send_calls\<close>.\<close>

fun send_calls_tls :: "'u http_handles \<Rightarrow> ssl_write_answer list list \<Rightarrow> ssl_call list \<Rightarrow> 'u http_conn \<Rightarrow>
    (WriteStatus \<times> bytes \<times> 'u http_conn \<times> ssl_call list) option" where
  "send_calls_tls h [] calls c = Some (kWriteHalf, [], c, calls)"
| "send_calls_tls h (as # ass) calls c =
     (case SendReply_tls h (as, calls) c of
        None \<Rightarrow> None
      | Some (s, out, c, calls) \<Rightarrow>
          if s = kWriteHalf then map_option (\<lambda>(s, out', r). (s, out @ out', r)) (send_calls_tls h ass calls c)
          else Some (s, out, c, calls))"

section \<open>A TLS connection reads as a plain one\<close>

definition plain_read :: "ssl_read_answer \<Rightarrow> read_answer" where
  "plain_read a =
     (case a of
        Decrypted s \<Rightarrow> if s = [] then Eof else Bytes s
      | ReadFailed (nread, err, errno) \<Rightarrow>
          if err = SSL_ERROR_WANT_READ \<or> err = SSL_ERROR_WANT_WRITE then ReadErr EAGAIN
          else if err = SSL_ERROR_SYSCALL \<and> nread = -1 then ReadErr errno
          else Eof)"

fun ssl_bytes :: "ssl_read_answer list \<Rightarrow> nat" where
  "ssl_bytes [] = 0"
| "ssl_bytes (Decrypted s # as) = length s + ssl_bytes as"
| "ssl_bytes (ReadFailed f # as) = ssl_bytes as"

lemma DoRead_tls_plain:
  assumes "length (hq_rbuf r) + ssl_bytes as < kHTTPMaxMessage"
  shows "\<exists>s r' as'. DoRead_tls as r = Some (s, r', as') \<and> DoRead (map plain_read as) r = (s, r', map plain_read as') \<and>
    length (hq_rbuf r') + ssl_bytes as' < kHTTPMaxMessage"
proof (cases as rule: ssl_bytes.cases)
  case 1
  with assms show ?thesis by (simp add: DoRead_tls_def DoRead_def read_done_def ssl_switch_def)
next
  case (2 s bs)
  with assms have len: "length s \<le> kHTTPMaxMessage" "length s \<le> kHTTPMaxMessage - length (hq_rbuf r)" "length (hq_rbuf r) < kHTTPMaxMessage"
    by simp_all
  show ?thesis
  proof (cases "s = []")
    case True
    with 2 len show ?thesis using assms by (simp add: DoRead_tls_def DoRead_def read_done_def ssl_switch_def plain_read_def)
  next
    case False
    with 2 len show ?thesis using assms by (simp add: DoRead_tls_def DoRead_def read_done_def plain_read_def)
  qed
next
  case (3 f bs)
  obtain n err e where f: "f = (n, err, e)" by (cases f)
  from assms 3 have "0 < kHTTPMaxMessage - length (hq_rbuf r)" by simp
  with assms 3 f show ?thesis
    by (cases err) (simp_all add: DoRead_tls_def DoRead_def read_done_def ssl_switch_def plain_read_def)
qed

text \<open>Parsing a head leaves the buffer as it is, and what follows only takes bytes out of it.\<close>

lemma fold_head_char_rbuf: "hq_rbuf (snd (snd (fold (head_char lower) s (k, v, r)))) = hq_rbuf r"
  by (induction s arbitrary: k v r) (auto simp: head_char_def split: HeadStatus.splits)

lemma head_loop_rbuf: "hq_rbuf (head_loop lower data n k r) = hq_rbuf r"
proof (induction lower data n k r rule: head_loop.induct)
  case (1 lower data n k r)
  then show ?case by (subst head_loop.simps) (simp add: Let_def ParseHeadLine_def fold_head_char_rbuf)
qed

lemma ParseHeader_rbuf: "ParseHeader lower r = Some (n, r') \<Longrightarrow> hq_rbuf r' = hq_rbuf r"
  by (auto simp: ParseHeader_def ParseGetUrl_def Let_def head_loop_rbuf split: option.splits if_splits)

lemma head_received_rbuf: "head_received h n as c = Continue c' as' \<Longrightarrow> length (hq_rbuf (hc_request c')) \<le> length (hq_rbuf (hc_request c))"
  by (auto simp: head_received_def deliver_body_def Let_def split: prod.splits if_splits option.splits)

lemma head_received_map: "head_received h n (f as) c = map_http_step f (head_received h n as c)"
  by (simp add: head_received_def Let_def split: prod.splits option.splits)

lemma read_step_tls_plain:
  assumes "length (hq_rbuf (hc_request c)) + ssl_bytes as < kHTTPMaxMessage"
  shows "read_step lower h (map plain_read as) c = map_http_step (map plain_read) (read_step_tls lower h as c)"
    and "read_step_tls lower h as c = Continue c' as' \<Longrightarrow> length (hq_rbuf (hc_request c')) + ssl_bytes as' < kHTTPMaxMessage"
proof -
  obtain s r bs where d: "DoRead_tls as (hc_request c) = Some (s, r, bs)" "DoRead (map plain_read as) (hc_request c) = (s, r, map plain_read bs)"
    and len: "length (hq_rbuf r) + ssl_bytes bs < kHTTPMaxMessage"
    using DoRead_tls_plain [OF assms] by blast
  show "read_step lower h (map plain_read as) c = map_http_step (map plain_read) (read_step_tls lower h as c)"
    by (cases "hq_req_status (hc_request c)")
      (auto simp: read_step_unfold read_step_tls_def d head_received_map Let_def split: prod.splits option.splits)
  show "length (hq_rbuf (hc_request c')) + ssl_bytes as' < kHTTPMaxMessage" if cont: "read_step_tls lower h as c = Continue c' as'"
  proof (cases "hq_req_status (hc_request c)")
    case kHeaderReceiving
    obtain n r' where p: "ParseHeader lower r = Some (n, r')"
      using cont kHeaderReceiving d by (auto simp: read_step_tls_def read_step_with_def split: if_splits option.splits)
    note rb = ParseHeader_rbuf [OF p]
    show ?thesis
      using cont kHeaderReceiving d p rb len head_received_as [of h "nat n" bs "c\<lparr>hc_request := r'\<rparr>" c' as']
        head_received_rbuf [of h "nat n" bs "c\<lparr>hc_request := r'\<rparr>" c' as']
      by (auto simp: read_step_tls_def read_step_with_def Let_def split: if_splits)
  next
    case kBodyReceiving
    with cont d len show ?thesis
      by (auto simp: read_step_tls_def read_step_with_def Let_def deliver_body_def split: if_splits)
  qed (use cont in \<open>auto simp: read_step_tls_def read_step_with_def split: prod.splits\<close>)
qed

lemma read_loop_tls_plain:
  "length (hq_rbuf (hc_request c)) + ssl_bytes as < kHTTPMaxMessage \<Longrightarrow>
   read_loop lower h (map plain_read as) c = map_option (\<lambda>(s, c, as). (s, c, map plain_read as)) (read_loop_tls lower h as c)"
proof (induction lower h as c rule: read_loop_tls.induct)
  case (1 lower h as c)
  note step = read_step_tls_plain [OF "1.prems", of lower h]
  show ?case
  proof (cases "read_step_tls lower h as c")
    case (Continue c' as')
    with step(2) have "length (hq_rbuf (hc_request c')) + ssl_bytes as' < kHTTPMaxMessage" by blast
    from "1.IH" [OF Continue this] show ?thesis
      using step(1) Continue by (simp add: read_loop.simps [of lower h "map plain_read as" c] read_loop_tls.simps [of lower h as c])
  next
    case (Finish s c' as')
    with step(1) show ?thesis
      by (simp add: read_loop.simps [of lower h "map plain_read as" c] read_loop_tls.simps [of lower h as c])
  next
    case Abort
    with step(1) show ?thesis
      by (simp add: read_loop.simps [of lower h "map plain_read as" c] read_loop_tls.simps [of lower h as c])
  qed
qed

lemma GetRequest_tls_plain:
  assumes "(if hq_req_status (hc_request c) = kNewRequest then 0 else length (hq_rbuf (hc_request c))) + ssl_bytes as < kHTTPMaxMessage"
  shows "map_option (\<lambda>(s, c, as). (s, c, map plain_read as)) (GetRequest_tls lower h as c) =
    HTTPConn_GetRequest lower h (map plain_read as) c"
proof -
  have "HTTPConn_GetRequest lower h (map plain_read as) c =
      map_option mark_reply (map_option (\<lambda>(s, c, as). (s, c, map plain_read as)) (ReadData_with (read_loop_tls lower h) as c))"
    using assms by (simp add: HTTPConn_GetRequest_def ReadData_unfold Let_def read_loop_tls_plain HTTPRequest_Reset_def split: if_splits)
  then show ?thesis
    by (cases "ReadData_with (read_loop_tls lower h) as c") (auto simp: GetRequest_tls_def mark_reply_def split: prod.splits)
qed

section \<open>A TLS connection writes as a plain one\<close>

definition plain_write :: "ssl_write_answer \<Rightarrow> write_answer" where
  "plain_write a =
     (case a of
        Encrypted k \<Rightarrow> Accept k
      | WriteFailed (nwritten, err, errno) \<Rightarrow>
          if err = SSL_ERROR_WANT_READ \<or> err = SSL_ERROR_WANT_WRITE then WriteErr EAGAIN
          else if err = SSL_ERROR_SYSCALL \<and> nwritten = -1 then WriteErr errno
          else Accept 0)"

text \<open>What \<^verbatim>\<open>Flush\<close> makes of an answer, before it looks at the number of bytes.\<close>

definition same_outcome :: "(bool + write_result) \<times> ssl_write_answer list \<times> ssl_call list \<Rightarrow> (bool + write_result) \<times> write_answer list \<Rightarrow> bool" where
  "same_outcome t q \<longleftrightarrow> snd q = map plain_write (fst (snd t)) \<and>
     (fst t = fst q \<or> fst t = Inl True \<and> fst q = Inr (Werror EAGAIN) \<or> fst t = Inl False \<and> fst q = Inr (Nwritten 0))"

lemma tls_writer_plain: "same_outcome (tls_writer a (as, calls)) (plain_writer a (map plain_write as))"
  by (cases "(snd a, as)" rule: SSL_write.cases)
    (auto simp: same_outcome_def tls_writer_def plain_writer_def plain_write_def ssl_switch_def split: prod.splits ssl_error.splits)

text \<open>Forgetting the calls of OpenSSL.\<close>

definition plain_state :: "ssl_write_answer list \<times> ssl_call list \<Rightarrow> write_answer list" where
  "plain_state s = map plain_write (fst s)"

lemma flush_header_tls_plain:
  "flush_header (plain_state s) p = (case flush_header_with tls_writer s p of (r, out, p', s') \<Rightarrow> (r, out, p', plain_state s'))"
proof -
  let ?a = "(hr_wbuf_pos p, hr_wbuf p)"
  obtain o1 s1 where t: "tls_writer ?a s = (o1, s1)" by (cases "tls_writer ?a s")
  obtain o2 s2 where q: "plain_writer ?a (plain_state s) = (o2, s2)" by (cases "plain_writer ?a (plain_state s)")
  have o: "s2 = plain_state s1 \<and> (o1 = o2 \<or> o1 = Inl True \<and> o2 = Inr (Werror EAGAIN) \<or> o1 = Inl False \<and> o2 = Inr (Nwritten 0))"
    using tls_writer_plain [of ?a "fst s" "snd s"] t q by (simp add: same_outcome_def plain_state_def)
  then show ?thesis using t q
    by (elim conjE disjE) (simp_all add: flush_header_def flush_header_with_def Let_def split: sum.splits write_result.splits)
qed

lemma flush_body_tls_plain:
  "flush_body h (plain_state s) u p = map_option (\<lambda>(b, out, p', u', s'). (b, out, p', u', plain_state s')) (flush_body_with tls_writer h s u p)"
proof (cases "fill_body h u p")
  case (Some pu)
  obtain p1 u1 where pu: "pu = (p1, u1)" by (cases pu)
  let ?a = "(hr_wbuf_pos p1, hr_wbuf p1)"
  obtain o1 s1 where t: "tls_writer ?a s = (o1, s1)" by (cases "tls_writer ?a s")
  obtain o2 s2 where q: "plain_writer ?a (plain_state s) = (o2, s2)" by (cases "plain_writer ?a (plain_state s)")
  have o: "s2 = plain_state s1 \<and> (o1 = o2 \<or> o1 = Inl True \<and> o2 = Inr (Werror EAGAIN) \<or> o1 = Inl False \<and> o2 = Inr (Nwritten 0))"
    using tls_writer_plain [of ?a "fst s" "snd s"] t q by (simp add: same_outcome_def plain_state_def)
  then show ?thesis using t q Some pu
    by (elim conjE disjE) (simp_all add: flush_body_def flush_body_with_def Let_def split: sum.splits write_result.splits)
qed (simp add: flush_body_def flush_body_with_def)

lemma Flush_tls_plain:
  "Flush h (plain_state s) u p = map_option (\<lambda>(b, out, p', u', s'). (b, out, p', u', plain_state s')) (Flush_with tls_writer h s u p)"
  by (auto simp: Flush_unfold Flush_with_def flush_header_tls_plain flush_body_tls_plain option.map_comp comp_def case_prod_unfold
      split: prod.splits option.splits sum.splits)

lemma SendReply_tls_plain:
  "HTTPConn_SendReply h (map plain_write as) c = map_option (\<lambda>(s, out, c, calls). (s, out, c)) (SendReply_tls h (as, calls) c)"
  using Flush_tls_plain [of h "(as, calls)" "hc_user c" "hc_response c"]
  by (simp add: HTTPConn_SendReply_def SendReply_tls_def plain_state_def option.map_comp comp_def case_prod_unfold)

lemma send_calls_tls_plain:
  "map_option (\<lambda>(s, wire, c, calls). (s, wire, c)) (send_calls_tls h ass calls c) = send_calls h (map (map plain_write) ass) c"
proof (induction ass arbitrary: c calls)
  case (Cons as ass)
  note reply = SendReply_tls_plain [of h as c calls]
  show ?case
  proof (cases "SendReply_tls h (as, calls) c")
    case (Some r)
    obtain s out c' calls' where r: "r = (s, out, c', calls')" by (cases r)
    show ?thesis
      using reply Some r Cons.IH [of calls' c', symmetric] by (simp add: option.map_comp comp_def case_prod_unfold)
  qed (use reply in simp)
qed simp

text \<open>C30: An HTTP connection over TLS behaves as a plain one.  As long as what has arrived of a request fits into the buffer it is read
  in the same way: a piece that was decrypted is a piece that was read, a call that wants to be repeated is a read that would block, and
  every other failure closes the connection.  For every sequence of calls and of answers of OpenSSL the same bytes of a reply are sent,
  and the same is reported.\<close>

theorem tls_behaves_as_plain:
  "((if hq_req_status (hc_request c) = kNewRequest then 0 else length (hq_rbuf (hc_request c))) + ssl_bytes as < kHTTPMaxMessage \<longrightarrow>
     map_option (\<lambda>(s, c, as). (s, c, map plain_read as)) (GetRequest_tls lower h as c) = HTTPConn_GetRequest lower h (map plain_read as) c) \<and>
   map_option (\<lambda>(s, wire, c, calls). (s, wire, c)) (send_calls_tls h ass calls c) = send_calls h (map (map plain_write) ass) c"
  using GetRequest_tls_plain [of c as lower h] send_calls_tls_plain [of h ass calls c] by blast

theorem tls_behaves_as_plain_witness:
  "map_option (\<lambda>(s, c, as). (s, c, map plain_read as)) (GetRequest_tls (map c_tolower) demo_handles
      [Decrypted ''PUT /a'', ReadFailed (-1, SSL_ERROR_WANT_READ, EAGAIN), Decrypted ''b''] (HTTPConn_new 7 ''p'' (0, 0) [])) =
    HTTPConn_GetRequest (map c_tolower) demo_handles [Bytes ''PUT /a'', ReadErr EAGAIN, Bytes ''b''] (HTTPConn_new 7 ''p'' (0, 0) [])"
proof -
  have "map plain_read [Decrypted ''PUT /a'', ReadFailed (-1, SSL_ERROR_WANT_READ, EAGAIN), Decrypted ''b''] =
      [Bytes ''PUT /a'', ReadErr EAGAIN, Bytes ''b'']"
    by (simp add: plain_read_def ssl_switch_def)
  moreover have "hq_req_status (hc_request (HTTPConn_new 7 ''p'' (0, 0) ([] :: bytes list))) = kNewRequest"
    by (simp add: HTTPConn_new_def pink_conn.defs PinkConn_new_def HTTPRequest_new_def)
  ultimately show ?thesis
    using tls_behaves_as_plain [of "HTTPConn_new 7 ''p'' (0, 0) ([] :: bytes list)"
        "[Decrypted ''PUT /a'', ReadFailed (-1, SSL_ERROR_WANT_READ, EAGAIN), Decrypted ''b'']" "map c_tolower" demo_handles "[]" "[]"]
    by (simp add: kHTTPMaxMessage_def)
qed

section \<open>A write that has to be repeated is repeated\<close>

text \<open>
  OpenSSL demands that a write that could not be done yet is tried again with the same arguments.  In a sequence of calls, every call
  that was told to come back is followed by one with the same position and bytes.
\<close>

fun retries_ok :: "ssl_call list \<Rightarrow> bool" where
  "retries_ok (x # y # calls) \<longleftrightarrow> (snd x \<longrightarrow> fst y = fst x) \<and> retries_ok (y # calls)"
| "retries_ok _ \<longleftrightarrow> True"

lemma retries_ok_snoc: "retries_ok (calls @ [y]) \<longleftrightarrow> retries_ok calls \<and> (calls \<noteq> [] \<longrightarrow> snd (last calls) \<longrightarrow> fst y = fst (last calls))"
  by (induction calls rule: retries_ok.induct) auto

text \<open>The arguments of the next write of a response, when they are settled already.\<close>

definition next_write :: "http_response \<Rightarrow> (nat \<times> bytes) option" where
  "next_write p =
     (case hr_resp_status p of
        kPrepareHeader \<Rightarrow> None
      | kSendingHeader \<Rightarrow> Some (hr_wbuf_pos p, hr_wbuf p)
      | kSendingBody \<Rightarrow> if hr_buf_len p = 0 \<or> hr_remain_send_len p = 0 then None else Some (hr_wbuf_pos p, hr_wbuf p))"

definition calls_inv :: "ssl_call list \<Rightarrow> http_response \<Rightarrow> bool" where
  "calls_inv calls p \<longleftrightarrow> retries_ok calls \<and> (calls \<noteq> [] \<longrightarrow> snd (last calls) \<longrightarrow> next_write p = Some (fst (last calls)))"

text \<open>One write adds one call, and only a write that makes \<^verbatim>\<open>Flush\<close> return may have to be repeated.\<close>

lemma tls_writer_call:
  assumes "tls_writer a (as, calls) = (r, as', calls')"
  shows "\<exists>want. calls' = calls @ [(a, want)] \<and> (want \<longrightarrow> r = Inl True)"
  using assms
  by (cases "(snd a, as)" rule: SSL_write.cases)
    (auto simp: tls_writer_def wants_retry_def ssl_switch_def split: prod.splits ssl_error.splits if_splits)

lemma calls_inv_write:
  assumes "calls_inv calls p" "next_write p = Some a \<or> (next_write p = None)" "calls' = calls @ [(a, want)]" "want \<longrightarrow> next_write p' = Some a"
  shows "calls_inv calls' p'"
  using assms by (auto simp: calls_inv_def retries_ok_snoc)

lemma prepare_calls:
  assumes "calls_inv calls p" "flush_prepare p = (r, p')"
  shows "calls_inv calls p'"
  using assms by (auto simp: flush_prepare_def calls_inv_def next_write_def split: if_splits option.splits prod.splits)

lemma header_calls:
  assumes "calls_inv calls p" "flush_header_with tls_writer (as, calls) p = (r, out, p', as', calls')"
  shows "calls_inv calls' p'"
proof (cases "hr_resp_status p = kSendingHeader")
  case False
  with assms show ?thesis by (simp add: flush_header_with_def)
next
  case True
  let ?a = "(hr_wbuf_pos p, hr_wbuf p)"
  obtain o1 as1 calls1 where t: "tls_writer ?a (as, calls) = (o1, as1, calls1)" by (cases "tls_writer ?a (as, calls)")
  obtain want where want: "calls1 = calls @ [(?a, want)]" "want \<longrightarrow> o1 = Inl True" using tls_writer_call [OF t] by blast
  have nw: "next_write p = Some ?a" using True by (simp add: next_write_def)
  have c: "calls' = calls1" using assms(2) True t by (auto simp: flush_header_with_def Let_def split: sum.splits write_result.splits if_splits)
  have "p' = p" if want using assms(2) True t want that by (simp add: flush_header_with_def)
  with nw want c assms(1) show ?thesis by (intro calls_inv_write [of calls p ?a calls' want p']) auto
qed

lemma body_calls:
  assumes "reply_inv rest H body wire p u" "streams h rest" "calls_inv calls p"
    and "flush_body_with tls_writer h (as, calls) u p = Some (b, out, p', u', as', calls')"
  shows "calls_inv calls' p'"
proof (cases "hr_resp_status p = kSendingBody \<and> hr_remain_send_len p \<noteq> 0")
  case False
  with assms(3,4) show ?thesis by (auto simp: flush_body_with_def calls_inv_def next_write_def split: if_splits)
next
  case True
  obtain p1 u1 where f: "fill_body h u p = Some (p1, u1)" and inv: "reply_inv rest H body wire p1 u1" and st: "hr_resp_status p1 = kSendingBody"
    and ne: "hr_wbuf p1 \<noteq> []"
    using fill_inv [OF assms(1) _ _ assms(2)] True by blast
  let ?a = "(hr_wbuf_pos p1, hr_wbuf p1)"
  have "hr_buf_len p1 = int (length (hr_wbuf p1))" using inv st by (simp add: reply_inv_def)
  moreover have "hr_remain_send_len p1 = hr_remain_send_len p"
    using f by (auto simp: fill_body_def Let_def split: if_splits prod.splits body_answer.splits)
  ultimately have len: "0 < hr_buf_len p1" and nw1: "next_write p1 = Some ?a" using True st ne by (simp_all add: next_write_def)
  have nw: "next_write p = Some ?a \<or> next_write p = None" using True f by (auto simp: next_write_def fill_body_def)
  obtain o1 as1 calls1 where t: "tls_writer ?a (as, calls) = (o1, as1, calls1)" by (cases "tls_writer ?a (as, calls)")
  obtain want where want: "calls1 = calls @ [(?a, want)]" "want \<longrightarrow> o1 = Inl True" using tls_writer_call [OF t] by blast
  have c: "calls' = calls1" using assms(4) True f len t
    by (auto simp: flush_body_with_def Let_def split: sum.splits write_result.splits if_splits)
  have "p' = p1" if want using assms(4) True f len t want that by (simp add: flush_body_with_def)
  with nw1 want c assms(3) nw show ?thesis by (intro calls_inv_write [of calls p ?a calls' want p']) auto
qed

lemma Flush_calls:
  assumes "reply_inv rest H body wire p u" "\<not> hr_finished p" "streams h rest" "calls_inv calls p"
    and "Flush_with tls_writer h (as, calls) u p = Some (b, out, p', u', as', calls')"
  shows "calls_inv calls' p'"
proof -
  obtain p1 where p1: "flush_prepare p = (Some (Inr ()), p1)" "reply_inv rest H body wire p1 u" "hr_resp_status p1 \<noteq> kPrepareHeader"
    using prepare_inv [OF assms(1,2)] by blast
  have nf: "\<not> hr_finished p1" using p1(2,3) by (cases "hr_resp_status p1") (simp_all add: reply_inv_def)
  obtain r out1 p2 as2 calls2 where t: "flush_header_with tls_writer (as, calls) p1 = (r, out1, p2, as2, calls2)"
    by (cases "flush_header_with tls_writer (as, calls) p1") auto
  then have "flush_header (plain_state (as, calls)) p1 = (r, out1, p2, plain_state (as2, calls2))" by (simp add: flush_header_tls_plain)
  with header_inv [OF p1(2) nf p1(3), of "plain_state (as, calls)"] have inv: "reply_inv rest H body (wire @ out1) p2 u" by auto
  have c2: "calls_inv calls2 p2" using header_calls [OF prepare_calls [OF assms(4) p1(1)] t] .
  show ?thesis
  proof (cases r)
    case (Inl b')
    with assms(5) p1(1) t c2 show ?thesis by (simp add: Flush_with_def)
  next
    case (Inr x)
    with assms(5) p1(1) t obtain out' where "flush_body_with tls_writer h (as2, calls2) u p2 = Some (b, out', p', u', as', calls')"
      by (auto simp: Flush_with_def)
    from body_calls [OF inv assms(3) c2 this] show ?thesis .
  qed
qed

lemma send_calls_tls_retries:
  fixes c :: "'u http_conn"
  assumes "reply_inv rest H body wire (hc_response c) (hc_user c)" "\<not> hr_finished (hc_response c)" "calls_inv calls (hc_response c)"
    and "streams h rest"
  shows "\<exists>s out c' calls'. send_calls_tls h ass calls c = Some (s, out, c', calls') \<and> retries_ok calls'"
  using assms(1-3)
proof (induction ass arbitrary: c wire calls)
  case Nil
  then show ?case by (simp add: calls_inv_def)
next
  case (Cons as ass)
  let ?p = "hc_response c" and ?u = "hc_user c"
  obtain b out p u as' where f: "Flush h (plain_state (as, calls)) ?u ?p = Some (b, out, p, u, as')"
    and inv: "reply_inv rest H body (wire @ out) p u"
    using Flush_inv [OF Cons.prems(1,2) assms(4), of "plain_state (as, calls)"] by blast
  then obtain as1 calls1 where t: "Flush_with tls_writer h (as, calls) ?u ?p = Some (b, out, p, u, as1, calls1)"
    by (auto simp: Flush_tls_plain)
  have c1: "calls_inv calls1 p" using Flush_calls [OF Cons.prems(1,2) assms(4) Cons.prems(3) t] .
  show ?case
  proof (cases "b \<and> \<not> hr_finished p")
    case False
    with t c1 show ?thesis by (auto simp: SendReply_tls_def flush_status_def Finished_def calls_inv_def)
  next
    case True
    from Cons.IH [of "wire @ out" "c\<lparr>hc_response := p, hc_user := u\<rparr>" calls1] inv c1 True t show ?thesis
      by (auto simp: SendReply_tls_def flush_status_def Finished_def)
  qed
qed



section \<open>Setting up\<close>

text \<open>Setting up TLS answers 0 only when every step succeeded, and then the server is marked secure and its context has the
  certificate, the key, the disabled protocols and the curve; any failure answers -1 and leaves the mark as it was.\<close>

lemma EnableSecurity_complete:
  "case EnableSecurity a cert key s of (ret, s') \<Rightarrow>
     if sa_ctx_new a \<and> sa_use_certificate_file a = 1 \<and> sa_use_PrivateKey_file a = 1 \<and> sa_check_private_key a = 1 \<and> sa_ec_key_new a
     then ret = 0 \<and> st_security s' \<and>
       st_ssl_ctx s' = Some \<lparr>cx_certificate = Some cert, cx_private_key = Some key, cx_read_ahead = True,
         cx_options = [SSL_OP_NO_SSLv2, SSL_OP_NO_SSLv3, SSL_OP_NO_TLSv1, SSL_OP_SINGLE_ECDH_USE], cx_tmp_ecdh = True\<rparr>
     else ret = -1 \<and> st_security s' = st_security s"
  by (simp add: EnableSecurity_def Let_def)

text \<open>The mutexes of OpenSSL can be taken and released after the set-up, each by one thread at a time.\<close>

lemma ssl_lock_exclusive:
  assumes "type < length ms" "ms ! type = None"
  shows "SSLLockingCallback self True type ms = Some (ms[type := Some self])"
    and "SSLLockingCallback other True type (ms[type := Some self]) = None"
    and "SSLLockingCallback self False type (ms[type := Some self]) = Some ms"
proof -
  show "SSLLockingCallback self False type (ms[type := Some self]) = Some ms"
    using assms list_update_id [of ms type] by (simp add: SSLLockingCallback_def)
qed (use assms in \<open>simp_all add: SSLLockingCallback_def\<close>)

section \<open>New connections in a worker\<close>

lemma worker_connect_plain: "\<not> st_security sec \<Longrightarrow> fst (worker_connect_tls sec a fac nb it (w, ssls)) = worker_connect fac nb it w"
  by (simp add: worker_connect_tls_def worker_connect_def Let_def split: option.splits prod.splits)

text \<open>C32: A worker of a secure server keeps a new connection only with a TLS object: the connection is in the table, watched and has the
  object, or its descriptor was closed and it is not in the table.\<close>

theorem worker_connect_secure:
  assumes "st_security sec" "fac (it_fd it) (cstr (it_ip_port it)) = Some tc" "pc_fd tc = it_fd it" "it_fd it \<notin> keys (wk_conns w)"
  shows "case worker_connect_tls sec a fac nb it (w, ssls) of (w', ssls') \<Rightarrow>
    if it_fd it \<in> keys (wk_conns w')
    then it_fd it \<in> ssls' \<and> it_fd it \<in> watched (wk_epoll w') \<and> wk_log w' = wk_log w
    else Close (it_fd it) \<in> set (drop (length (wk_log w)) (wk_log w')) \<and> it_fd it \<notin> watched (wk_epoll w') \<and> wk_conns w' = wk_conns w"
  using assms by (auto simp: worker_connect_tls_def SetNonblock_def Setnonblocking_closes CreateSSL_def CloseFd_events Let_def split: option.splits)

definition demo_tls :: server_tls where
  "demo_tls = snd (EnableSecurity \<lparr>sa_num_locks = 1, sa_ctx_new = True, sa_use_certificate_file = 1, sa_use_PrivateKey_file = 1,
     sa_check_private_key = 1, sa_ec_key_new = True\<rparr> ''c'' ''k'' ServerThread_tls_new)"

text \<open>With a \<^verbatim>\<open>SSL_set_fd\<close> that fails, the second case.\<close>

theorem worker_connect_secure_witness:
  "case worker_connect_tls demo_tls \<lparr>sc_ssl_new = True, sc_set_fd = 0\<rparr> (\<lambda>fd ip. Some (PinkConn_new fd ip (0, 0))) (\<lambda>_. (0, 0))
      \<lparr>it_fd = 9, it_ip_port = ''p'', it_notify_type = kNotiConnect, it_conn = None\<rparr> (WorkerThread_new 1000, {}) of (w', ssls') \<Rightarrow>
     wk_conns w' = [] \<and> Close 9 \<in> set (wk_log w')"
proof -
  let ?r = "worker_connect_tls demo_tls \<lparr>sc_ssl_new = True, sc_set_fd = 0\<rparr> (\<lambda>fd ip. Some (PinkConn_new fd ip (0, 0))) (\<lambda>_. (0, 0))
      \<lparr>it_fd = 9, it_ip_port = ''p'', it_notify_type = kNotiConnect, it_conn = None\<rparr> (WorkerThread_new 1000, {})"
  let ?w = "WorkerThread_new 1000 :: unit worker"
  have sec: "st_security demo_tls" by (simp add: demo_tls_def EnableSecurity_def)
  have e: "keys (wk_conns (fst ?r)) = {}" "wk_conns ?w = []" "wk_log ?w = []"
    by (simp_all add: worker_connect_tls_def SetNonblock_def Setnonblocking_def O_NONBLOCK_def CreateSSL_def demo_tls_def EnableSecurity_def
        WorkerThread_new_def thread.defs)
  obtain w' ssls' where r: "?r = (w', ssls')" by (cases ?r)
  have "pc_fd (PinkConn_new 9 (cstr ''p'') (0, 0)) = 9" by (simp add: PinkConn_new_def)
  then show ?thesis
    using worker_connect_secure [OF sec, of "\<lambda>fd ip. Some (PinkConn_new fd ip (0, 0))"
        "\<lparr>it_fd = 9, it_ip_port = ''p'', it_notify_type = kNotiConnect, it_conn = None\<rparr>" "PinkConn_new 9 (cstr ''p'') (0, 0)" ?w
        "\<lparr>sc_ssl_new = True, sc_set_fd = 0\<rparr>" "\<lambda>_. (0, 0)" "{}"] e r
    by simp
qed

section \<open>Where the code departs from its intent\<close>

text \<open>
  \<^verbatim>\<open>SSL_read\<close> is given the size of the whole buffer.  A body that fills the buffer but for one byte and goes on with two is handled
  by the plain code and runs over the end of the buffer with TLS.
\<close>

lemma tls_read_overflows:
  assumes "hq_req_status (hc_request c) = kBodyReceiving" "length (hq_rbuf (hc_request c)) = kHTTPMaxMessage - 1" "length s = 2"
  shows "GetRequest_tls lower h [Decrypted s] c = None"
    and "fst (snd (DoRead [Bytes s] (hc_request c))) = (hc_request c)\<lparr>hq_rbuf := hq_rbuf (hc_request c) @ take 1 s,
      hq_remain_recv_len := hq_remain_recv_len (hc_request c) - 1\<rparr>"
proof -
  have k: "1 < kHTTPMaxMessage" "length s \<le> kHTTPMaxMessage" using assms(3) by (simp_all add: kHTTPMaxMessage_def)
  then have "DoRead_tls [Decrypted s] (hc_request c) = None" using assms by (auto simp: DoRead_tls_def)
  then show "GetRequest_tls lower h [Decrypted s] c = None"
    using assms(1) by (simp add: GetRequest_tls_def ReadData_with_def read_loop_tls.simps read_step_tls_def read_step_with_def)
  obtain x y where "s = [x, y]" using assms(3) by (cases s; cases "tl s") auto
  with assms k show "fst (snd (DoRead [Bytes s] (hc_request c))) = (hc_request c)\<lparr>hq_rbuf := hq_rbuf (hc_request c) @ take 1 s,
      hq_remain_recv_len := hq_remain_recv_len (hc_request c) - 1\<rparr>"
    by (simp add: DoRead_unfold)
qed

text \<open>The comment says that TLS 1.2 is forced; TLS 1.1 is not disabled.\<close>

lemma tls11_stays_enabled:
  "EnableSecurity a cert key s = (0, s') \<Longrightarrow> \<exists>ctx. st_ssl_ctx s' = Some ctx \<and> SSL_OP_NO_TLSv1_1 \<notin> set (cx_options ctx)"
  by (auto simp: EnableSecurity_def Let_def split: if_splits)

text \<open>A context that could not be completed is never freed, since the destructor looks at the mark only.\<close>

lemma failed_setup_leaks:
  assumes "sa_ctx_new a" "sa_use_certificate_file a \<noteq> 1"
  shows "st_live_ctxs (ServerThread_tls_free (snd (EnableSecurity a cert key ServerThread_tls_new))) = 1"
  using assms by (simp add: EnableSecurity_def ServerThread_tls_free_def ServerThread_tls_new_def)

text \<open>A second set-up that fails leaves the server marked secure without a usable context, and no connection gets a TLS object.\<close>

lemma second_setup_breaks:
  assumes "\<not> sa_ctx_new a" "st_security s"
  shows "st_security (snd (EnableSecurity a cert key s))" "CreateSSL b (st_ssl_ctx (snd (EnableSecurity a cert key s))) = (False, None)"
  using assms by (simp_all add: EnableSecurity_def CreateSSL_def)

end
