(* ===== verification/SimpleHttpConn.thy ===== *)
theory SimpleHttpConn
  imports PinkConn HttpHead
begin

text \<open>
  The simple HTTP connection (\<^verbatim>\<open>include/simple_http_conn.h\<close>, \<^verbatim>\<open>src/simple_http_conn.cc\<close>): a request is collected with its
  whole body, given to the application's \<^verbatim>\<open>DealMessage\<close>, and the response is sent from a buffer.

  The buffers are their contents: \<^verbatim>\<open>rbuf_pos_\<close> and \<^verbatim>\<open>wbuf_len_\<close> are lengths.  \<^verbatim>\<open>slash::string2l\<close> is the parameter \<open>s2l\<close>.
  \<open>None\<close> is a run that leaves a buffer, fails an assertion, or never ends.  A response body is taken to be shorter than
  \<open>2\<^sup>31\<close> bytes: beyond, the position \<^verbatim>\<open>response_pos_\<close>, an \<^verbatim>\<open>int\<close>, overflows.
\<close>

section \<open>Data\<close>

definition simple_MaxMessage :: nat where "simple_MaxMessage = 1024 * 1024 * 8"
definition simple_MaxHeader :: nat where "simple_MaxHeader = 1024 * 64"

record simple_request = http_head +
  sq_post_params :: params
  sq_content :: bytes

record simple_response =
  sr_status_code :: int
  sr_reason_phrase :: bytes
  sr_headers :: params
  sr_body :: bytes

type_synonym 'u deal_message = "simple_request \<Rightarrow> simple_response \<Rightarrow> 'u \<Rightarrow> simple_response \<times> 'u"

record 'u simple_conn = pink_conn +
  sc_conn_status :: ConnStatus
  sc_rbuf :: bytes
  sc_wbuf :: bytes
  sc_wbuf_pos :: nat
  sc_header_len :: nat
  sc_remain_packet_len :: "64 word"
  sc_request :: simple_request
  sc_response_pos :: int
  sc_response :: simple_response
  sc_user :: 'u

definition Request_new :: simple_request where
  "Request_new = \<lparr>hh_method = ''GET'', hh_url = ''/index'', hh_version = [], hh_headers = [], hh_query_params = [],
     hh_parse_status = kHeaderMethod, sq_post_params = [], sq_content = []\<rparr>"

definition Request_Clear :: "simple_request \<Rightarrow> simple_request" where
  "Request_Clear r = r\<lparr>hh_version := [], hh_url := [], hh_method := [], hh_query_params := [], sq_post_params := [],
     hh_headers := [], sq_content := []\<rparr>"

definition Response_new :: simple_response where
  "Response_new = \<lparr>sr_status_code = 0, sr_reason_phrase = [], sr_headers = [], sr_body = []\<rparr>"

definition Response_Clear :: "simple_response \<Rightarrow> simple_response" where
  "Response_Clear p = p\<lparr>sr_status_code := 0, sr_reason_phrase := [], sr_headers := [], sr_body := []\<rparr>"

definition SimpleHTTPConn_new :: "fd \<Rightarrow> bytes \<Rightarrow> timeval \<Rightarrow> 'u \<Rightarrow> 'u simple_conn" where
  "SimpleHTTPConn_new fd ip_port now u = pink_conn.extend (PinkConn_new fd ip_port now)
     \<lparr>sc_conn_status = kHeader, sc_rbuf = [], sc_wbuf = [], sc_wbuf_pos = 0, sc_header_len = 0, sc_remain_packet_len = 0,
      sc_request = Request_new, sc_response_pos = -1, sc_response = Response_new, sc_user = u\<rparr>"

section \<open>Requests\<close>

text \<open>\<^verbatim>\<open>headers["host"]\<close> inserts an empty value when there is none, and the empty string is found everywhere.\<close>

definition Request_ParseGetUrl :: "simple_request \<Rightarrow> simple_request" where
  "Request_ParseGetUrl r =
     (let host = (case om_get (hh_headers r) ''host'' of Some v \<Rightarrow> v | None \<Rightarrow> []);
          r = r\<lparr>hh_headers := om_ins ''host'' host (hh_headers r)\<rparr>;
          path = hh_url r;
          path = (if find_sub host path \<noteq> None \<and> length path > 7 + length host then drop (7 + length host) path else path)
      in case find_pos ((=) (CHR ''?'')) path of
           None \<Rightarrow> r\<lparr>hh_url := path\<rparr>
         | Some n \<Rightarrow> r\<lparr>hh_url := take n path, hh_query_params := params_loop path (n + 1) (hh_query_params r)\<rparr>)"

definition ParseHeadFromArray :: "(bytes \<Rightarrow> bytes) \<Rightarrow> bytes \<Rightarrow> int \<Rightarrow> simple_request \<Rightarrow> bool \<times> simple_request" where
  "ParseHeadFromArray lower data sz r =
     (if sz \<le> 5 then (False, r)
      else (True, Request_ParseGetUrl (head_loop lower data 0 sz (r\<lparr>hh_parse_status := kHeaderMethod\<rparr>))))"

definition ParseBodyFromArray :: "bytes \<Rightarrow> simple_request \<Rightarrow> simple_request" where
  "ParseBodyFromArray data r =
     (let r = r\<lparr>sq_content := sq_content r @ data\<rparr>
      in if hh_method r = ''POST'' then
           let ctype = (case om_get (hh_headers r) ''content-type'' of Some v \<Rightarrow> v | None \<Rightarrow> []);
               r = r\<lparr>hh_headers := om_ins ''content-type'' ctype (hh_headers r)\<rparr>
           in if ctype = ''application/x-www-form-urlencoded''
              then r\<lparr>sq_post_params := params_loop (sq_content r) 0 (sq_post_params r)\<rparr> else r
         else r)"

definition BuildRequestHeader :: "(bytes \<Rightarrow> nat \<Rightarrow> int option) \<Rightarrow> (bytes \<Rightarrow> bytes) \<Rightarrow> 'u simple_conn \<Rightarrow> bool \<times> 'u simple_conn" where
  "BuildRequestHeader s2l lower c =
     (case ParseHeadFromArray lower (sc_rbuf c) (int (sc_header_len c)) (Request_Clear (sc_request c)) of
        (False, r) \<Rightarrow> (False, c\<lparr>sc_request := r\<rparr>)
      | (True, r) \<Rightarrow>
          let n = (case om_get (hh_headers r) ''content-length'' of
                     None \<Rightarrow> 0
                   | Some v \<Rightarrow> (case s2l v (length v) of Some tmp \<Rightarrow> word_of_int tmp | None \<Rightarrow> 0));
              n = (if length (sc_rbuf c) > sc_header_len c then n - of_nat (length (sc_rbuf c) - sc_header_len c) else n)
          in (True, c\<lparr>sc_request := r, sc_remain_packet_len := n\<rparr>))"

definition AppendRequestBody :: "'u simple_conn \<Rightarrow> 'u simple_conn" where
  "AppendRequestBody c = c\<lparr>sc_request := ParseBodyFromArray (drop (sc_header_len c) (sc_rbuf c)) (sc_request c)\<rparr>"

definition HandleMessage :: "'u deal_message \<Rightarrow> 'u simple_conn \<Rightarrow> 'u simple_conn" where
  "HandleMessage deal c =
     (let (p, u) = deal (sc_request c) (Response_Clear (sc_response c)) (sc_user c)
      in base_set_is_reply True (c\<lparr>sc_response := p, sc_user := u\<rparr>))"

section \<open>Responses\<close>

definition Response_SetStatusCode :: "int \<Rightarrow> simple_response \<Rightarrow> simple_response option" where
  "Response_SetStatusCode code p =
     (if status_code_ok code then
        map_option (\<lambda>reason. p\<lparr>sr_status_code := code, sr_reason_phrase := reason\<rparr>) (map_of http_status_map code)
      else None)"

definition Response_SetHeaders :: "bytes \<Rightarrow> bytes \<Rightarrow> simple_response \<Rightarrow> simple_response" where
  "Response_SetHeaders key val p = p\<lparr>sr_headers := om_ins key val (sr_headers p)\<rparr>"

definition Response_SetBody :: "bytes \<Rightarrow> simple_response \<Rightarrow> simple_response" where
  "Response_SetBody body p = p\<lparr>sr_body := body\<rparr>"

definition HasMoreBody :: "nat \<Rightarrow> simple_response \<Rightarrow> bool" where
  "HasMoreBody pos p \<longleftrightarrow> pos < length (sr_body p)"

text \<open>
  Printing the pieces of a header into \<open>sz\<close> bytes: a text that fills them exactly loses its last byte to the
  terminating NUL and printing stops; beyond, the size given to \<^verbatim>\<open>snprintf\<close> wraps around.
\<close>

fun print_into :: "nat \<Rightarrow> bytes \<Rightarrow> bytes list \<Rightarrow> bytes option" where
  "print_into sz acc [] = Some acc"
| "print_into sz acc (p # ps) =
     (let acc = acc @ p
      in if length acc < sz then print_into sz acc ps
         else if length acc = sz then Some (butlast acc @ [NUL])
         else None)"

definition with_length :: "simple_response \<Rightarrow> simple_response" where
  "with_length p = (if om_get (sr_headers p) ''Content-Length'' = None
     then Response_SetHeaders ''Content-Length'' (print_int (to_int32 (int (length (sr_body p))))) p else p)"

definition status_piece :: "simple_response \<Rightarrow> bytes" where
  "status_piece p = ''HTTP/1.1 '' @ print_int (sr_status_code p) @ '' '' @ cstr (sr_reason_phrase p) @ CRLF"

definition SerializeHeaderToArray :: "nat \<Rightarrow> simple_response \<Rightarrow> (bytes \<times> simple_response) option" where
  "SerializeHeaderToArray sz p =
     (if length (status_piece p) = sz then Some (butlast (status_piece p) @ [NUL], p)
      else
        let p' = with_length p
        in map_option (\<lambda>out. (out, p'))
             (print_into sz [] (status_piece p # map (\<lambda>(k, v). cstr k @ '': '' @ cstr v @ CRLF) (sr_headers p') @ [CRLF])))"

definition SerializeBodyToArray :: "nat \<Rightarrow> nat \<Rightarrow> simple_response \<Rightarrow> bytes \<times> nat" where
  "SerializeBodyToArray sz pos p =
     (let actual = (if length (sr_body p) - pos < sz then length (sr_body p) - pos else sz)
      in (take actual (drop pos (sr_body p)), pos + actual))"

function fill_loop :: "'u simple_conn \<Rightarrow> 'u simple_conn" where
  "fill_loop c =
     (if HasMoreBody (nat (sc_response_pos c)) (sc_response c) \<and> length (sc_wbuf c) < simple_MaxMessage then
        let (out, pos) = SerializeBodyToArray (simple_MaxMessage - length (sc_wbuf c)) (nat (sc_response_pos c)) (sc_response c)
        in fill_loop (c\<lparr>sc_wbuf := sc_wbuf c @ out, sc_response_pos := int pos\<rparr>)
      else c)"
  by pat_completeness auto
termination
  by (relation "measure (\<lambda>c. length (sr_body (sc_response c)) - nat (sc_response_pos c))")
    (auto simp: SerializeBodyToArray_def HasMoreBody_def Let_def split: if_splits)

declare fill_loop.simps [simp del]

definition FillResponseBuf :: "'u simple_conn \<Rightarrow> 'u simple_conn option" where
  "FillResponseBuf c =
     (if sc_response_pos c < 0 then
        map_option (\<lambda>(out, p). fill_loop (c\<lparr>sc_wbuf := sc_wbuf c @ out, sc_response := p, sc_response_pos := 0\<rparr>))
          (SerializeHeaderToArray (simple_MaxMessage - length (sc_wbuf c)) (sc_response c))
      else Some (fill_loop c))"

text \<open>The loop of \<^verbatim>\<open>SendReply\<close>: each turn takes an answer of the script.\<close>

function write_loop :: "write_answer list \<Rightarrow> 'u simple_conn \<Rightarrow> (WriteStatus \<times> bytes \<times> 'u simple_conn) option" where
  "write_loop as c =
     (if length (sc_wbuf c) > 0 then
        (case sys_write (drop (sc_wbuf_pos c) (sc_wbuf c)) as of
           (Werror e, as') \<Rightarrow> Some (if e = EAGAIN then kWriteHalf else kWriteError, [], c)
         | (Nwritten k, as') \<Rightarrow>
             if k = 0 then Some (kWriteError, [], c)
             else
               let out = take k (drop (sc_wbuf_pos c) (sc_wbuf c)); c1 = c\<lparr>sc_wbuf_pos := sc_wbuf_pos c + k\<rparr>
               in if sc_wbuf_pos c1 = length (sc_wbuf c1) then
                    (case FillResponseBuf (c1\<lparr>sc_wbuf := [], sc_wbuf_pos := 0\<rparr>) of
                       None \<Rightarrow> None
                     | Some c2 \<Rightarrow> map_option (\<lambda>(s, out', c). (s, out @ out', c)) (write_loop as' c2))
                  else map_option (\<lambda>(s, out', c). (s, out @ out', c)) (write_loop as' c1))
      else Some (kWriteAll, [], c\<lparr>sc_response_pos := -1\<rparr>))"
  by pat_completeness auto
termination
  by (relation "measure (\<lambda>(as, c). length as)") (auto dest: sys_write_consumes [OF sym])

declare write_loop.simps [simp del]

definition SimpleHTTPConn_SendReply :: "write_answer list \<Rightarrow> 'u simple_conn \<Rightarrow> (WriteStatus \<times> bytes \<times> 'u simple_conn) option" where
  "SimpleHTTPConn_SendReply as c = (case FillResponseBuf c of None \<Rightarrow> None | Some c \<Rightarrow> write_loop as c)"

section \<open>Receiving\<close>

datatype 'u simple_step = Again "'u simple_conn" "read_answer list" | Return ReadStatus "'u simple_conn" "read_answer list" | Fail

text \<open>A complete head: a client that expects 100-continue is answered before its body is read.\<close>

definition simple_head :: "(bytes \<Rightarrow> nat \<Rightarrow> int option) \<Rightarrow> (bytes \<Rightarrow> bytes) \<Rightarrow> nat \<Rightarrow> read_answer list \<Rightarrow> 'u simple_conn \<Rightarrow> 'u simple_step" where
  "simple_head s2l lower header_len as c =
     (case BuildRequestHeader s2l lower (c\<lparr>sc_header_len := header_len\<rparr>) of
        (False, c) \<Rightarrow> Return kReadError c as
      | (True, c) \<Rightarrow>
          if om_get (hh_headers (sc_request c)) ''expect'' \<in> {Some ''100-continue'', Some ''100-Continue''} then
            (case Response_SetStatusCode 100 (Response_Clear (sc_response c)) of
               None \<Rightarrow> Fail
             | Some p \<Rightarrow>
                 let c = base_set_is_reply True (c\<lparr>sc_response := p, sc_conn_status := kPacket\<rparr>)
                 in if sc_remain_packet_len c > 0 then Return kReadHalf c as else Again c as)
          else Again (c\<lparr>sc_conn_status := kPacket\<rparr>) as)"

text \<open>The end of a turn in the body: complete, or the buffer is full and is emptied.\<close>

definition simple_body :: "read_answer list \<Rightarrow> 'u simple_conn \<Rightarrow> 'u simple_step" where
  "simple_body as c =
     Again (if sc_remain_packet_len c = 0 \<or> length (sc_rbuf c) = simple_MaxMessage then
        let c = AppendRequestBody c
        in if sc_remain_packet_len c = 0 then c\<lparr>sc_conn_status := kComplete\<rparr> else c\<lparr>sc_rbuf := [], sc_header_len := 0\<rparr>
      else c) as"

definition simple_read_step :: "(bytes \<Rightarrow> nat \<Rightarrow> int option) \<Rightarrow> (bytes \<Rightarrow> bytes) \<Rightarrow> 'u deal_message \<Rightarrow> read_answer list \<Rightarrow> 'u simple_conn \<Rightarrow> 'u simple_step" where
  "simple_read_step s2l lower deal as c =
     (case sc_conn_status c of
        kHeader \<Rightarrow>
          (case sys_read (simple_MaxHeader - length (sc_rbuf c)) as of
             (Rerror e, as) \<Rightarrow> Return (if e = EAGAIN then kReadHalf else kReadClose) c as
           | (Nread s, as) \<Rightarrow>
               if s = [] then Return kReadClose c as
               else
                 let c = c\<lparr>sc_rbuf := sc_rbuf c @ s\<rparr>
                 in (case strstr (sc_rbuf c) header_end of
                       None \<Rightarrow> Again c as
                     | Some sep \<Rightarrow> simple_head s2l lower (sep + 4) as c))
      | kPacket \<Rightarrow>
          if sc_remain_packet_len c > 0 then
            (case sys_read (min (simple_MaxMessage - length (sc_rbuf c)) (unat (sc_remain_packet_len c))) as of
               (Rerror e, as) \<Rightarrow> Return (if e = EAGAIN then kReadHalf else kReadClose) c as
             | (Nread s, as) \<Rightarrow>
                 if s = [] then Return kReadClose c as
                 else simple_body as (c\<lparr>sc_rbuf := sc_rbuf c @ s, sc_remain_packet_len := sc_remain_packet_len c - of_nat (length s)\<rparr>))
          else simple_body as c
      | kComplete \<Rightarrow> Return kReadAll ((HandleMessage deal c)\<lparr>sc_conn_status := kHeader, sc_rbuf := []\<rparr>) as
      | _ \<Rightarrow> Return kReadError c as)"

text \<open>The loop of \<^verbatim>\<open>GetRequest\<close> ends: every turn takes bytes of the script or moves on to the next state.\<close>

definition status_rank :: "'u simple_conn \<Rightarrow> nat" where
  "status_rank c = (case sc_conn_status c of kHeader \<Rightarrow> 2 | kPacket \<Rightarrow> 1 | _ \<Rightarrow> 0)"

lemma simple_head_rank: "simple_head s2l lower n as c = Again c' as' \<Longrightarrow> as' = as \<and> sc_conn_status c' = kPacket"
  by (auto simp: simple_head_def Let_def base_set_is_reply_def split: prod.splits bool.splits if_splits option.splits)

lemma simple_body_rank:
  "simple_body as c = Again c' as' \<Longrightarrow> sc_conn_status c = kPacket \<Longrightarrow>
   as' = as \<and> status_rank c' \<le> 1 \<and> (sc_remain_packet_len c = 0 \<longrightarrow> status_rank c' = 0)"
  by (auto simp: simple_body_def status_rank_def AppendRequestBody_def Let_def split: if_splits)

lemma simple_read_step_decreases:
  assumes "simple_read_step s2l lower deal as c = Again c' as'"
  shows "script_size as' < script_size as \<or> as' = as \<and> status_rank c' < status_rank c"
proof (cases "sc_conn_status c")
  case kHeader
  with assms show ?thesis
    by (auto simp: simple_read_step_def Let_def split: prod.splits read_result.splits if_splits option.splits
        dest!: simple_head_rank dest: sys_read_consumes)
next
  case kPacket
  show ?thesis
  proof (cases "sc_remain_packet_len c > 0")
    case True
    with assms kPacket show ?thesis
      by (auto simp: simple_read_step_def split: prod.splits read_result.splits if_splits dest!: simple_body_rank dest: sys_read_consumes)
  next
    case False
    then have z: "sc_remain_packet_len c = 0" by (simp add: word_greater_zero_iff)
    with assms kPacket have "simple_body as c = Again c' as'" by (simp add: simple_read_step_def)
    from simple_body_rank [OF this kPacket] z kPacket show ?thesis by (simp add: status_rank_def)
  qed
qed (use assms in \<open>simp_all add: simple_read_step_def\<close>)

function simple_read_loop :: "(bytes \<Rightarrow> nat \<Rightarrow> int option) \<Rightarrow> (bytes \<Rightarrow> bytes) \<Rightarrow> 'u deal_message \<Rightarrow> read_answer list \<Rightarrow> 'u simple_conn \<Rightarrow>
    (ReadStatus \<times> 'u simple_conn \<times> read_answer list) option" where
  "simple_read_loop s2l lower deal as c =
     (case simple_read_step s2l lower deal as c of
        Again c' as' \<Rightarrow> simple_read_loop s2l lower deal as' c'
      | Return s c' as' \<Rightarrow> Some (s, c', as')
      | Fail \<Rightarrow> None)"
  by pat_completeness auto
termination
  by (relation "measures [\<lambda>(s2l, lower, deal, as, c). script_size as, \<lambda>(s2l, lower, deal, as, c). status_rank c]")
    (auto dest: simple_read_step_decreases)

declare simple_read_loop.simps [simp del]

definition SimpleHTTPConn_GetRequest :: "(bytes \<Rightarrow> nat \<Rightarrow> int option) \<Rightarrow> (bytes \<Rightarrow> bytes) \<Rightarrow> 'u deal_message \<Rightarrow> read_answer list \<Rightarrow>
    'u simple_conn \<Rightarrow> (ReadStatus \<times> 'u simple_conn \<times> read_answer list) option" where
  "SimpleHTTPConn_GetRequest s2l lower deal as c = simple_read_loop s2l lower deal as c"

definition simple_ops :: "(bytes \<Rightarrow> nat \<Rightarrow> int option) \<Rightarrow> (bytes \<Rightarrow> bytes) \<Rightarrow> 'u deal_message \<Rightarrow> ('u, unit) simple_conn_ext conn_ops" where
  "simple_ops s2l lower deal =
     \<lparr>co_GetRequest = (\<lambda>i c. map_option (\<lambda>(s, c, _). (s, c)) (SimpleHTTPConn_GetRequest s2l lower deal (io_reads i) c)),
      co_SendReply = (\<lambda>i c. map_option (\<lambda>(s, _, c). (s, c)) (SimpleHTTPConn_SendReply (io_writes i) c)),
      co_WriteResp = (\<lambda>_ c. c), co_TryResizeBuffer = (\<lambda>_ c. c), co_set_is_reply = base_set_is_reply, co_is_reply = pc_is_reply\<rparr>"

section \<open>The connection class\<close>

definition step_same :: "'u simple_conn \<Rightarrow> 'u simple_step \<Rightarrow> bool" where
  "step_same c r \<longleftrightarrow> (case r of Again c' _ \<Rightarrow> same_conn c c' | Return _ c' _ \<Rightarrow> same_conn c c' | Fail \<Rightarrow> True)"

lemma BuildRequestHeader_same: "BuildRequestHeader s2l lower c = (b, c') \<Longrightarrow> same_conn c c'"
  by (auto simp: BuildRequestHeader_def same_conn_def Let_def split: prod.splits bool.splits)

lemma simple_head_same: "step_same c (simple_head s2l lower n as c)"
proof -
  obtain b c' where b: "BuildRequestHeader s2l lower (c\<lparr>sc_header_len := n\<rparr>) = (b, c')"
    by (cases "BuildRequestHeader s2l lower (c\<lparr>sc_header_len := n\<rparr>)")
  from BuildRequestHeader_same [OF b] have "same_conn c c'" by (simp add: same_conn_def)
  with b show ?thesis
    by (cases b) (auto simp: simple_head_def step_same_def same_conn_def base_set_is_reply_def Let_def split: option.splits)
qed

lemma simple_body_same: "step_same c (simple_body as c)"
  by (auto simp: simple_body_def step_same_def same_conn_def AppendRequestBody_def Let_def)

lemma step_same_upd:
  "step_same (c\<lparr>sc_rbuf := s\<rparr>) r = step_same c r" "step_same (c\<lparr>sc_rbuf := s, sc_remain_packet_len := n\<rparr>) r = step_same c r"
  by (simp_all add: step_same_def same_conn_def split: simple_step.splits)

lemma simple_read_step_same: "step_same c (simple_read_step s2l lower deal as c)"
proof (cases "sc_conn_status c")
  case kHeader
  then show ?thesis
    using simple_head_same [where c = "c\<lparr>sc_rbuf := s\<rparr>" for s, unfolded step_same_upd]
    by (auto simp: simple_read_step_def Let_def step_same_upd split: prod.splits read_result.splits option.splits)
      (auto simp: step_same_def same_conn_def)
next
  case kPacket
  then show ?thesis
    using simple_body_same [where c = "c\<lparr>sc_rbuf := s, sc_remain_packet_len := n\<rparr>" for s n, unfolded step_same_upd] simple_body_same [of c as]
    by (auto simp: simple_read_step_def split: prod.splits read_result.splits) (auto simp: step_same_def)
next
  case kComplete
  then show ?thesis
    by (auto simp: simple_read_step_def step_same_def same_conn_def HandleMessage_def base_set_is_reply_def split: prod.splits)
qed (auto simp: simple_read_step_def step_same_def)

lemma simple_read_loop_same: "simple_read_loop s2l lower deal as c = Some (s, c', as') \<Longrightarrow> same_conn c c'"
proof (induction s2l lower deal as c rule: simple_read_loop.induct)
  case (1 s2l lower deal as c)
  then show ?case using simple_read_step_same [where c = c and as = as and deal = deal and lower = lower and ?s2l.0 = s2l]
    by (cases "simple_read_step s2l lower deal as c")
      (auto simp: simple_read_loop.simps [of s2l lower deal as c] step_same_def intro: same_conn_trans)
qed

lemma fill_loop_same: "same_conn c (fill_loop c)"
proof (induction c rule: fill_loop.induct)
  case (1 c)
  then show ?case by (subst fill_loop.simps) (auto simp: same_conn_def split: prod.splits)
qed

lemma FillResponseBuf_same:
  assumes "FillResponseBuf c = Some c'"
  shows "same_conn c c'"
proof (cases "sc_response_pos c < 0")
  case True
  with assms obtain out p where "c' = fill_loop (c\<lparr>sc_wbuf := sc_wbuf c @ out, sc_response := p, sc_response_pos := 0\<rparr>)"
    by (auto simp: FillResponseBuf_def)
  with fill_loop_same [of "c\<lparr>sc_wbuf := sc_wbuf c @ out, sc_response := p, sc_response_pos := 0\<rparr>"] show ?thesis
    by (simp add: same_conn_def)
next
  case False
  with assms fill_loop_same [of c] show ?thesis by (simp add: FillResponseBuf_def)
qed

text \<open>One turn of the loop that sends.\<close>

lemma write_loop_cases:
  assumes "write_loop as c = Some (s, out, c')"
  obtains (sent) "sc_wbuf c = []" "s = kWriteAll" "out = []" "c' = c\<lparr>sc_response_pos := -1\<rparr>"
  | (stop) "sc_wbuf c \<noteq> []" "s \<noteq> kWriteAll" "out = []" "c' = c"
  | (refill) k as' c2 out' where "sc_wbuf c \<noteq> []" "sys_write (drop (sc_wbuf_pos c) (sc_wbuf c)) as = (Nwritten k, as')" "0 < k"
      "sc_wbuf_pos c + k = length (sc_wbuf c)" "FillResponseBuf (c\<lparr>sc_wbuf := [], sc_wbuf_pos := 0\<rparr>) = Some c2"
      "write_loop as' c2 = Some (s, out', c')" "out = take k (drop (sc_wbuf_pos c) (sc_wbuf c)) @ out'"
  | (part) k as' out' where "sc_wbuf c \<noteq> []" "sys_write (drop (sc_wbuf_pos c) (sc_wbuf c)) as = (Nwritten k, as')" "0 < k"
      "sc_wbuf_pos c + k \<noteq> length (sc_wbuf c)" "write_loop as' (c\<lparr>sc_wbuf_pos := sc_wbuf_pos c + k\<rparr>) = Some (s, out', c')"
      "out = take k (drop (sc_wbuf_pos c) (sc_wbuf c)) @ out'"
proof (cases "sc_wbuf c = []")
  case True
  with assms sent show thesis by (simp add: write_loop.simps [of as c])
next
  case False
  obtain w as' where w: "sys_write (drop (sc_wbuf_pos c) (sc_wbuf c)) as = (w, as')"
    by (cases "sys_write (drop (sc_wbuf_pos c) (sc_wbuf c)) as")
  show thesis
  proof (cases w)
    case (Werror e)
    from assms w False Werror have "s \<noteq> kWriteAll" "out = []" "c' = c"
      by (auto simp: write_loop.simps [of as c] split: if_splits)
    with False stop show thesis by blast
  next
    case (Nwritten k)
    show thesis
    proof (cases "k = 0 \<or> sc_wbuf_pos c + k \<noteq> length (sc_wbuf c)")
      case more: True
      show thesis
      proof (cases "k = 0")
        case True
        from assms w False Nwritten True have "s = kWriteError" "out = []" "c' = c"
          by (auto simp: write_loop.simps [of as c])
        with False stop show thesis by blast
      next
        case some: False
        from assms w False Nwritten more some obtain out' where
          "write_loop as' (c\<lparr>sc_wbuf_pos := sc_wbuf_pos c + k\<rparr>) = Some (s, out', c')"
          "out = take k (drop (sc_wbuf_pos c) (sc_wbuf c)) @ out'"
          by (auto simp: write_loop.simps [of as c])
        with w False Nwritten more some show thesis by (intro part [of k as' out']) simp_all
      qed
    next
      case filled: False
      with assms w False Nwritten obtain c2 out' where "FillResponseBuf (c\<lparr>sc_wbuf := [], sc_wbuf_pos := 0\<rparr>) = Some c2"
        "write_loop as' c2 = Some (s, out', c')" "out = take k (drop (sc_wbuf_pos c) (sc_wbuf c)) @ out'"
        by (auto simp: write_loop.simps [of as c] split: option.splits)
      with filled w Nwritten False show thesis by (intro refill [of k as' c2 out']) simp_all
    qed
  qed
qed

lemma write_loop_same: "write_loop as c = Some (s, out, c') \<Longrightarrow> same_conn c c'"
proof (induction "length as" arbitrary: as c out rule: less_induct)
  case less
  from less.prems show ?case
  proof (cases rule: write_loop_cases)
    case (refill k as' c2 out')
    have "length as' < length as" using sys_write_consumes [OF refill(2)] by simp
    from less.hyps [OF this refill(6)] FillResponseBuf_same [OF refill(5)] show ?thesis by (simp add: same_conn_def)
  next
    case (part k as' out')
    have "length as' < length as" using sys_write_consumes [OF part(2)] by simp
    from less.hyps [OF this part(5)] show ?thesis by (simp add: same_conn_def)
  qed (simp_all add: same_conn_def)
qed

interpretation simple_http: conn_class "simple_ops s2l lower deal" for s2l lower deal
proof unfold_locales
  fix i c ws c'
  assume "co_SendReply (simple_ops s2l lower deal) i c = Some (ws, c')"
  then show "same_conn c c'"
    by (auto simp: simple_ops_def SimpleHTTPConn_SendReply_def split: option.splits
        dest!: FillResponseBuf_same write_loop_same intro: same_conn_trans)
qed (auto simp: simple_ops_def SimpleHTTPConn_GetRequest_def dest: simple_read_loop_same)

section \<open>The reply on the wire\<close>

definition simple_reply_head :: "simple_response \<Rightarrow> bytes" where
  "simple_reply_head p =
     concat (status_piece p # map (\<lambda>(k, v). cstr k @ '': '' @ cstr v @ CRLF) (sr_headers (with_length p)) @ [CRLF])"

lemma print_into_fit: "length (acc @ concat ps) < sz \<Longrightarrow> print_into sz acc ps = Some (acc @ concat ps)"
  by (induction ps arbitrary: acc) (auto simp: Let_def)

lemma SerializeHeaderToArray_fit:
  assumes "length (simple_reply_head p) < sz"
  shows "SerializeHeaderToArray sz p = Some (simple_reply_head p, with_length p)"
proof -
  have "length (status_piece p) < sz" using assms by (simp add: simple_reply_head_def)
  then show ?thesis using assms by (simp add: SerializeHeaderToArray_def simple_reply_head_def Let_def print_into_fit)
qed

lemma with_length_body [simp]: "sr_body (with_length p) = sr_body p"
  by (simp add: with_length_def Response_SetHeaders_def)

text \<open>Filling the buffer keeps what is to be sent, and leaves it empty only when nothing is left.\<close>

definition to_send :: "'u simple_conn \<Rightarrow> bytes" where
  "to_send c = drop (sc_wbuf_pos c) (sc_wbuf c) @ drop (nat (sc_response_pos c)) (sr_body (sc_response c))"

definition filled :: "'u simple_conn \<Rightarrow> bool" where
  "filled c \<longleftrightarrow> 0 \<le> sc_response_pos c \<and> sc_wbuf_pos c \<le> length (sc_wbuf c) \<and>
     (sc_wbuf c = [] \<longrightarrow> length (sr_body (sc_response c)) \<le> nat (sc_response_pos c))"

lemma SerializeBodyToArray_split:
  "SerializeBodyToArray sz pos p = (out, pos') \<Longrightarrow> out @ drop pos' (sr_body p) = drop pos (sr_body p) \<and> pos \<le> pos'"
  by (auto simp: SerializeBodyToArray_def Let_def split: if_splits)
    (metis add.commute append_take_drop_id drop_drop)

lemma fill_loop_sends:
  assumes "0 \<le> sc_response_pos c" "sc_wbuf_pos c \<le> length (sc_wbuf c)"
  shows "filled (fill_loop c) \<and> to_send (fill_loop c) = to_send c \<and> sc_wbuf_pos (fill_loop c) = sc_wbuf_pos c"
  using assms
proof (induction c rule: fill_loop.induct)
  case (1 c)
  let ?more = "HasMoreBody (nat (sc_response_pos c)) (sc_response c) \<and> length (sc_wbuf c) < simple_MaxMessage"
  show ?case
  proof (cases ?more)
    case True
    obtain out pos where s: "SerializeBodyToArray (simple_MaxMessage - length (sc_wbuf c)) (nat (sc_response_pos c)) (sc_response c) = (out, pos)"
      by (metis surj_pair)
    let ?c = "c\<lparr>sc_wbuf := sc_wbuf c @ out, sc_response_pos := int pos\<rparr>"
    have "to_send ?c = to_send c" using SerializeBodyToArray_split [OF s] "1.prems" by (simp add: to_send_def)
    moreover have "filled (fill_loop ?c) \<and> to_send (fill_loop ?c) = to_send ?c \<and> sc_wbuf_pos (fill_loop ?c) = sc_wbuf_pos ?c"
      by (rule "1.IH" [OF True s [symmetric] refl]) (use "1.prems" in simp_all)
    moreover have "fill_loop c = fill_loop ?c" using True s by (simp add: fill_loop.simps [of c])
    ultimately show ?thesis by simp
  next
    case False
    then have "fill_loop c = c" by (subst fill_loop.simps) (rule if_not_P)
    moreover have "filled c" using False "1.prems" by (auto simp: filled_def HasMoreBody_def simple_MaxMessage_def)
    ultimately show ?thesis by simp
  qed
qed

lemma FillResponseBuf_again:
  assumes "0 \<le> sc_response_pos c" "sc_wbuf_pos c \<le> length (sc_wbuf c)"
  obtains c' where "FillResponseBuf c = Some c'" "filled c'" "to_send c' = to_send c" "sc_wbuf_pos c' = sc_wbuf_pos c"
  using fill_loop_sends [OF assms] assms by (simp add: FillResponseBuf_def)

text \<open>
  A reply under way: nothing sent yet and the response to be serialised, or the bytes sent and those to be sent are the reply.
\<close>

definition reply_state :: "bytes \<Rightarrow> bytes \<Rightarrow> 'u simple_conn \<Rightarrow> bool" where
  "reply_state reply wire c \<longleftrightarrow>
     (if sc_response_pos c < 0
      then wire = [] \<and> sc_wbuf c = [] \<and> sc_wbuf_pos c = 0 \<and> length (simple_reply_head (sc_response c)) < simple_MaxMessage \<and>
           reply = simple_reply_head (sc_response c) @ sr_body (sc_response c)
      else filled c \<and> wire @ to_send c = reply)"

lemma FillResponseBuf_reply:
  assumes "reply_state reply wire c"
  obtains c' where "FillResponseBuf c = Some c'" "filled c'" "wire @ to_send c' = reply"
proof (cases "sc_response_pos c < 0")
  case True
  let ?c = "c\<lparr>sc_wbuf := simple_reply_head (sc_response c), sc_response := with_length (sc_response c), sc_response_pos := 0\<rparr>"
  have r: "wire = []" "sc_wbuf c = []" "sc_wbuf_pos c = 0" "length (simple_reply_head (sc_response c)) < simple_MaxMessage"
    "reply = simple_reply_head (sc_response c) @ sr_body (sc_response c)"
    using assms True by (simp_all add: reply_state_def)
  have "FillResponseBuf c = Some (fill_loop ?c)"
    using True r SerializeHeaderToArray_fit [OF r(4)] by (simp add: FillResponseBuf_def)
  moreover have "to_send ?c = reply" using r by (simp add: to_send_def)
  moreover have "filled (fill_loop ?c) \<and> to_send (fill_loop ?c) = to_send ?c" using fill_loop_sends [of ?c] r by simp
  ultimately show thesis using that r(1) by simp
next
  case False
  with assms have "0 \<le> sc_response_pos c" "sc_wbuf_pos c \<le> length (sc_wbuf c)" "wire @ to_send c = reply"
    by (simp_all add: reply_state_def filled_def)
  with FillResponseBuf_again that show thesis by metis
qed

definition reply_result :: "bytes \<Rightarrow> bytes \<Rightarrow> WriteStatus \<Rightarrow> 'u simple_conn \<Rightarrow> bool" where
  "reply_result reply wire s c \<longleftrightarrow>
     (if s = kWriteAll then wire = reply \<and> sc_response_pos c = -1 \<and> sc_wbuf c = [] else filled c \<and> wire @ to_send c = reply)"

lemma write_loop_sends:
  assumes "filled c" "wire @ to_send c = reply"
  shows "\<exists>s out c'. write_loop as c = Some (s, out, c') \<and> reply_result reply (wire @ out) s c'"
  using assms
proof (induction "length as" arbitrary: as c wire rule: less_induct)
  case less
  obtain w as' where w: "sys_write (drop (sc_wbuf_pos c) (sc_wbuf c)) as = (w, as')" by (metis surj_pair)
  let ?out = "\<lambda>k. take k (drop (sc_wbuf_pos c) (sc_wbuf c))"
  consider (empty) "sc_wbuf c = []" | (stop) "sc_wbuf c \<noteq> []" "w = Nwritten 0 \<or> (\<exists>e. w = Werror e)"
    | (sent) k where "sc_wbuf c \<noteq> []" "w = Nwritten k" "0 < k" by (cases w) auto
  then show ?case
  proof cases
    case empty
    with less.prems show ?thesis
      by (subst write_loop.simps) (simp add: reply_result_def filled_def to_send_def)
  next
    case stop
    with less.prems w show ?thesis by (subst write_loop.simps) (auto simp: reply_result_def)
  next
    case (sent k)
    have shorter: "length as' < length as" using sys_write_consumes [OF w] sent by simp
    have k: "sc_wbuf_pos c + k \<le> length (sc_wbuf c)"
      using sys_write_length [of "drop (sc_wbuf_pos c) (sc_wbuf c)" as k as'] w sent less.prems by (simp add: filled_def)
    have split: "?out k @ drop (sc_wbuf_pos c + k) (sc_wbuf c) = drop (sc_wbuf_pos c) (sc_wbuf c)"
      by (metis add.commute append_take_drop_id drop_drop)
    show ?thesis
    proof (cases "sc_wbuf_pos c + k = length (sc_wbuf c)")
      case True
      let ?c = "c\<lparr>sc_wbuf := [], sc_wbuf_pos := 0\<rparr>"
      have "0 \<le> sc_response_pos ?c" using less.prems by (simp add: filled_def)
      then obtain c2 where c2: "FillResponseBuf ?c = Some c2" "filled c2" "to_send c2 = to_send ?c"
        using FillResponseBuf_again [of ?c] by auto
      have "(wire @ ?out k) @ to_send c2 = reply" using c2(3) less.prems(2) split True by (simp add: to_send_def)
      from less.hyps [OF shorter c2(2) this] w sent True c2(1) show ?thesis by (subst write_loop.simps) auto
    next
      case False
      let ?c = "c\<lparr>sc_wbuf_pos := sc_wbuf_pos c + k\<rparr>"
      have "filled ?c" using less.prems(1) k sent by (simp add: filled_def)
      moreover have "?out k @ to_send ?c = to_send c" using split by (simp add: to_send_def)
      then have "(wire @ ?out k) @ to_send ?c = reply" using less.prems(2) by simp
      ultimately show ?thesis using less.hyps [OF shorter, of ?c "wire @ ?out k"] w sent False by (subst write_loop.simps) auto
    qed
  qed
qed

lemma SendReply_sends:
  assumes "reply_state reply wire c"
  shows "\<exists>s out c'. SimpleHTTPConn_SendReply as c = Some (s, out, c') \<and> reply_result reply (wire @ out) s c'"
proof -
  obtain c2 where "FillResponseBuf c = Some c2" "filled c2" "wire @ to_send c2 = reply" using FillResponseBuf_reply [OF assms] .
  with write_loop_sends [of c2 wire reply as] show ?thesis by (simp add: SimpleHTTPConn_SendReply_def)
qed

fun simple_send_calls :: "write_answer list list \<Rightarrow> 'u simple_conn \<Rightarrow> (WriteStatus \<times> bytes \<times> 'u simple_conn) option" where
  "simple_send_calls [] c = Some (kWriteHalf, [], c)"
| "simple_send_calls (as # ass) c =
     (case SimpleHTTPConn_SendReply as c of
        None \<Rightarrow> None
      | Some (s, out, c) \<Rightarrow>
          if s = kWriteHalf then map_option (\<lambda>(s, out', c). (s, out @ out', c)) (simple_send_calls ass c) else Some (s, out, c))"

lemma simple_send_calls_sends:
  assumes "reply_state reply wire c"
  shows "\<exists>s out c'. simple_send_calls ass c = Some (s, out, c') \<and> (\<exists>more. (wire @ out) @ more = reply) \<and>
    (s = kWriteAll \<longrightarrow> wire @ out = reply \<and> sc_response_pos c' = -1 \<and> sc_wbuf c' = [])"
  using assms
proof (induction ass arbitrary: c wire)
  case Nil
  then show ?case by (auto simp: reply_state_def split: if_splits)
next
  case (Cons as ass)
  from SendReply_sends [OF Cons.prems, of as] obtain s out c2 where
    s: "SimpleHTTPConn_SendReply as c = Some (s, out, c2)" "reply_result reply (wire @ out) s c2" by blast
  show ?case
  proof (cases "s = kWriteHalf")
    case True
    with s(2) have "reply_state reply (wire @ out) c2" by (simp add: reply_result_def reply_state_def filled_def)
    from Cons.IH [OF this] s(1) True show ?thesis by auto
  next
    case False
    with s show ?thesis by (auto simp: reply_result_def split: if_splits)
  qed
qed

text \<open>Over any sequence of calls and partial writes a response is sent as its status line, its headers (with the length of
  the body when the application set none) and its body, in this order; it is reported sent only when all of it is on the
  wire, and then the connection is ready to serialise the next one.\<close>

lemma simple_reply_in_order:
  assumes "sc_wbuf c = []" "sc_wbuf_pos c = 0" "sc_response_pos c < 0" "length (simple_reply_head (sc_response c)) < simple_MaxMessage"
  shows "\<exists>s wire c'. simple_send_calls ass c = Some (s, wire, c') \<and>
    (\<exists>more. wire @ more = simple_reply_head (sc_response c) @ sr_body (sc_response c)) \<and>
    (s = kWriteAll \<longrightarrow> wire = simple_reply_head (sc_response c) @ sr_body (sc_response c) \<and> sc_response_pos c' = -1 \<and> sc_wbuf c' = [])"
proof -
  have "reply_state (simple_reply_head (sc_response c) @ sr_body (sc_response c)) [] c" using assms by (simp add: reply_state_def)
  from simple_send_calls_sends [OF this, of ass] show ?thesis by simp
qed

definition simple_demo :: "nat simple_conn" where
  "simple_demo = (SimpleHTTPConn_new 5 ''p'' (0, 0) 0)
     \<lparr>sc_response := \<lparr>sr_status_code = 200, sr_reason_phrase = ''OK'', sr_headers = [], sr_body = ''abc''\<rparr>\<rparr>"

section \<open>The body of a request\<close>

definition body_so_far :: "'u simple_conn \<Rightarrow> bytes" where
  "body_so_far c = sq_content (sc_request c) @ drop (sc_header_len c) (sc_rbuf c)"

definition receiving_body :: "'u simple_conn \<Rightarrow> bool" where
  "receiving_body c \<longleftrightarrow> sc_conn_status c = kPacket \<and> sc_header_len c \<le> length (sc_rbuf c) \<and>
     length (sc_rbuf c) < simple_MaxMessage \<and> 0 < unat (sc_remain_packet_len c)"

text \<open>What a call that read \<open>s\<close> leaves: the rest of the body is awaited, or the message has been dealt with.\<close>

definition body_result :: "'u deal_message \<Rightarrow> 'u simple_conn \<Rightarrow> bytes \<Rightarrow> ReadStatus \<Rightarrow> 'u simple_conn \<Rightarrow> bool" where
  "body_result deal c s st c' \<longleftrightarrow>
     (if length s = unat (sc_remain_packet_len c)
      then st = kReadAll \<and> sq_content (sc_request c') = body_so_far c @ s \<and> pc_is_reply c' \<and>
           (sc_response c', sc_user c') = deal (sc_request c') (Response_Clear (sc_response c)) (sc_user c) \<and>
           sc_conn_status c' = kHeader \<and> sc_rbuf c' = []
      else st = kReadHalf \<and> receiving_body c' \<and> body_so_far c' = body_so_far c @ s \<and> sc_response c' = sc_response c \<and> sc_user c' = sc_user c \<and>
           unat (sc_remain_packet_len c') = unat (sc_remain_packet_len c) - length s)"

lemma sys_read_chunks:
  assumes "\<forall>ch \<in> set chunks. ch \<noteq> []" "chunks \<noteq> []" "0 < n"
  obtains t chunks' where "sys_read n (map Bytes chunks) = (Nread t, map Bytes chunks')" "t \<noteq> []" "length t \<le> n"
    "t @ concat chunks' = concat chunks" "\<forall>ch \<in> set chunks'. ch \<noteq> []"
proof -
  obtain ch rest where c: "chunks = ch # rest" using assms(2) by (cases chunks) auto
  show thesis
  proof (cases "length ch \<le> n")
    case True
    then show thesis using assms c that [of ch rest] by simp
  next
    case False
    then show thesis using assms c that [of "take n ch" "drop n ch # rest"] by (auto simp: min_def)
  qed
qed

lemma ParseBodyFromArray_content [simp]: "sq_content (ParseBodyFromArray d r) = sq_content r @ d"
  by (simp add: ParseBodyFromArray_def Let_def)

lemma complete_returns:
  assumes "sc_conn_status c = kComplete"
  shows "simple_read_loop s2l lower deal as c = Some (kReadAll, (HandleMessage deal c)\<lparr>sc_conn_status := kHeader, sc_rbuf := []\<rparr>, as)"
  using assms by (simp add: simple_read_loop.simps [of s2l lower deal as c] simple_read_step_def)

lemma unat_minus_of_nat: "k \<le> unat (w :: 64 word) \<Longrightarrow> unat (w - of_nat k) = unat w - k"
proof -
  assume k: "k \<le> unat w"
  then have "k < 2 ^ 64" using unsigned_less [of w, where 'a = nat] by simp
  then have u: "unat (of_nat k :: 64 word) = k" by (simp add: unat_of_nat)
  with k have "(of_nat k :: 64 word) \<le> w" by (simp add: word_le_nat_alt)
  with u show ?thesis by (simp add: unat_sub)
qed

lemma body_read:
  assumes "receiving_body c" "\<forall>ch \<in> set chunks. ch \<noteq> []" "length (concat chunks) \<le> unat (sc_remain_packet_len c)"
  shows "\<exists>st c'. simple_read_loop s2l lower deal (map Bytes chunks) c = Some (st, c', []) \<and> body_result deal c (concat chunks) st c'"
  using assms
proof (induction "length (concat chunks)" arbitrary: chunks c rule: less_induct)
  case less
  have st: "sc_conn_status c = kPacket" "0 < sc_remain_packet_len c" "0 < unat (sc_remain_packet_len c)"
    using less.prems(1) by (auto simp: receiving_body_def word_greater_zero_iff)
  show ?case
  proof (cases "chunks = []")
    case True
    have "0 < simple_MaxMessage - length (sc_rbuf c)" using less.prems(1) by (simp add: receiving_body_def)
    with True st less.prems(1) show ?thesis
      by (simp add: simple_read_loop.simps [of s2l lower deal _ c] simple_read_step_def body_result_def body_so_far_def)
  next
    case False
    let ?n = "min (simple_MaxMessage - length (sc_rbuf c)) (unat (sc_remain_packet_len c))"
    have "0 < ?n" using less.prems(1) by (simp add: receiving_body_def)
    with less.prems(2) False obtain t chunks' where t: "sys_read ?n (map Bytes chunks) = (Nread t, map Bytes chunks')" "t \<noteq> []" "length t \<le> ?n"
      "t @ concat chunks' = concat chunks" "\<forall>ch \<in> set chunks'. ch \<noteq> []" by (rule sys_read_chunks)
    let ?c1 = "c\<lparr>sc_rbuf := sc_rbuf c @ t, sc_remain_packet_len := sc_remain_packet_len c - of_nat (length t)\<rparr>"
    have rem: "unat (sc_remain_packet_len ?c1) = unat (sc_remain_packet_len c) - length t" using t(3) by (simp add: unat_minus_of_nat)
    have body: "body_so_far ?c1 = body_so_far c @ t" using less.prems(1) by (simp add: body_so_far_def receiving_body_def)
    have len: "length (concat chunks) = length t + length (concat chunks')" using arg_cong [OF t(4), of length] by simp
    have step: "simple_read_step s2l lower deal (map Bytes chunks) c = simple_body (map Bytes chunks') ?c1"
      using st t(1,2) by (simp add: simple_read_step_def)
    show ?thesis
    proof (cases "unat (sc_remain_packet_len ?c1) = 0")
      case True
      then have z: "sc_remain_packet_len ?c1 = 0" by (simp only: unat_eq_zero)
      then have "simple_body (map Bytes chunks') ?c1 = Again ((AppendRequestBody ?c1)\<lparr>sc_conn_status := kComplete\<rparr>) (map Bytes chunks')"
        by (simp add: simple_body_def AppendRequestBody_def Let_def)
      moreover have none: "length (concat chunks') = 0" "length (concat chunks) = unat (sc_remain_packet_len c)"
        using True rem less.prems(3) len t(3) by linarith+
      moreover have "chunks' = []" using none(1) t(5) by (cases chunks') auto
      moreover have "concat chunks = t" using t(4) \<open>chunks' = []\<close> by simp
      ultimately show ?thesis using step body
        by (simp add: simple_read_loop.simps [of s2l lower deal _ c] complete_returns body_result_def HandleMessage_def
            base_set_is_reply_def AppendRequestBody_def body_so_far_def split: prod.splits)
    next
      case False
      define c2 where "c2 = (if length (sc_rbuf ?c1) = simple_MaxMessage then (AppendRequestBody ?c1)\<lparr>sc_rbuf := [], sc_header_len := 0\<rparr> else ?c1)"
      have nz: "sc_remain_packet_len ?c1 \<noteq> 0" using False unat_0 by metis
      then have "simple_body (map Bytes chunks') ?c1 = Again c2 (map Bytes chunks')"
        by (simp add: simple_body_def AppendRequestBody_def Let_def c2_def)
      moreover have c2: "receiving_body c2" "body_so_far c2 = body_so_far c @ t" "sc_response c2 = sc_response c" "sc_user c2 = sc_user c"
        "unat (sc_remain_packet_len c2) = unat (sc_remain_packet_len c) - length t"
        using less.prems(1) t(3) nz body rem False
        by (auto simp: c2_def receiving_body_def AppendRequestBody_def body_so_far_def simple_MaxMessage_def)
      moreover have "\<exists>st c'. simple_read_loop s2l lower deal (map Bytes chunks') c2 = Some (st, c', []) \<and> body_result deal c2 (concat chunks') st c'"
        using less.hyps [of chunks' c2] c2 t less.prems(3) len by simp
      moreover have "body_result deal c2 (concat chunks') s c' \<Longrightarrow> body_result deal c (concat chunks) s c'" for s c'
        using c2 t(4) len rem False by (auto simp: body_result_def split: if_splits)
      ultimately show ?thesis using step by (auto simp: simple_read_loop.simps [of s2l lower deal _ c])
    qed
  qed
qed

fun simple_get_calls :: "(bytes \<Rightarrow> nat \<Rightarrow> int option) \<Rightarrow> (bytes \<Rightarrow> bytes) \<Rightarrow> 'u deal_message \<Rightarrow> read_answer list list \<Rightarrow> 'u simple_conn \<Rightarrow>
    (ReadStatus \<times> 'u simple_conn) option" where
  "simple_get_calls s2l lower deal [] c = Some (kReadHalf, c)"
| "simple_get_calls s2l lower deal (as # ass) c =
     (case SimpleHTTPConn_GetRequest s2l lower deal as c of
        None \<Rightarrow> None
      | Some (s, c, _) \<Rightarrow> if s = kReadHalf then simple_get_calls s2l lower deal ass c else Some (s, c))"

lemma simple_get_calls_body:
  assumes "receiving_body c" "\<forall>chunks \<in> set css. \<forall>ch \<in> set chunks. ch \<noteq> []" "length (concat (concat css)) = unat (sc_remain_packet_len c)"
  shows "\<exists>c'. simple_get_calls s2l lower deal (map (map Bytes) css) c = Some (kReadAll, c') \<and> body_result deal c (concat (concat css)) kReadAll c'"
  using assms
proof (induction css arbitrary: c)
  case Nil
  then show ?case by (simp add: receiving_body_def)
next
  case (Cons chunks css)
  obtain st c1 where r: "simple_read_loop s2l lower deal (map Bytes chunks) c = Some (st, c1, [])" "body_result deal c (concat chunks) st c1"
    using body_read [of c chunks s2l lower deal] Cons.prems by auto
  show ?case
  proof (cases "length (concat chunks) = unat (sc_remain_packet_len c)")
    case True
    with Cons.prems(3) have "concat (concat css) = []" by simp
    then have "concat (concat (chunks # css)) = concat chunks" by simp
    with r True show ?thesis by (simp add: SimpleHTTPConn_GetRequest_def body_result_def)
  next
    case False
    with r(2) have c1: "st = kReadHalf" "receiving_body c1" "body_so_far c1 = body_so_far c @ concat chunks" "sc_response c1 = sc_response c"
      "sc_user c1 = sc_user c" "unat (sc_remain_packet_len c1) = unat (sc_remain_packet_len c) - length (concat chunks)"
      by (simp_all add: body_result_def)
    have "\<exists>c'. simple_get_calls s2l lower deal (map (map Bytes) css) c1 = Some (kReadAll, c') \<and> body_result deal c1 (concat (concat css)) kReadAll c'"
      by (rule Cons.IH) (use c1 Cons.prems in simp_all)
    with r(1) c1 Cons.prems(3) show ?thesis by (auto simp: SimpleHTTPConn_GetRequest_def body_result_def)
  qed
qed

text \<open>C34: Once the head is read, a body of the announced length is collected whole, however many calls and reads it is spread over
  and even when it is larger than the buffer; the application then deals with the message exactly once, with the whole body.\<close>

theorem simple_body_collected:
  assumes "sc_conn_status c = kPacket" "sc_header_len c \<le> length (sc_rbuf c)" "length (sc_rbuf c) < simple_MaxMessage"
    and "0 < unat (sc_remain_packet_len c)" "length (concat (concat css)) = unat (sc_remain_packet_len c)"
    and "\<forall>chunks \<in> set css. \<forall>ch \<in> set chunks. ch \<noteq> []"
  shows "\<exists>c'. simple_get_calls s2l lower deal (map (map Bytes) css) c = Some (kReadAll, c') \<and>
    sq_content (sc_request c') = sq_content (sc_request c) @ drop (sc_header_len c) (sc_rbuf c) @ concat (concat css) \<and>
    (sc_response c', sc_user c') = deal (sc_request c') (Response_Clear (sc_response c)) (sc_user c) \<and>
    pc_is_reply c' \<and> sc_conn_status c' = kHeader \<and> sc_rbuf c' = []"
proof -
  have "receiving_body c" using assms(1-4) by (simp add: receiving_body_def)
  from simple_get_calls_body [OF this assms(6,5), of s2l lower deal] assms(5) show ?thesis
    by (auto simp: body_result_def body_so_far_def)
qed

definition count_bytes :: "nat deal_message" where
  "count_bytes r p u = (p, u + length (sq_content r))"

theorem simple_body_collected_witness:
  "\<exists>c'. simple_get_calls (\<lambda>_ _. None) id count_bytes (map (map Bytes) [[''a'', ''bc''], [], [''de'']])
     (simple_demo\<lparr>sc_conn_status := kPacket, sc_rbuf := ''hh12'', sc_header_len := 2, sc_remain_packet_len := 5\<rparr>) = Some (kReadAll, c') \<and>
     sc_user c' = 7"
proof -
  let ?c = "simple_demo\<lparr>sc_conn_status := kPacket, sc_rbuf := ''hh12'', sc_header_len := 2, sc_remain_packet_len := 5\<rparr>"
  have "sc_user ?c = 0" "sq_content (sc_request ?c) = []"
    by (simp_all add: simple_demo_def SimpleHTTPConn_new_def pink_conn.defs PinkConn_new_def Request_new_def)
  then show ?thesis
    using simple_body_collected [of ?c "[[''a'', ''bc''], [], [''de'']]" "\<lambda>_ _. None" id count_bytes]
    by (auto simp: simple_MaxMessage_def count_bytes_def)
qed

section \<open>Where the code departs from its intent\<close>

text \<open>
  A request without a Host header: the empty host is found in every path, and the seven bytes of a \<^verbatim>\<open>http://\<close> that is
  not there are cut off.
\<close>

lemma no_host_cuts_path:
  assumes "om_get (hh_headers r) ''host'' = None" "7 < length (hh_url r)" "CHR ''?'' \<notin> set (hh_url r)"
  shows "hh_url (Request_ParseGetUrl r) = drop 7 (hh_url r)"
proof -
  have "find_sub [] (hh_url r) \<noteq> None" using find_sub_hit [of "[]" "hh_url r"] by simp
  moreover have "CHR ''?'' \<notin> set (drop 7 (hh_url r))" using assms(3) in_set_dropD by fast
  then have "find_pos ((=) (CHR ''?'')) (drop 7 (hh_url r)) = None" by (auto simp: find_pos_None)
  ultimately show ?thesis using assms by (simp add: Request_ParseGetUrl_def Let_def)
qed

text \<open>Bytes after the announced body that arrive with the head make the length still awaited wrap around.\<close>

lemma simple_pipelined_wraps:
  assumes "ParseHeadFromArray lower (sc_rbuf c) (int (sc_header_len c)) (Request_Clear (sc_request c)) = (True, r)"
    and "om_get (hh_headers r) ''content-length'' = None" "length (sc_rbuf c) = sc_header_len c + 1"
  shows "sc_remain_packet_len (snd (BuildRequestHeader s2l lower c)) = 2 ^ 64 - 1"
  using assms by (simp add: BuildRequestHeader_def Let_def)

end
