(* ===== verification/ExampleServers.thy ===== *)
theory ExampleServers
  imports Tls SimpleHttpConn RedisConn RedisCli
begin

text \<open>
  The applications of the example programs (\<^verbatim>\<open>examples/\<close>), run on the connections of the library: a server that answers with the md5 sum of
  what it was sent, plain and with TLS, a server with a constant answer, and a redis store.

  The theorems put the components together: from the bytes of a request, cut into reads in any way, through the parser and the
  application to the bytes of the answer, over any writes.
\<close>

section \<open>The md5 server\<close>

text \<open>
  \<^verbatim>\<open>examples/http_server.cc\<close>, and with TLS \<^verbatim>\<open>examples/https_server.cc\<close>: the body of the answer is the md5 sum of the body of the request.
  The sum itself (\<^verbatim>\<open>slash::md5\<close>) is a parameter.  \<^verbatim>\<open>HandleConnClosed\<close> is not overridden and does nothing.
\<close>

record my_handles =
  mh_body_data :: bytes
  mh_body_md5 :: bytes
  mh_write_pos :: nat

definition MyHTTPHandles_new :: my_handles where
  "MyHTTPHandles_new = \<lparr>mh_body_data = [], mh_body_md5 = [], mh_write_pos = 0\<rparr>"

definition my_HandleRequest :: "http_request \<Rightarrow> my_handles \<Rightarrow> bool \<times> my_handles" where
  "my_HandleRequest req u = (False, u\<lparr>mh_body_data := []\<rparr>)"

definition my_HandleBodyData :: "bytes \<Rightarrow> my_handles \<Rightarrow> my_handles" where
  "my_HandleBodyData data u = u\<lparr>mh_body_data := mh_body_data u @ data\<rparr>"

text \<open>The assertion of \<^verbatim>\<open>SetStatusCode\<close> holds for 200.\<close>

definition my_PrepareResponse :: "(bytes \<Rightarrow> bytes) \<Rightarrow> http_response \<Rightarrow> my_handles \<Rightarrow> http_response \<times> my_handles" where
  "my_PrepareResponse md5 resp u =
     (let u = u\<lparr>mh_body_md5 := md5 (mh_body_data u)\<rparr>
      in case HTTPResponse_SetStatusCode 200 resp of
           None \<Rightarrow> (resp, u)
         | Some resp \<Rightarrow> (SetContentLength (of_nat (length (mh_body_md5 u))) resp, u\<lparr>mh_write_pos := 0\<rparr>))"

definition my_WriteResponseBody :: "nat \<Rightarrow> my_handles \<Rightarrow> body_answer \<times> my_handles" where
  "my_WriteResponseBody max_size u =
     (let sz = min max_size (length (mh_body_md5 u) - mh_write_pos u)
      in (Filled (take sz (drop (mh_write_pos u) (mh_body_md5 u))), u\<lparr>mh_write_pos := mh_write_pos u + sz\<rparr>))"

definition MyHTTPHandles :: "(bytes \<Rightarrow> bytes) \<Rightarrow> my_handles http_handles" where
  "MyHTTPHandles md5 = \<lparr>ha_HandleRequest = my_HandleRequest, ha_HandleBodyData = my_HandleBodyData,
     ha_PrepareResponse = my_PrepareResponse md5, ha_WriteResponseBody = my_WriteResponseBody, ha_HandleConnClosed = id\<rparr>"

definition MyConnFactory_http :: "timeval \<Rightarrow> fd \<Rightarrow> bytes \<Rightarrow> my_handles http_conn" where
  "MyConnFactory_http now connfd ip_port = HTTPConn_new connfd ip_port now MyHTTPHandles_new"

lemma my_streams: "streams (MyHTTPHandles md5) (\<lambda>u. drop (mh_write_pos u) (mh_body_md5 u))"
proof -
  have "\<exists>k. take (min n (length d - w)) (drop w d) = take k (drop w d) \<and> drop (w + min n (length d - w)) d = drop k (drop w d) \<and> 0 < k \<and> k \<le> n"
    if "0 < n" "drop w d \<noteq> []" for n w and d :: bytes
    using that by (intro exI [of _ "min n (length d - w)"]) (auto simp: add.commute)
  then show ?thesis unfolding streams_def MyHTTPHandles_def by (auto simp: my_WriteResponseBody_def Let_def)
qed

text \<open>The answer of the server; an md5 sum is 32 digits.\<close>

definition md5_reply :: "bytes \<Rightarrow> bytes" where
  "md5_reply digest = ''HTTP/1.1 200 OK'' @ CRLF @ ''Content-Length: 32'' @ CRLF @ CRLF @ digest"

lemma my_PrepareResponse_reply:
  assumes "length (md5 body) = 32" "mh_body_data u = body" "(p, u') = my_PrepareResponse md5 (HTTPResponse_Reset q) u"
  shows "hr_resp_status p = kPrepareHeader" "\<not> hr_finished p" "hr_wbuf_pos p = 0" "hr_status_code p = 200" "hr_remain_send_len p = 32"
    and "response_head p = ''HTTP/1.1 200 OK'' @ CRLF @ ''Content-Length: 32'' @ CRLF @ CRLF" "mh_body_md5 u' = md5 body" "mh_write_pos u' = 0"
proof -
  have n: "to_string 200 = ''200''" "to_string 32 = ''32''" by code_simp+
  have p: "p = (HTTPResponse_Reset q)\<lparr>hr_remain_send_len := 32, hr_headers := [(''Content-Length'', ''32'')]\<rparr>"
    and u: "u' = u\<lparr>mh_body_md5 := md5 body, mh_write_pos := 0\<rparr>"
    using assms n by (simp_all add: my_PrepareResponse_def HTTPResponse_SetStatusCode_def status_code_ok_def SetContentLength_def
        HTTPResponse_Reset_def HTTPResponse_SetHeaders_def om_get_def)
  show "hr_resp_status p = kPrepareHeader" "\<not> hr_finished p" "hr_wbuf_pos p = 0" "hr_status_code p = 200" "hr_remain_send_len p = 32"
    "mh_body_md5 u' = md5 body" "mh_write_pos u' = 0"
    by (simp_all add: p u HTTPResponse_Reset_def)
  show "response_head p = ''HTTP/1.1 200 OK'' @ CRLF @ ''Content-Length: 32'' @ CRLF @ CRLF"
    by (simp add: p n response_head_def HTTPResponse_Reset_def header_pieces_def status_line_def http_status_map_def cstr_def)
qed

text \<open>A request that arrives at an idle connection, with the conditions under which the parser takes it.\<close>

definition request_arrives :: "(bytes \<Rightarrow> bytes) \<Rightarrow> bytes \<Rightarrow> bytes list \<Rightarrow> 'u http_conn \<Rightarrow> bool" where
  "request_arrives lower body chunks c \<longleftrightarrow>
     (\<exists>meth path qs version hs. request_ok lower meth path qs version hs (length body) \<and>
        length (request_head meth path qs version hs @ body) \<le> kHTTPMaxHeader \<and>
        concat chunks = request_head meth path qs version hs @ body) \<and>
     (\<forall>ch \<in> set chunks. ch \<noteq> []) \<and> hq_req_status (hc_request c) = kNewRequest \<and> hr_finished (hc_response c)"

text \<open>What the client gets over any sequence of writes: a part of the reply, and the whole of it once it is reported as sent.\<close>

definition reply_got :: "bytes \<Rightarrow> (WriteStatus \<times> bytes \<times> 'c) option \<Rightarrow> bool" where
  "reply_got reply r \<longleftrightarrow> (\<exists>s wire c. r = Some (s, wire, c) \<and> (\<exists>more. wire @ more = reply) \<and> (s = kWriteAll \<longrightarrow> wire = reply))"

lemma my_request:
  fixes c :: "my_handles http_conn"
  assumes "length (md5 body) = 32" "request_arrives lower body chunks c"
  shows "\<exists>c'. HTTPConn_GetRequest lower (MyHTTPHandles md5) (map Bytes chunks) c = Some (kReadAll, c', []) \<and> pc_is_reply c' \<and>
    (\<forall>ass. reply_got (md5_reply (md5 body)) (send_calls (MyHTTPHandles md5) ass c'))"
proof -
  let ?h = "MyHTTPHandles md5"
  obtain meth path qs version hs where req: "request_ok lower meth path qs version hs (length body)"
    "length (request_head meth path qs version hs @ body) \<le> kHTTPMaxHeader" "concat chunks = request_head meth path qs version hs @ body"
    and c: "\<forall>ch \<in> set chunks. ch \<noteq> []" "hq_req_status (hc_request c) = kNewRequest" "hr_finished (hc_response c)"
    using assms(2) by (auto simp: request_arrives_def)
  obtain c' where g: "HTTPConn_GetRequest lower ?h (map Bytes chunks) c = Some (kReadAll, c', [])" "pc_is_reply c'"
    "(hc_response c', hc_user c') = my_PrepareResponse md5 (HTTPResponse_Reset (hc_response c))
       (my_HandleBodyData body ((hc_user c)\<lparr>mh_body_data := []\<rparr>))"
    using http_request_served [OF req(1) _ _ req(2,3) c, of ?h "(hc_user c)\<lparr>mh_body_data := []\<rparr>"]
    by (auto simp: MyHTTPHandles_def my_HandleRequest_def)
  note p = my_PrepareResponse_reply [where body = body, OF assms(1) _ g(3)]
  have "reply_got (md5_reply (md5 body)) (send_calls ?h ass c')" for ass
    using http_reply_sent [OF my_streams [of md5], of c' "md5 body" ass] p assms(1)
    by (auto simp: reply_got_def md5_reply_def my_HandleBodyData_def status_code_ok_def kHTTPMaxHeader_def)
  with g show ?thesis by blast
qed

lemma my_request_tls:
  fixes c :: "my_handles http_conn"
  assumes "length (md5 body) = 32" "request_arrives lower body chunks c"
  shows "\<exists>c'. GetRequest_tls lower (MyHTTPHandles md5) (map Decrypted chunks) c = Some (kReadAll, c', []) \<and> pc_is_reply c' \<and>
    (\<forall>ass. reply_got (md5_reply (md5 body)) (send_calls_tls (MyHTTPHandles md5) ass [] c'))"
proof -
  let ?h = "MyHTTPHandles md5"
  obtain c' where c': "HTTPConn_GetRequest lower ?h (map Bytes chunks) c = Some (kReadAll, c', [])" "pc_is_reply c'"
    "\<forall>ass. reply_got (md5_reply (md5 body)) (send_calls ?h ass c')"
    using my_request [of md5 body, OF assms] by blast
  have "ssl_bytes (map Decrypted chunks) = length (concat chunks)" by (induction chunks) simp_all
  then have fits: "(if hq_req_status (hc_request c) = kNewRequest then 0 else length (hq_rbuf (hc_request c))) + ssl_bytes (map Decrypted chunks)
      < kHTTPMaxMessage"
    using assms(2) by (auto simp: request_arrives_def kHTTPMaxHeader_def kHTTPMaxMessage_def)
  have "map plain_read (map Decrypted chunks) = map Bytes chunks" using assms(2) by (simp add: request_arrives_def plain_read_def)
  then have "map_option (\<lambda>(s, c, as). (s, c, map plain_read as)) (GetRequest_tls lower ?h (map Decrypted chunks) c) = Some (kReadAll, c', [])"
    using GetRequest_tls_plain [OF fits, of lower ?h] c'(1) by (simp only:)
  then have "GetRequest_tls lower ?h (map Decrypted chunks) c = Some (kReadAll, c', [])" by auto
  moreover have "reply_got (md5_reply (md5 body)) (send_calls_tls ?h ass [] c')" for ass
  proof -
    have "reply_got (md5_reply (md5 body)) (map_option (\<lambda>(s, wire, c, calls). (s, wire, c)) (send_calls_tls ?h ass [] c'))"
      using c'(3) by (simp only: send_calls_tls_plain)
    then show ?thesis by (auto simp: reply_got_def)
  qed
  ultimately show ?thesis using c'(2) by blast
qed


lemma demo_request_arrives:
  "request_arrives (map c_tolower) ''hi'' [''PUT /a?k=v HTTP/1.1'' @ CRLF @ ''Content-Len'', ''gth: 2'' @ CRLF @ CRLF @ ''h'', ''i'']
     (MyConnFactory_http (0, 0) 7 ''p'')"
proof -
  have "request_ok (map c_tolower) ''PUT'' ''/a'' [(''k'', ''v'')] ''HTTP/1.1'' [(''Content-Length'', ''2'')] (length ''hi'')"
    by (simp add: request_ok_def head_ok_def header_ok_def param_ok_def param_text_def headers_of_def om_get_def c_tolower_def
        to_string.simps digit_char_def char_of_def bit_0)
  moreover have "request_head ''PUT'' ''/a'' [(''k'', ''v'')] ''HTTP/1.1'' [(''Content-Length'', ''2'')] =
      ''PUT /a?k=v HTTP/1.1'' @ CRLF @ ''Content-Length: 2'' @ CRLF @ CRLF"
    by (simp add: request_head_def render_head_def header_line_def param_text_def)
  ultimately show ?thesis
    unfolding request_arrives_def
    by (intro conjI exI [of _ "''PUT''"] exI [of _ "''/a''"] exI [of _ "[(''k'', ''v'')]"] exI [of _ "''HTTP/1.1''"] exI [of _ "[(''Content-Length'', ''2'')]"])
      (simp_all add: kHTTPMaxHeader_def MyConnFactory_http_def HTTPConn_new_def pink_conn.defs PinkConn_new_def HTTPRequest_new_def
        HTTPResponse_new_def)
qed


section \<open>The simple server\<close>

text \<open>\<^verbatim>\<open>examples/simple_http_server.cc\<close>: every request is answered by the same text.  Printing the request is left out.\<close>

definition simple_DealMessage :: "unit deal_message" where
  "simple_DealMessage req res u =
     (case Response_SetStatusCode 200 res of None \<Rightarrow> (res, u) | Some res \<Rightarrow> (Response_SetBody ''china'' res, u))"

definition MyConnFactory_simple :: "timeval \<Rightarrow> fd \<Rightarrow> bytes \<Rightarrow> unit simple_conn" where
  "MyConnFactory_simple now connfd ip_port = SimpleHTTPConn_new connfd ip_port now ()"

text \<open>A request without a body: its head, without a \<^verbatim>\<open>Content-Length\<close> and an \<^verbatim>\<open>Expect\<close> header.\<close>

definition plain_get :: "(bytes \<Rightarrow> bytes) \<Rightarrow> bytes \<Rightarrow> bool" where
  "plain_get lower head \<longleftrightarrow>
     (\<exists>meth url version hs. head = render_head meth url version hs \<and> head_ok meth url version hs \<and>
        om_get (headers_of lower hs) ''content-length'' = None \<and> om_get (headers_of lower hs) ''expect'' = None) \<and>
     length head \<le> simple_MaxHeader"

text \<open>An idle connection that has received the bytes \<open>s\<close> of a head.\<close>

definition simple_waiting :: "bytes \<Rightarrow> 'u simple_conn \<Rightarrow> bool" where
  "simple_waiting s c \<longleftrightarrow> sc_conn_status c = kHeader \<and> sc_rbuf c = s \<and> sc_wbuf c = [] \<and> sc_wbuf_pos c = 0 \<and> sc_response_pos c < 0"

lemma om_ok_headers: "om_ok (headers_of lower hs)"
proof -
  have "om_ok m \<Longrightarrow> om_ok (fold (\<lambda>(k, v). om_ins (lower k) v) hs m)" for m :: params
    by (induction hs arbitrary: m) (auto simp: om_ok_ins)
  then show ?thesis by (simp add: headers_of_def)
qed

lemma ParseGetUrl_headers:
  "hh_headers (Request_ParseGetUrl r) = om_ins ''host'' (case om_get (hh_headers r) ''host'' of Some v \<Rightarrow> v | None \<Rightarrow> []) (hh_headers r)"
  by (simp add: Request_ParseGetUrl_def Let_def split: option.split)

lemma BuildRequestHeader_get:
  assumes "plain_get lower head" "sc_rbuf c = head" "sc_header_len c = length head"
  shows "\<exists>r. BuildRequestHeader s2l lower c = (True, c\<lparr>sc_request := r, sc_remain_packet_len := 0\<rparr>) \<and> om_get (hh_headers r) ''expect'' = None"
proof -
  obtain meth url version hs where h: "head = render_head meth url version hs" "head_ok meth url version hs"
    "om_get (headers_of lower hs) ''content-length'' = None" "om_get (headers_of lower hs) ''expect'' = None"
    using assms(1) by (auto simp: plain_get_def)
  let ?r = "head_loop lower head 0 (int (length head)) ((Request_Clear (sc_request c))\<lparr>hh_parse_status := kHeaderMethod\<rparr>)"
  have "6 \<le> length head" using length_render_head by (simp add: h(1))
  then have parse: "ParseHeadFromArray lower head (int (length head)) (Request_Clear (sc_request c)) = (True, Request_ParseGetUrl ?r)"
    by (simp add: ParseHeadFromArray_def)
  have "hh_headers ?r = headers_of lower hs"
    using head_loop_render [OF h(2), of "(Request_Clear (sc_request c))\<lparr>hh_parse_status := kHeaderMethod\<rparr>" lower "[]"]
    by (simp add: h(1) headers_of_def Request_Clear_def)
  then have "om_get (hh_headers (Request_ParseGetUrl ?r)) ''content-length'' = None" "om_get (hh_headers (Request_ParseGetUrl ?r)) ''expect'' = None"
    using h(3,4) by (simp_all add: ParseGetUrl_headers om_get_ins om_ok_headers)
  with parse assms(2,3) show ?thesis by (intro exI [of _ "Request_ParseGetUrl ?r"]) (simp add: BuildRequestHeader_def Let_def)
qed

lemma simple_get_phase:
  fixes c :: "'u simple_conn"
  assumes "plain_get lower head" "s @ concat chunks = head" "\<forall>ch \<in> set chunks. ch \<noteq> []" "length s < length head" "simple_waiting s c"
  shows "\<exists>c'. simple_read_loop s2l lower deal (map Bytes chunks) c = Some (kReadAll, c', []) \<and> pc_is_reply c' \<and> simple_waiting [] c' \<and>
    (\<exists>req. (sc_response c', sc_user c') = deal req (Response_Clear (sc_response c)) (sc_user c))"
  using assms(2-)
proof (induction chunks arbitrary: s c)
  case (Cons ch chunks)
  obtain meth url version hs where h: "head = render_head meth url version hs" "head_ok meth url version hs"
    using assms(1) by (auto simp: plain_get_def)
  have w: "sc_conn_status c = kHeader" "sc_rbuf c = s" using Cons.prems(4) by (simp_all add: simple_waiting_def)
  have "length (s @ ch) \<le> length head" using arg_cong [OF Cons.prems(1), of length] by simp
  then have fits: "0 < simple_MaxHeader - length s" "length ch \<le> simple_MaxHeader - length s" and ne: "ch \<noteq> []"
    using assms(1) Cons.prems(2,3) by (auto simp: plain_get_def)
  let ?c = "c\<lparr>sc_rbuf := s @ ch\<rparr>"
  show ?case
  proof (cases "concat chunks = []")
    case False
    have sep: "strstr (s @ ch) header_end = None"
      using strstr_partial [OF h(2), of "s @ ch" "concat chunks"] Cons.prems(1) False h(1) by simp
    have "simple_read_step s2l lower deal (map Bytes (ch # chunks)) c = Again ?c (map Bytes chunks)"
      using w fits ne sep by (simp add: simple_read_step_def)
    moreover have "length (s @ ch) < length head"
    proof -
      have "0 < length (concat chunks)" using False unfolding length_greater_0_conv .
      then show ?thesis using arg_cong [OF Cons.prems(1), of length] unfolding concat.simps length_append by linarith
    qed
    ultimately show ?thesis
      using Cons.IH [of "s @ ch" ?c] Cons.prems by (simp add: simple_read_loop.simps [of s2l lower deal _ c] simple_waiting_def)
  next
    case True
    then have head: "s @ ch = head" "chunks = []" using Cons.prems(1,2) by (cases chunks; simp)+
    have sep: "strstr head header_end = Some (length head - 4)" using strstr_head [OF h(2), of "[]"] h(1) by simp
    have len: "length head - 4 + 4 = length head" using length_render_head [of meth url version hs] h(1) by simp
    obtain r where r: "BuildRequestHeader s2l lower (?c\<lparr>sc_header_len := length head\<rparr>) =
        (True, ?c\<lparr>sc_header_len := length head, sc_request := r, sc_remain_packet_len := 0\<rparr>)" "om_get (hh_headers r) ''expect'' = None"
      using BuildRequestHeader_get [OF assms(1), of "?c\<lparr>sc_header_len := length head\<rparr>" s2l] head by auto
    let ?c1 = "?c\<lparr>sc_header_len := length head, sc_request := r, sc_remain_packet_len := 0, sc_conn_status := kPacket\<rparr>"
    let ?c2 = "(AppendRequestBody ?c1)\<lparr>sc_conn_status := kComplete\<rparr>"
    have "simple_read_step s2l lower deal (map Bytes (ch # chunks)) c = Again ?c1 []"
      using w fits ne sep head len r by (simp add: simple_read_step_def simple_head_def)
    moreover have "simple_read_step s2l lower deal [] ?c1 = Again ?c2 []"
      by (simp add: simple_read_step_def simple_body_def AppendRequestBody_def)
    moreover have "simple_read_step s2l lower deal [] ?c2 = simple_step.Return kReadAll ((HandleMessage deal ?c2)\<lparr>sc_conn_status := kHeader, sc_rbuf := []\<rparr>) []"
      by (simp add: simple_read_step_def)
    ultimately have "simple_read_loop s2l lower deal (map Bytes (ch # chunks)) c =
        Some (kReadAll, (HandleMessage deal ?c2)\<lparr>sc_conn_status := kHeader, sc_rbuf := []\<rparr>, [])"
      by (simp add: simple_read_loop.simps)
    moreover have "sc_response ?c2 = sc_response c" "sc_user ?c2 = sc_user c" "sc_wbuf ?c2 = sc_wbuf c" "sc_wbuf_pos ?c2 = sc_wbuf_pos c"
      "sc_response_pos ?c2 = sc_response_pos c"
      by (simp_all add: AppendRequestBody_def)
    ultimately show ?thesis using Cons.prems(4)
      by (auto simp: HandleMessage_def simple_waiting_def base_set_is_reply_def split: prod.splits) (metis (full_types))
  qed
qed simp



section \<open>The redis store\<close>

text \<open>
  \<^verbatim>\<open>examples/myredis_srv.cc\<close>: a map from keys to values.  The number of arguments decides what a command does: three store, two look up,
  anything else is only acknowledged.  The program appends its reply to a string that the library passed to \<^verbatim>\<open>DealMessage\<close> in earlier
  versions; here the string is the reply given to \<^verbatim>\<open>WriteResp\<close>.
\<close>

definition myredis_DealMessage :: "args \<Rightarrow> (bytes \<rightharpoonup> bytes) \<Rightarrow> (bytes \<rightharpoonup> bytes) \<times> bytes list" where
  "myredis_DealMessage argv db =
     (if length argv = 3 then (db(argv ! 1 \<mapsto> argv ! 2), [''+OK'' @ CRLF])
      else if length argv = 2 then
        (db, [case db (argv ! 1) of
                Some val \<Rightarrow> ''*1'' @ CRLF @ ''$'' @ to_string (length val) @ CRLF @ val @ CRLF
              | None \<Rightarrow> ''$-1'' @ CRLF])
      else (db, [''+OK'' @ CRLF]))"

text \<open>The contents of the store after a sequence of commands: the last value stored for each key.\<close>

definition stored :: "args list \<Rightarrow> bytes \<rightharpoonup> bytes" where
  "stored cmds = map_of (rev (map (\<lambda>a. (a ! 1, a ! 2)) (filter (\<lambda>a. length a = 3) cmds)))"

text \<open>The reply to a command on a store.\<close>

definition store_reply :: "args \<Rightarrow> (bytes \<rightharpoonup> bytes) \<Rightarrow> reply" where
  "store_reply argv db =
     (if length argv = 2 then (case db (argv ! 1) of Some v \<Rightarrow> Multi [BulkItem v] | None \<Rightarrow> Single NilItem)
      else Single (LineItem (CHR ''+'') ''OK''))"

lemma myredis_reply: "snd (myredis_DealMessage argv db) = [reply_bytes (store_reply argv db)]"
  by (auto simp: myredis_DealMessage_def store_reply_def to_string.simps digit_char_def char_of_def bit_0 split: option.splits)

lemma stored_snoc: "stored (cmds @ [a]) = fst (myredis_DealMessage a (stored cmds))"
  by (auto simp: stored_def myredis_DealMessage_def)

definition store_replies :: "args list \<Rightarrow> bytes list" where
  "store_replies cmds = map (\<lambda>i. reply_bytes (store_reply (cmds ! i) (stored (take i cmds)))) [0..<length cmds]"

lemma store_replies_snoc: "store_replies (cmds @ [a]) = store_replies cmds @ [reply_bytes (store_reply a (stored cmds))]"
  by (simp add: store_replies_def nth_append)

lemma myredis_run: "foldl (run_app myredis_DealMessage) (Map.empty, []) cmds = (stored cmds, store_replies cmds)"
proof (induction cmds rule: rev_induct)
  case (snoc a cmds)
  then show ?case
    by (simp add: run_app_def stored_snoc store_replies_snoc split: prod.split) (metis myredis_reply snd_conv)
qed (simp add: stored_def store_replies_def)

lemma store_reply_read:
  assumes "length argv = 2" "db (argv ! 1) = Some v" "int (length (reply_bytes (store_reply argv db))) \<le> REDIS_IOBUF_LEN" "rcl_window cl = []"
  shows "\<exists>cl'. RedisCli_Recv cl (Bytes (reply_bytes (store_reply argv db)) # as) = Inr (SOK, Some [v], cl', as) \<and> rcl_window cl' = []"
proof -
  have "int (length v) \<le> REDIS_IOBUF_LEN" using assms(1-3) by (simp add: store_reply_def)
  then have "reply_valid (store_reply argv db)" using assms(1,2) by (simp add: store_reply_def REDIS_IOBUF_LEN_def)
  from RedisCli_Recv_reply [OF this, of "[]" cl as] assms show ?thesis by (simp add: store_reply_def)
qed



end
